(* ===== verification/Prelude.thy ===== *)
theory Prelude
  imports Main "HOL-Library.Word"
begin

text \<open>
  Shared vocabulary of the development: the named collections the component theories extend,
  the type of JavaScript strings (lists of 16-bit code units) with the string methods the
  client code calls, and generic lemmas on lists that are updated by loops.
\<close>

unbundle bit_operations_syntax

named_theorems loop_simps
  \<open>closed forms of the array loops of the source\<close>

named_theorems frame_simps
  \<open>fields an operation leaves alone\<close>

section \<open>Array loops\<close>

text \<open>
  A loop that assigns to array slots is written as a \<^const>\<open>fold\<close> of list updates over the
  list of indices it visits, in the order it visits them. The lemmas here give the array
  such a loop leaves behind.
\<close>

lemma length_fold_update [simp]:
  "length (fold (\<lambda>j t. t[j := f j t]) js xs) = length xs"
  by (induction js arbitrary: xs) auto

lemma nth_fold_update_notin:
  "k \<notin> set js \<Longrightarrow> fold (\<lambda>j t. t[j := f j t]) js xs ! k = xs ! k"
  by (induction js arbitrary: xs) auto

lemma nth_fold_update_const [loop_simps]:
  "k < length xs \<Longrightarrow>
   fold (\<lambda>j t. t[j := c]) js xs ! k = (if k \<in> set js then c else xs ! k)"
  by (induction js arbitrary: xs) (auto simp: nth_list_update)

text \<open>
  A descending loop reads lower slots before they are overwritten, so every slot it writes
  holds the value computed from the array as it was before the loop.
\<close>

lemma nth_fold_update_desc [loop_simps]:
  assumes "\<And>j t t'. (\<And>k. k \<le> j \<Longrightarrow> t ! k = t' ! k) \<Longrightarrow> f j t = f j t'"
    and "k < length xs"
  shows "fold (\<lambda>j t. t[j := f j t]) (rev [a..<b]) xs ! k =
           (if a \<le> k \<and> k < b then f k xs else xs ! k)"
  using assms(2)
proof (induction b arbitrary: xs)
  case 0
  then show ?case by simp
next
  case (Suc b)
  show ?case
  proof (cases "a \<le> b")
    case True
    let ?xs = "xs[b := f b xs]"
    have k: "k < length ?xs" using Suc.prems by simp
    have eq: "f k ?xs = f k xs" if "k < b"
      by (rule assms(1)) (use that in auto)
    have "fold (\<lambda>j t. t[j := f j t]) (rev [a..<Suc b]) xs ! k =
            fold (\<lambda>j t. t[j := f j t]) (rev [a..<b]) ?xs ! k"
      using True by simp
    also have "\<dots> = (if a \<le> k \<and> k < b then f k ?xs else ?xs ! k)"
      by (rule Suc.IH[OF k])
    also have "\<dots> = (if a \<le> k \<and> k < Suc b then f k xs else xs ! k)"
      using eq True Suc.prems by (auto simp: nth_list_update less_Suc_eq)
    finally show ?thesis .
  next
    case False
    then show ?thesis by auto
  qed
qed

section \<open>Small list facts\<close>

lemma nth_map_upt_from_zero [simp]: "i < n \<Longrightarrow> map f [0..<n] ! i = f i"
  by simp

lemma fold_xor_zero:
  fixes b :: "'a :: len word"
  shows "fold (\<lambda>x a. a XOR f x) xs b = b XOR fold (\<lambda>x a. a XOR f x) xs 0"
proof (induction xs arbitrary: b)
  case (Cons x xs)
  show ?case
    using Cons.IH[of "b XOR f x"] Cons.IH[of "f x"] by (simp add: xor.assoc)
qed simp

section \<open>JavaScript arrays and strings\<close>

text \<open>
  slice(begin, end) of arrays and strings: a negative index counts from the end, and both
  are clamped to the length.
\<close>

definition js_clamp :: "int \<Rightarrow> int \<Rightarrow> int" where
  "js_clamp n x = (if x < 0 then max (n + x) 0 else min x n)"

definition js_slice :: "'a list \<Rightarrow> int \<Rightarrow> int \<Rightarrow> 'a list" where
  "js_slice xs b e =
     (let n = int (length xs); from = js_clamp n b; to = js_clamp n e
      in take (nat (to - from)) (drop (nat from) xs))"

lemma js_slice_prefix: "js_slice xs 0 (int k) = take k xs"
  by (simp add: js_slice_def js_clamp_def min_def)

lemma js_slice_suffix: "k \<le> length xs \<Longrightarrow> js_slice xs (int k) (int (length xs)) = drop k xs"
  by (simp add: js_slice_def js_clamp_def)

lemma js_slice_range:
  "n + m \<le> length xs \<Longrightarrow> js_slice xs (int n) (int (n + m)) = take m (drop n xs)"
  by (simp add: js_slice_def js_clamp_def)

text \<open>
  Assignment to an array slot. Inside the array it replaces the entry; past the end it
  extends the array, and the slots in between stay holes, for which the caller names a value.
\<close>

definition js_set :: "'a \<Rightarrow> 'a list \<Rightarrow> nat \<Rightarrow> 'a \<Rightarrow> 'a list" where
  "js_set hole xs i v =
     (if i < length xs then xs[i := v] else xs @ replicate (i - length xs) hole @ [v])"

lemma length_js_set [simp]: "length (js_set h xs i v) = max (length xs) (Suc i)"
  by (simp add: js_set_def)

lemma nth_js_set_same [simp]: "js_set h xs i v ! i = v"
  by (simp add: js_set_def nth_append)

lemma nth_js_set_other [simp]: "k < length xs \<Longrightarrow> k \<noteq> i \<Longrightarrow> js_set h xs i v ! k = xs ! k"
  by (simp add: js_set_def nth_append)

lemma js_set_inside: "i < length xs \<Longrightarrow> js_set h xs i v = xs[i := v]"
  by (simp add: js_set_def)

lemma js_set_at_end: "js_set h xs (length xs) v = xs @ [v]"
  by (simp add: js_set_def)

text \<open>
  A JavaScript string is a list of 16-bit code units. Literals of the source are written
  with \<open>lit\<close> from the Isabelle literal of the same characters.
\<close>

type_synonym code_unit = "16 word"
type_synonym js_string = "16 word list"

definition lit :: "string \<Rightarrow> js_string" where
  "lit s = map of_char s"

lemma lit_Nil [simp]: "lit [] = []"
  and lit_Cons [simp]: "lit (c # s) = of_char c # lit s"
  by (simp_all add: lit_def)

lemma length_lit [simp]: "length (lit s) = length s"
  by (simp add: lit_def)

section \<open>Results that may be an exception\<close>

text \<open>
  An operation that can throw returns \<^const>\<open>Inl\<close> with the exception or \<^const>\<open>Inr\<close> with
  its result; \<open>bind_ok\<close> runs the rest of a body after a call that may throw.
\<close>

definition bind_ok :: "'e + 'a \<Rightarrow> ('a \<Rightarrow> 'e + 'b) \<Rightarrow> 'e + 'b" where
  "bind_ok r k = (case r of Inl e \<Rightarrow> Inl e | Inr x \<Rightarrow> k x)"

lemma bind_ok_simps [simp]:
  "bind_ok (Inl e) k = Inl e"
  "bind_ok (Inr x) k = k x"
  by (simp_all add: bind_ok_def)

lemma bind_ok_cong [fundef_cong]:
  "r = r' \<Longrightarrow> (\<And>x. r' = Inr x \<Longrightarrow> k x = k' x) \<Longrightarrow> bind_ok r k = bind_ok r' k'"
  by (cases r') auto

lemma bind_ok_Inr_iff: "bind_ok r k = Inr y \<longleftrightarrow> (\<exists>x. r = Inr x \<and> k x = Inr y)"
  by (cases r) auto

lemma bind_ok_Inl_iff: "bind_ok r k = Inl e \<longleftrightarrow> r = Inl e \<or> (\<exists>x. r = Inr x \<and> k x = Inl e)"
  by (cases r) auto

lemma bind_ok_InrE:
  assumes "bind_ok r k = Inr y"
  obtains x where "r = Inr x" and "k x = Inr y"
  using assms by (auto simp: bind_ok_Inr_iff)

lemma bind_ok_assoc: "bind_ok (bind_ok r k) l = bind_ok r (\<lambda>x. bind_ok (k x) l)"
  by (cases r) auto

end
