(* ===== verification/Galois.thy ===== *)
theory Galois
  imports Prelude
begin

text \<open>
  The arithmetic of GF(256) in reedsolomon.js: the logarithm tables that
  ReedSolomon.initGaloisTables fills in, and gmult and ginv, which read them.
  The bytes of the source are \<open>8 word\<close> values. The lemmas show that the tables are the powers
  of a generator of the multiplicative group of the field of the polynomial
  x^8 + x^4 + x^3 + x^2 + 1, and the type \<open>gf256\<close> collects the field laws.
\<close>

type_synonym byte = "8 word"

section \<open>The tables of initGaloisTables\<close>

text \<open>
  The eight variables p1 to p8 of the loop hold one bit each (0 or 1): a tuple of booleans.
  One turn of the loop shifts them and feeds p8 back.
\<close>

type_synonym lfsr = "bool \<times> bool \<times> bool \<times> bool \<times> bool \<times> bool \<times> bool \<times> bool"

definition lfsr_step :: "lfsr \<Rightarrow> lfsr" where
  "lfsr_step p =
     (case p of (p1, p2, p3, p4, p5, p6, p7, p8) \<Rightarrow>
        let pinit = p8
        in (pinit, p1, p2 \<noteq> pinit, p3 \<noteq> pinit, p4 \<noteq> pinit, p5, p6, p7))"

definition lfsr_value :: "lfsr \<Rightarrow> byte" where
  "lfsr_value p =
     (case p of (p1, p2, p3, p4, p5, p6, p7, p8) \<Rightarrow>
        of_bool p1 + of_bool p2 * 2 + of_bool p3 * 4 + of_bool p4 * 8 +
        of_bool p5 * 16 + of_bool p6 * 32 + of_bool p7 * 64 + of_bool p8 * 128)"

text \<open>
  The first loop of initGaloisTables, over the list of its indices. Slot 511 of the array is
  never assigned by the source and never read; it is 0 here.
\<close>

fun gexp_loop :: "nat list \<Rightarrow> lfsr \<Rightarrow> byte list \<Rightarrow> byte list" where
  "gexp_loop [] p gexp = gexp"
| "gexp_loop (i # is) p gexp =
     (let p' = lfsr_step p
      in gexp_loop is p' (gexp[i := lfsr_value p', i + 255 := lfsr_value p']))"

definition gexp :: "byte list" where
  "gexp = gexp_loop [1..<256] (True, False, False, False, False, False, False, False)
            ((replicate 512 0)[0 := 1, 255 := 1])"

text \<open>The second loop: the first exponent below 256 at which each non-zero byte is found.\<close>

fun first_exponent :: "byte \<Rightarrow> nat list \<Rightarrow> nat" where
  "first_exponent i [] = 0"
| "first_exponent i (z # zs) = (if gexp ! z = i then z else first_exponent i zs)"

definition glog :: "nat list" where
  "glog = 0 # map (\<lambda>i. first_exponent (of_nat i) [0..<256]) [1..<256]"

definition gmult :: "byte \<Rightarrow> byte \<Rightarrow> byte" where
  "gmult a b =
     (if a = 0 \<or> b = 0 then 0
      else let i = glog ! unat a; j = glog ! unat b in gexp ! (i + j))"

definition ginv :: "byte \<Rightarrow> byte" where
  "ginv elt = gexp ! (255 - glog ! unat elt)"

section \<open>Multiplication by the generator\<close>

definition xtime :: "byte \<Rightarrow> byte" where
  "xtime a = push_bit 1 a XOR (if bit a 7 then 29 else 0)"

lemma xtime_lfsr: "lfsr_value (lfsr_step p) = xtime (lfsr_value p)"
proof -
  obtain p1 p2 p3 p4 p5 p6 p7 p8 where p: "p = (p1, p2, p3, p4, p5, p6, p7, p8)"
    by (cases p) auto
  show ?thesis
    unfolding p
    by (cases p1; cases p2; cases p3; cases p4; cases p5; cases p6; cases p7; cases p8)
      (simp_all add: lfsr_step_def lfsr_value_def xtime_def bit_numeral_iff bit_iff_odd)
qed

lemma xtime_linear: "xtime (a XOR b) = xtime a XOR xtime b"
  by (rule bit_word_eqI) (auto simp: xtime_def bit_simps)

lemma xtime_zero [simp]: "xtime 0 = 0"
  by (simp add: xtime_def)

definition apow :: "nat \<Rightarrow> byte" where
  "apow i = (xtime ^^ i) 1"

lemma apow_0 [simp]: "apow 0 = 1"
  by (simp add: apow_def)

lemma apow_Suc: "apow (Suc i) = xtime (apow i)"
  by (simp add: apow_def)

lemma apow_add: "apow (i + j) = (xtime ^^ i) (apow j)"
  by (simp add: apow_def funpow_add)

lemma funpow_xtime_zero [simp]: "(xtime ^^ i) 0 = 0"
  by (induction i) auto

lemma funpow_xtime_linear: "(xtime ^^ i) (a XOR b) = (xtime ^^ i) a XOR (xtime ^^ i) b"
  by (induction i) (auto simp: xtime_linear)

lemma xtime_inj: "xtime a = xtime b \<Longrightarrow> a = b"
proof -
  assume "xtime a = xtime b"
  then have "xtime (a XOR b) = 0" by (simp add: xtime_linear)
  moreover have "xtime c = 0 \<Longrightarrow> c = 0" for c
  proof (rule bit_word_eqI)
    fix n assume z: "xtime c = 0" and n: "n < LENGTH(8)"
    have x0: "bit (xtime c) 0 = bit c 7"
      unfolding xtime_def bit_xor_iff bit_push_bit_iff by simp
    have xs: "bit (xtime c) (Suc k) = (bit c k \<noteq> (bit c 7 \<and> bit (29 :: byte) (Suc k)))"
      if "Suc k < 8" for k
      unfolding xtime_def bit_xor_iff bit_push_bit_iff using that by simp
    have b7: "\<not> bit c 7" using x0 z by simp
    show "bit c n = bit 0 n"
    proof (cases "n = 7")
      case False
      then show ?thesis using xs[of n] z b7 n by simp
    qed (use b7 in simp)
  qed
  ultimately have "a XOR b = 0" by blast
  then show "a = b"
    by (metis xor.assoc xor.left_neutral xor_self_eq xor.commute)
qed

section \<open>The tables hold the powers of the generator\<close>

lemma length_gexp_loop [simp]: "length (gexp_loop is p g) = length g"
  by (induction "is" p g rule: gexp_loop.induct) (auto simp: Let_def)

lemma gexp_loop_nth:
  assumes "lfsr_value p = apow k" and "k + n = 255" and "length g = 512" and "j < 511"
  shows "gexp_loop [Suc k..<256] p g ! j =
           (if k < j \<and> j \<le> 255 then apow j
            else if 255 + k < j then apow (j - 255) else g ! j)"
  using assms
proof (induction n arbitrary: k p g)
  case 0
  then show ?case by auto
next
  case (Suc n)
  let ?p = "lfsr_step p" and ?v = "lfsr_value (lfsr_step p)"
  let ?g = "g[Suc k := ?v, Suc k + 255 := ?v]"
  have v: "?v = apow (Suc k)" using Suc.prems(1) by (simp add: xtime_lfsr apow_Suc)
  have upt: "[Suc k..<256] = Suc k # [Suc (Suc k)..<256]"
    using Suc.prems(2) by (simp add: upt_conv_Cons)
  have gj: "?g ! j = (if j = Suc k \<or> j = 256 + k then apow (Suc k) else g ! j)"
    using Suc.prems v by (auto simp: nth_list_update)
  have "gexp_loop [Suc k..<256] p g ! j = gexp_loop [Suc (Suc k)..<256] ?p ?g ! j"
    unfolding upt by (simp add: Let_def)
  also have "\<dots> = (if Suc k < j \<and> j \<le> 255 then apow j
      else if 255 + Suc k < j then apow (j - 255) else ?g ! j)"
    by (rule Suc.IH) (use Suc.prems v in auto)
  finally have step: "gexp_loop [Suc k..<256] p g ! j =
      (if Suc k < j \<and> j \<le> 255 then apow j
       else if 255 + Suc k < j then apow (j - 255)
       else if j = Suc k \<or> j = 256 + k then apow (Suc k) else g ! j)"
    unfolding gj .
  consider "j = 256 + k" | "j = Suc k" | "j \<noteq> 256 + k" "j \<noteq> Suc k" by blast
  then show ?case
  proof cases
    case 1
    have j: "j - 255 = Suc k" using 1 by simp
    show ?thesis unfolding step j using 1 by simp
  next
    case 2
    then show ?thesis using step Suc.prems(2) by simp
  next
    case 3
    then show ?thesis using step by auto
  qed
qed

text \<open>The feedback shift register returns to its start after 255 turns.\<close>

lemma lfsr_step_tuple:
  "lfsr_step (p1, p2, p3, p4, p5, p6, p7, p8) =
     (p8, p1, p2 \<noteq> p8, p3 \<noteq> p8, p4 \<noteq> p8, p5, p6, p7)"
  by (simp add: lfsr_step_def Let_def)

lemma funpow_lfsr_numeral:
  "(lfsr_step ^^ numeral n) (p1, p2, p3, p4, p5, p6, p7, p8) =
     (lfsr_step ^^ pred_numeral n) (p8, p1, p2 \<noteq> p8, p3 \<noteq> p8, p4 \<noteq> p8, p5, p6, p7)"
  by (simp add: numeral_eq_Suc lfsr_step_tuple funpow_swap1 del: funpow.simps
      add: funpow_Suc_right)

abbreviation lfsr_init :: lfsr where
  "lfsr_init \<equiv> (True, False, False, False, False, False, False, False)"

lemma lfsr_value_init: "lfsr_value lfsr_init = 1"
  by (simp add: lfsr_value_def)

lemma lfsr_value_funpow: "lfsr_value ((lfsr_step ^^ n) lfsr_init) = apow n"
  by (induction n) (simp_all add: xtime_lfsr lfsr_value_init apow_Suc)

lemma apow_255: "apow 255 = 1"
proof -
  have "(lfsr_step ^^ 255) lfsr_init = lfsr_init"
    by (simp add: funpow_lfsr_numeral lfsr_step_tuple)
  then show ?thesis by (metis lfsr_value_funpow lfsr_value_init)
qed

lemma apow_no_smaller_order: "apow 85 \<noteq> 1" "apow 51 \<noteq> 1" "apow 15 \<noteq> 1"
  unfolding lfsr_value_funpow[symmetric]
  by (simp_all add: funpow_lfsr_numeral lfsr_step_tuple lfsr_value_def)

lemma apow_mod: "apow (n mod 255) = apow n"
proof -
  have "apow (255 * q) = 1" for q
  proof (induction q)
    case (Suc q)
    have "apow (255 + 255 * q) = (xtime ^^ 255) 1" using Suc by (simp only: apow_add)
    also have "\<dots> = 1" using apow_255 by (simp only: apow_def)
    finally show ?case by simp
  qed simp
  then have "apow (n mod 255 + 255 * (n div 255)) = apow (n mod 255)"
    by (simp only: apow_add) (simp only: apow_def)
  then show ?thesis by simp
qed

lemma funpow_xtime_inj: "(xtime ^^ i) a = (xtime ^^ i) b \<Longrightarrow> a = b"
  by (induction i) (auto dest: xtime_inj)

lemma apow_nonzero [simp]: "apow i \<noteq> 0"
  using funpow_xtime_inj[of i 1 0] by (auto simp: apow_def)

lemma gexp_nth: "i < 511 \<Longrightarrow> gexp ! i = apow i"
proof -
  assume i: "i < 511"
  have "gexp ! i = (if 0 < i \<and> i \<le> 255 then apow i
      else if 255 < i then apow (i - 255) else ((replicate 512 0)[0 := 1, 255 := 1]) ! i)"
    unfolding gexp_def
    using gexp_loop_nth[of lfsr_init 0 255 "(replicate 512 0)[0 := 1, 255 := 1]" i] i
    by (auto simp: lfsr_value_init)
  also have "\<dots> = apow i"
  proof (cases "i \<le> 255")
    case False
    have "apow (i - 255) = apow (i - 255 + 255)"
      by (metis apow_mod mod_add_self2)
    then show ?thesis using False by simp
  qed auto
  finally show ?thesis .
qed

section \<open>The generator has order 255\<close>

lemma apow_mult_one: "apow d = 1 \<Longrightarrow> apow (d * q) = 1"
proof (induction q)
  case (Suc q)
  assume "apow d = 1"
  then show ?case using Suc by (simp add: apow_add) (simp add: apow_def)
qed simp

lemma apow_mod_one: "apow d = 1 \<Longrightarrow> apow (n mod d) = apow n"
proof -
  assume d: "apow d = 1"
  have "apow (n mod d + d * (n div d)) = apow (n mod d)"
    using apow_mult_one[OF d] by (simp only: apow_add) (simp only: apow_def)
  then show ?thesis by simp
qed

lemma proper_divisor_255:
  assumes "d dvd 255" and "d < (255 :: nat)"
  shows "d dvd 85 \<or> d dvd 51 \<or> d dvd 15"
proof -
  have "list_all (\<lambda>d :: nat. 255 mod d = 0 \<longrightarrow> 85 mod d = 0 \<or> 51 mod d = 0 \<or> 15 mod d = 0) [1..<255]"
    by code_simp
  moreover have "d \<in> set [1..<255]"
    using assms by (cases "d = 0") auto
  ultimately show ?thesis
    using assms(1) by (auto simp: list_all_iff dvd_eq_mod_eq_0)
qed

lemma apow_order:
  assumes "0 < d" "d < 255"
  shows "apow d \<noteq> 1"
proof
  assume one: "apow d = 1"
  define m where "m = (LEAST m. 0 < m \<and> apow m = 1)"
  have m: "0 < m" "apow m = 1"
    using LeastI[of "\<lambda>m. 0 < m \<and> apow m = 1" d] assms(1) one by (auto simp: m_def)
  have least: "m \<le> k" if "0 < k" "apow k = 1" for k
    unfolding m_def by (rule Least_le) (use that in auto)
  have "apow (255 mod m) = 1" using apow_mod_one[OF m(2), of 255] apow_255 by simp
  then have "255 mod m = 0"
    using least[of "255 mod m"] m(1) by (meson gr0I mod_less_divisor not_le)
  then have "m dvd 255" by auto
  moreover have "m < 255" using least[OF assms(1) one] assms(2) by simp
  ultimately have "m dvd 85 \<or> m dvd 51 \<or> m dvd 15" by (rule proper_divisor_255)
  then show False
    using apow_no_smaller_order apow_mult_one[OF m(2)] by (auto elim!: dvdE)
qed

lemma apow_inj: "i < 255 \<Longrightarrow> j < 255 \<Longrightarrow> apow i = apow j \<Longrightarrow> i = j"
proof (induction i j rule: linorder_wlog)
  case (le i j)
  have "(xtime ^^ i) (apow (j - i)) = apow j"
    using le(1) by (simp flip: apow_add)
  then have "(xtime ^^ i) (apow (j - i)) = (xtime ^^ i) 1"
    using le(4) by (simp add: apow_def)
  then have "apow (j - i) = 1" by (rule funpow_xtime_inj)
  then show ?case using apow_order[of "j - i"] le by (cases "i = j") auto
qed auto

lemma apow_surj: "a \<noteq> 0 \<Longrightarrow> \<exists>i < 255. apow i = a"
proof -
  assume a: "a \<noteq> 0"
  obtain N :: nat where N: "N = 255" by blast
  have "inj_on apow {..<N}" by (rule inj_onI) (use apow_inj N in auto)
  then have "card (apow ` {..<N}) = N" by (simp add: card_image)
  moreover have "card (UNIV - {0 :: byte}) = N"
    using card_word[where ?'a = 8] by (simp add: card_Diff_singleton N)
  moreover have "apow ` {..<N} \<subseteq> UNIV - {0}" by auto
  ultimately have "apow ` {..<N} = UNIV - {0}"
    by (intro card_subset_eq) auto
  then show ?thesis using a N by (metis (no_types, lifting) Diff_iff UNIV_I imageE lessThan_iff singletonD)
qed

section \<open>The logarithm table\<close>

lemma first_exponent_finds:
  assumes "gexp ! k = a" "k \<in> set zs"
  shows "gexp ! first_exponent a zs = a \<and> first_exponent a zs \<in> set zs"
  using assms by (induction zs) auto

lemma first_exponent_upt_le:
  "gexp ! k = a \<Longrightarrow> m \<le> k \<Longrightarrow> k < n \<Longrightarrow> first_exponent a [m..<n] \<le> k"
proof (induction "n - m" arbitrary: m)
  case (Suc d)
  have "[m..<n] = m # [Suc m..<n]" using Suc.prems by (simp add: upt_conv_Cons)
  then show ?case
    using Suc.prems Suc.hyps(1)[of "Suc m"] Suc.hyps(2) by (cases "m = k") auto
qed simp

lemma glog_apow:
  assumes "i < 255"
  shows "glog ! unat (apow i) = i"
proof -
  let ?a = "apow i"
  let ?z = "first_exponent ?a [0..<256]"
  have ai: "gexp ! i = ?a" using assms by (simp add: gexp_nth)
  have z: "?z \<le> i" by (rule first_exponent_upt_le[OF ai]) (use assms in auto)
  have "gexp ! ?z = ?a"
    using first_exponent_finds[OF ai, of "[0..<256]"] assms by auto
  then have "apow ?z = apow i" using z assms by (simp add: gexp_nth)
  then have "?z = i" using apow_inj z assms by auto
  have pos: "0 < unat ?a" by (simp add: unat_gt_0)
  have lt: "unat ?a < 256" using unsigned_less[of ?a, where ?'a = nat] by simp
  have nth: "[1..<256] ! (unat ?a - 1) = unat ?a"
    using pos lt by (subst nth_upt) auto
  have "glog ! unat ?a = first_exponent (of_nat ([1..<256] ! (unat ?a - 1))) [0..<256]"
    unfolding glog_def using pos lt by (simp add: nth_Cons' del: nth_upt)
  also have "\<dots> = first_exponent ?a [0..<256]"
    unfolding nth by simp
  finally show ?thesis using \<open>?z = i\<close> by simp
qed

definition log :: "byte \<Rightarrow> nat" where
  "log a = glog ! unat a"

lemma log_apow [simp]: "i < 255 \<Longrightarrow> log (apow i) = i"
  by (simp only: log_def glog_apow)

lemma apow_log: "a \<noteq> 0 \<Longrightarrow> apow (log a) = a \<and> log a < 255"
  using apow_surj[of a] by auto

lemma log_apow_mod: "log (apow n) = n mod 255"
  by (metis apow_mod log_apow mod_less_divisor zero_less_numeral)

section \<open>The field laws\<close>

lemma gmult_log: "gmult a b = (if a = 0 \<or> b = 0 then 0 else apow (log a + log b))"
proof (cases "a = 0 \<or> b = 0")
  case False
  then have "log a + log b < 511" using apow_log[of a] apow_log[of b] by auto
  then show ?thesis using False by (simp add: gmult_def log_def[symmetric] gexp_nth)
qed (auto simp: gmult_def)

lemma gmult_comm: "gmult a b = gmult b a"
  by (simp add: gmult_log add.commute)

lemma gmult_eq_0 [simp]: "gmult a b = 0 \<longleftrightarrow> a = 0 \<or> b = 0"
  by (simp add: gmult_log)

lemma gmult_assoc: "gmult (gmult a b) c = gmult a (gmult b c)"
proof (cases "a = 0 \<or> b = 0 \<or> c = 0")
  case False
  have "apow ((x mod 255) + y) = apow (x + y)" for x y
    by (metis apow_mod mod_add_left_eq)
  moreover have "apow (x + y mod 255) = apow (x + y)" for x y
    by (metis apow_mod mod_add_right_eq)
  ultimately show ?thesis
    using False by (simp add: gmult_log log_apow_mod add.assoc)
qed (auto simp: gmult_log)

lemma gmult_one [simp]: "gmult 1 a = a"
proof -
  have "log 1 = 0" using log_apow[of 0] by (simp del: log_apow)
  then show ?thesis using apow_log[of a] by (simp add: gmult_log)
qed

lemma gmult_funpow: "gmult (apow i) b = (xtime ^^ i) b"
proof (cases "b = 0")
  case False
  have "gmult (apow i) b = apow (i mod 255 + log b)"
    using False by (simp add: gmult_log log_apow_mod)
  also have "\<dots> = apow (i + log b)" by (metis apow_mod mod_add_left_eq)
  also have "\<dots> = (xtime ^^ i) b" using apow_log[OF False] by (simp only: apow_add)
  finally show ?thesis .
qed (simp add: gmult_log)

lemma gmult_xor: "gmult a (b XOR c) = gmult a b XOR gmult a c"
proof (cases "a = 0")
  case False
  then obtain i where "a = apow i" using apow_log[of a] by metis
  then show ?thesis by (simp only: gmult_funpow funpow_xtime_linear)
qed (simp add: gmult_log)

lemma ginv_log: "a \<noteq> 0 \<Longrightarrow> ginv a = apow (255 - log a)"
  by (simp add: ginv_def log_def[symmetric] gexp_nth)

lemma gmult_ginv: "a \<noteq> 0 \<Longrightarrow> gmult (ginv a) a = 1"
proof -
  assume a: "a \<noteq> 0"
  have "gmult (ginv a) a = (xtime ^^ (255 - log a)) (apow (log a))"
    using apow_log[OF a] by (simp add: ginv_log[OF a] gmult_funpow)
  also have "\<dots> = apow (255 - log a + log a)" by (simp only: apow_add)
  finally show ?thesis using apow_log[OF a] apow_255 by simp
qed

section \<open>The field as a type\<close>

text \<open>
  \<open>gf256\<close> is a copy of the byte type whose addition is the source's \<open>^\<close> and whose
  multiplication and inverse are gmult and ginv. As an instance of \<open>field\<close> it gives
  the proofs about the decoder the library's sums and field automation;
  \<open>gf\<close> is the abstraction function from bytes to it.
\<close>

typedef gf256 = "UNIV :: byte set"
  morphisms to_byte gf by auto

setup_lifting type_definition_gf256

instantiation gf256 :: field
begin

lift_definition zero_gf256 :: gf256 is 0 .
lift_definition one_gf256 :: gf256 is 1 .
lift_definition plus_gf256 :: "gf256 \<Rightarrow> gf256 \<Rightarrow> gf256" is "(XOR)" .
lift_definition minus_gf256 :: "gf256 \<Rightarrow> gf256 \<Rightarrow> gf256" is "(XOR)" .
lift_definition uminus_gf256 :: "gf256 \<Rightarrow> gf256" is "\<lambda>a. a" .
lift_definition times_gf256 :: "gf256 \<Rightarrow> gf256 \<Rightarrow> gf256" is gmult .
lift_definition inverse_gf256 :: "gf256 \<Rightarrow> gf256" is "\<lambda>a. if a = 0 then 0 else ginv a" .

definition divide_gf256 :: "gf256 \<Rightarrow> gf256 \<Rightarrow> gf256" where
  "divide_gf256 a b = a * inverse b"

instance
proof
  fix a b c :: gf256
  show "a + b + c = a + (b + c)" by transfer (rule xor.assoc)
  show "a + b = b + a" by transfer (rule xor.commute)
  show "0 + a = a" by transfer simp
  show "- a + a = 0" by transfer simp
  show "a - b = a + - b" by transfer simp
  show "a * b * c = a * (b * c)" by transfer (rule gmult_assoc)
  show "a * b = b * a" by transfer (rule gmult_comm)
  show "1 * a = a" by transfer simp
  show "(a + b) * c = a * c + b * c"
    by transfer (metis gmult_comm gmult_xor)
  show "0 \<noteq> (1 :: gf256)" by transfer simp
  show "a \<noteq> 0 \<Longrightarrow> inverse a * a = 1" by transfer (simp add: gmult_ginv)
  show "a div b = a * inverse b" by (rule divide_gf256_def)
  show "inverse (0 :: gf256) = 0" by transfer simp
qed

end

named_theorems gf_simps \<open>the byte operations read in the field\<close>

lemma gf_0 [gf_simps]: "gf 0 = 0" by (simp add: zero_gf256_def)
lemma gf_1 [gf_simps]: "gf 1 = 1" by (simp add: one_gf256_def)
lemma gf_xor [gf_simps]: "gf (a XOR b) = gf a + gf b"
  by (simp add: plus_gf256.abs_eq eq_onp_def)
lemma gf_gmult [gf_simps]: "gf (gmult a b) = gf a * gf b"
  by (simp add: times_gf256.abs_eq eq_onp_def)
lemma gf_ginv [gf_simps]: "a \<noteq> 0 \<Longrightarrow> gf (ginv a) = inverse (gf a)"
  by (simp add: inverse_gf256.abs_eq eq_onp_def)
lemma gf_eq_iff [simp]: "gf a = gf b \<longleftrightarrow> a = b"
  by (simp add: gf_inject)
lemma gf_eq_0_iff [simp]: "gf a = 0 \<longleftrightarrow> a = 0"
  by (simp flip: gf_0)

lemma gf_add_self [simp]: "(a :: gf256) + a = 0"
  by transfer simp
lemma gf_minus [simp]: "- (a :: gf256) = a"
  by transfer simp
lemma gf_diff [simp]: "(a :: gf256) - b = a + b"
  by transfer simp
lemma gf_add_eq_0: "(a :: gf256) + b = 0 \<longleftrightarrow> a = b"
  by (metis gf_minus add_eq_0_iff2)

text \<open>The generator, and the table gexp as its powers.\<close>

definition alpha :: gf256 where
  "alpha = gf (apow 1)"

lemma gf_apow [gf_simps]: "gf (apow i) = alpha ^ i"
proof (induction i)
  case (Suc i)
  have "apow (Suc i) = gmult (apow 1) (apow i)"
    by (simp only: gmult_funpow) (simp add: apow_Suc)
  then show ?case using Suc by (simp add: gf_simps alpha_def)
qed (simp add: gf_simps)

lemma gf_gexp [gf_simps]: "i < 511 \<Longrightarrow> gf (gexp ! i) = alpha ^ i"
  by (simp add: gexp_nth gf_apow)

lemma alpha_nonzero [simp]: "alpha \<noteq> 0"
  by (simp add: alpha_def)

lemma alpha_255: "alpha ^ 255 = 1"
  by (simp only: gf_apow[symmetric] apow_255 gf_1)

lemma alpha_pow_mod: "alpha ^ (n mod 255) = alpha ^ n"
  by (simp only: gf_apow[symmetric] apow_mod)

lemma alpha_pow_inj: "i < 255 \<Longrightarrow> j < 255 \<Longrightarrow> alpha ^ i = alpha ^ j \<Longrightarrow> i = j"
  by (simp only: gf_apow[symmetric] gf_eq_iff apow_inj)

lemma alpha_pow_surj: "x \<noteq> 0 \<Longrightarrow> \<exists>i < 255. alpha ^ i = x"
  using apow_surj[of "to_byte x"]
  by (metis gf_0 gf_apow to_byte_inverse)

section \<open>Properties\<close>

text \<open>
  C4: The tables filled in by initGaloisTables make gmult and ginv the multiplication and the
  inverse of a field whose addition is exclusive or: multiplication is associative and
  commutative with unit 1, distributes over exclusive or, has no zero divisors, and ginv gives
  the inverse of every non-zero byte.
\<close>

theorem gmult_field_laws:
  "gmult (gmult a b) c = gmult a (gmult b c) \<and> gmult a b = gmult b a \<and> gmult 1 a = a \<and>
   gmult a (b XOR c) = gmult a b XOR gmult a c \<and> (gmult a b = 0 \<longleftrightarrow> a = 0 \<or> b = 0) \<and>
   gmult (if a = 0 then 1 else ginv a) a = (if a = 0 then 0 else 1)"
proof (intro conjI)
  show "gmult (gmult a b) c = gmult a (gmult b c)" by (rule gmult_assoc)
  show "gmult a b = gmult b a" by (rule gmult_comm)
qed (auto simp: gmult_xor gmult_ginv)

end
