(* ===== verification/Locator.thy ===== *)
theory Locator
  imports Main
begin

text \<open>
  The algebra behind the Reed-Solomon decoder, over an arbitrary field: sequences generated by
  linear recurrences, the shortest-recurrence bound of Massey, power sums of distinct
  locators, and the error-value formula. Coefficients and sequences are functions on \<open>nat\<close>.
\<close>

section \<open>Recurrences\<close>

definition disc :: "(nat \<Rightarrow> 'a :: field) \<Rightarrow> nat \<Rightarrow> (nat \<Rightarrow> 'a) \<Rightarrow> nat \<Rightarrow> 'a" where
  "disc c L s n = (\<Sum>i\<le>L. c i * s (n - i))"

definition generates :: "(nat \<Rightarrow> 'a :: field) \<Rightarrow> nat \<Rightarrow> (nat \<Rightarrow> 'a) \<Rightarrow> nat \<Rightarrow> bool" where
  "generates c L s n \<longleftrightarrow> (\<forall>m. L \<le> m \<longrightarrow> m < n \<longrightarrow> disc c L s m = 0)"

lemma disc_extend:
  assumes "\<And>i. i > L \<Longrightarrow> c i = 0" "L \<le> M"
  shows "disc c M s n = disc c L s n"
  unfolding disc_def by (rule sum.mono_neutral_right) (use assms in auto)

lemma disc_minus:
  "disc (\<lambda>i. c i - d * D i) L s n = disc c L s n - d * disc D L s n"
  by (simp add: disc_def algebra_simps sum_subtractf sum_distrib_left)

lemma disc_shift:
  assumes "D 0 = 0" "\<And>i. D (Suc i) = c i" "n > 0"
  shows "disc D (Suc L) s n = disc c L s (n - 1)"
proof -
  have "disc D (Suc L) s n = (\<Sum>i\<le>L. D (Suc i) * s (n - Suc i))"
    unfolding disc_def by (subst sum.atMost_Suc_shift) (simp add: assms(1))
  then show ?thesis by (simp add: disc_def assms(2))
qed

text \<open>
  Massey's bound: a recurrence that fails first at position n forces every recurrence that
  does not fail there to be long.
\<close>

lemma massey_bound:
  assumes c: "c 0 = 1" "generates c L s n" "disc c L s n \<noteq> 0" "L \<le> n"
    and b: "b 0 = 1" "generates b M s (Suc n)"
  shows "n + 1 \<le> L + M"
proof (rule ccontr)
  assume "\<not> n + 1 \<le> L + M"
  then have LM: "L + M \<le> n" by simp
  define T where "T = (\<Sum>i\<le>M. \<Sum>j\<le>L. b i * c j * s (n - i - j))"
  have row: "(\<Sum>j\<le>L. b i * c j * s (n - i - j)) = b i * disc c L s (n - i)" for i
    by (simp add: disc_def sum_distrib_left mult.assoc)
  have "(\<Sum>i\<in>{..M} - {0}. b i * disc c L s (n - i)) = 0"
    by (rule sum.neutral) (use c(2) LM in \<open>auto simp: generates_def\<close>)
  then have T1: "T = disc c L s n"
    unfolding T_def row by (subst sum.remove[of _ 0]) (auto simp: b(1))
  have "T = (\<Sum>j\<le>L. \<Sum>i\<le>M. c j * (b i * s (n - j - i)))"
    unfolding T_def by (subst sum.swap) (simp add: algebra_simps diff_right_commute)
  also have "\<dots> = (\<Sum>j\<le>L. c j * disc b M s (n - j))"
    by (simp add: disc_def sum_distrib_left)
  also have "\<dots> = 0"
    by (rule sum.neutral) (use b(2) LM in \<open>auto simp: generates_def\<close>)
  finally show False using T1 c(3) by simp
qed

section \<open>The Berlekamp-Massey loop\<close>

text \<open>
  The invariant of the loop before position n: C is the current connection polynomial of
  length L, and D the correction, the previous polynomial shifted and scaled so that its
  discrepancy at n is 1.
\<close>

definition bm_inv :: "(nat \<Rightarrow> 'a :: field) \<Rightarrow> nat \<Rightarrow> nat \<Rightarrow> (nat \<Rightarrow> 'a) \<Rightarrow> (nat \<Rightarrow> 'a) \<Rightarrow> nat \<Rightarrow> bool" where
  "bm_inv s t n C D L \<longleftrightarrow>
     C 0 = 1 \<and> (\<forall>i>L. C i = 0) \<and> L \<le> n \<and> L \<le> t \<and> generates C L s n \<and>
     D 0 = 0 \<and> (\<forall>i>n + 1 - L. D i = 0) \<and>
     (0 < L \<longrightarrow> disc D (n + 1 - L) s n = 1 \<and>
        (\<forall>q. n + 1 - L \<le> q \<longrightarrow> q < n \<longrightarrow> disc D (n + 1 - L) s q = 0))"

lemma bm_inv_init:
  "bm_inv s t 0 (\<lambda>i. if i = 0 then 1 else 0) (\<lambda>i. if i = 1 then 1 else 0) 0"
  by (auto simp: bm_inv_def generates_def)

text \<open>The correction moves one place per turn when the length stays.\<close>

lemma bm_shift_D:
  assumes inv: "D 0 = 0" "\<forall>i>n + 1 - L. D i = 0" "L \<le> n"
      "0 < L \<longrightarrow> disc D (n + 1 - L) s n = 1 \<and>
         (\<forall>q. n + 1 - L \<le> q \<longrightarrow> q < n \<longrightarrow> disc D (n + 1 - L) s q = 0)"
    and D': "D' 0 = 0" "\<And>i. D' (Suc i) = D i"
  shows "(\<forall>i>Suc n + 1 - L. D' i = 0) \<and>
     (0 < L \<longrightarrow> disc D' (Suc n + 1 - L) s (Suc n) = 1 \<and>
        (\<forall>q. Suc n + 1 - L \<le> q \<longrightarrow> q < Suc n \<longrightarrow> disc D' (Suc n + 1 - L) s q = 0))"
proof (intro conjI allI impI)
  fix i assume "Suc n + 1 - L < i"
  then show "D' i = 0" using inv(2,3) D' by (cases i) auto
next
  have eq: "Suc n + 1 - L = Suc (n + 1 - L)" using inv(3) by simp
  assume L: "0 < L"
  show "disc D' (Suc n + 1 - L) s (Suc n) = 1"
    unfolding eq using inv(4) L by (subst disc_shift[OF D']) auto
  fix q assume q: "Suc n + 1 - L \<le> q" "q < Suc n"
  then show "disc D' (Suc n + 1 - L) s q = 0"
    unfolding eq using inv(3,4) L by (subst disc_shift[OF D']) auto
qed

lemma bm_inv_no_disc:
  assumes inv: "bm_inv s t n C D L" and d: "disc C L s n = 0"
    and D': "D' 0 = 0" "\<And>i. D' (Suc i) = D i"
  shows "bm_inv s t (Suc n) C D' L"
proof -
  have "generates C L s (Suc n)"
    using inv d by (auto simp: bm_inv_def generates_def less_Suc_eq)
  then show ?thesis
    using inv bm_shift_D[of D n L s D'] D' unfolding bm_inv_def by auto
qed

lemma bm_correction_degree:
  assumes "bm_inv s t n C D L"
  shows "D 0 = 0" "\<And>i. n + 1 - L < i \<Longrightarrow> D i = 0"
  using assms by (auto simp: bm_inv_def)

text \<open>The corrected polynomial generates one position more, at the length given.\<close>

lemma bm_corrected_generates:
  assumes inv: "bm_inv s t n C D L" and M: "L \<le> M" "n + 1 - L \<le> M"
  shows "generates (\<lambda>i. C i - disc C L s n * D i) M s (Suc n)"
  unfolding generates_def
proof (intro allI impI)
  fix m assume m: "M \<le> m" "m < Suc n"
  let ?d = "disc C L s n"
  have C: "disc C M s m = disc C L s m"
    by (rule disc_extend) (use inv M in \<open>auto simp: bm_inv_def\<close>)
  have D: "disc D M s m = disc D (n + 1 - L) s m"
    by (rule disc_extend) (use inv M in \<open>auto simp: bm_inv_def\<close>)
  have L: "0 < L" using M m by auto
  have "disc C L s m - ?d * disc D (n + 1 - L) s m = 0"
  proof (cases "m = n")
    case True
    then show ?thesis using inv L by (simp add: bm_inv_def)
  next
    case False
    then have "disc C L s m = 0" "disc D (n + 1 - L) s m = 0"
      using inv L M m by (auto simp: bm_inv_def generates_def)
    then show ?thesis by simp
  qed
  then show "disc (\<lambda>i. C i - ?d * D i) M s m = 0"
    by (simp add: disc_minus C D)
qed

lemma bm_inv_correct:
  assumes inv: "bm_inv s t n C D L" and L: "n < 2 * L"
    and D': "D' 0 = 0" "\<And>i. D' (Suc i) = D i"
  shows "bm_inv s t (Suc n) (\<lambda>i. C i - disc C L s n * D i) D' L"
proof -
  have "generates (\<lambda>i. C i - disc C L s n * D i) L s (Suc n)"
    by (rule bm_corrected_generates[OF inv]) (use L in auto)
  moreover have "\<forall>i>L. D i = 0" using inv L by (auto simp: bm_inv_def)
  ultimately show ?thesis
    using inv bm_shift_D[of D n L s D'] D' unfolding bm_inv_def by auto
qed

lemma bm_inv_lengthen:
  assumes inv: "bm_inv s t n C D L" and L: "2 * L \<le> n" and d: "disc C L s n \<noteq> 0"
    and b: "b 0 = 1" "generates b t s N" "n < N"
    and D': "D' 0 = 0" "\<And>i. D' (Suc i) = C i / disc C L s n"
  shows "bm_inv s t (Suc n) (\<lambda>i. C i - disc C L s n * D i) D' (n + 1 - L)"
proof -
  let ?d = "disc C L s n" and ?M = "n + 1 - L"
  have gen: "generates (\<lambda>i. C i - ?d * D i) ?M s (Suc n)"
    by (rule bm_corrected_generates[OF inv]) (use L in auto)
  have "n + 1 \<le> L + t"
    by (rule massey_bound[of C L s n b])
      (use inv d b in \<open>auto simp: bm_inv_def generates_def\<close>)
  then have t: "?M \<le> t" by simp
  have eq: "Suc n + 1 - ?M = Suc L" using L by simp
  have sh: "disc D' (Suc L) s q = disc C L s (q - 1) / ?d" if "0 < q" for q
    using disc_shift[OF D' that]
    by (simp add: disc_def sum_divide_distrib)
  have C: "C 0 = 1" "\<And>i. i > L \<Longrightarrow> C i = 0" "generates C L s n"
    using inv by (auto simp: bm_inv_def)
  have zero: "D' i = 0" if "i > Suc L" for i
    using that C(2) D' by (cases i) auto
  have zero': "\<And>i. i > ?M \<Longrightarrow> C i - ?d * D i = 0"
    using inv L by (auto simp: bm_inv_def)
  have first: "C 0 - ?d * D 0 = 1" using inv by (simp add: bm_inv_def)
  have one: "disc D' (Suc L) s (Suc n) = 1"
    using sh[of "Suc n"] d by simp
  have nil: "disc D' (Suc L) s q = 0" if "Suc L \<le> q" "q < Suc n" for q
    using sh[of q] C(3) that by (auto simp: generates_def)
  show ?thesis
    unfolding bm_inv_def eq using gen t zero zero' first one nil D'(1) by auto
qed

section \<open>Evaluation and deflation\<close>

definition ev :: "(nat \<Rightarrow> 'a :: field) \<Rightarrow> nat \<Rightarrow> 'a \<Rightarrow> 'a" where
  "ev c n x = (\<Sum>i\<le>n. c i * x ^ i)"

text \<open>The quotient of c by 1 - X z, coefficient by coefficient from the constant term up.\<close>

definition deflate :: "(nat \<Rightarrow> 'a :: field) \<Rightarrow> 'a \<Rightarrow> nat \<Rightarrow> 'a" where
  "deflate c X i = (\<Sum>j\<le>i. c j * X ^ (i - j))"

lemma deflate_0 [simp]: "deflate c X 0 = c 0"
  by (simp add: deflate_def)

lemma deflate_Suc: "deflate c X (Suc i) = c (Suc i) + X * deflate c X i"
  by (simp add: deflate_def sum_distrib_left Suc_diff_le mult.left_commute algebra_simps)

lemma deflate_ev:
  assumes "X * a = 1"
  shows "deflate c X n * a ^ n = ev c n a"
proof -
  have "X ^ (n - j) * a ^ n = a ^ j" if "j \<le> n" for j
  proof -
    have "X ^ (n - j) * a ^ n = X ^ (n - j) * (a ^ (n - j) * a ^ j)"
      using that by (simp flip: power_add)
    also have "\<dots> = (X * a) ^ (n - j) * a ^ j" by (simp add: power_mult_distrib mult.assoc)
    finally show ?thesis by (simp add: assms)
  qed
  then show ?thesis
    by (simp add: deflate_def ev_def sum_distrib_right mult.assoc)
qed

lemma deflate_vanishes:
  assumes "X * a = 1" "ev c n a = 0" "\<And>i. i > n \<Longrightarrow> c i = 0" "n \<le> i"
  shows "deflate c X i = 0"
  using assms(4)
proof (induction rule: dec_induct)
  case base
  have "a \<noteq> 0" using assms(1) by auto
  then show ?case using deflate_ev[OF assms(1), of c n] assms(2) by simp
next
  case (step i)
  then show ?case using assms(3) by (simp add: deflate_Suc)
qed

lemma ev_deflate_rest:
  "ev c n x = (1 - X * x) * ev (deflate c X) n x + X * deflate c X n * x ^ Suc n"
proof (induction n)
  case (Suc n)
  have c: "c (Suc n) = deflate c X (Suc n) - X * deflate c X n"
    by (simp add: deflate_Suc)
  have step: "ev b (Suc n) x = ev b n x + b (Suc n) * x ^ Suc n" for b
    by (simp add: ev_def)
  show ?case unfolding step Suc c by (simp add: algebra_simps)
qed (simp add: ev_def algebra_simps)

lemma ev_deflate:
  "deflate c X n = 0 \<Longrightarrow> ev c n x = (1 - X * x) * ev (deflate c X) n x"
  by (subst ev_deflate_rest[of _ _ _ X]) simp

lemma ev_extend:
  assumes "\<And>i. i > n \<Longrightarrow> c i = 0" "n \<le> m"
  shows "ev c m x = ev c n x"
  unfolding ev_def by (rule sum.mono_neutral_right) (use assms in auto)

lemma root_bound:
  assumes "c 0 = 1" "\<And>i. i > n \<Longrightarrow> c i = 0" "finite R" "\<And>x. x \<in> R \<Longrightarrow> ev c n x = 0"
  shows "card R \<le> n"
  using assms
proof (induction n arbitrary: c R)
  case 0
  then have "R = {}" by (auto simp: ev_def)
  then show ?case by simp
next
  case (Suc n)
  show ?case
  proof (cases "R = {}")
    case False
    then obtain a where a: "a \<in> R" by blast
    have "ev c (Suc n) 0 = 1"
      unfolding ev_def by (subst sum.atMost_Suc_shift) (simp add: Suc.prems(1))
    then have a0: "a \<noteq> 0" using Suc.prems(4)[OF a] by auto
    let ?X = "inverse a"
    let ?q = "deflate c ?X"
    have Xa: "?X * a = 1" using a0 by simp
    have van: "?q i = 0" if "Suc n \<le> i" for i
      using deflate_vanishes[OF Xa Suc.prems(4)[OF a] Suc.prems(2) that] .
    have "ev ?q n x = 0" if "x \<in> R - {a}" for x
    proof -
      have "(1 - ?X * x) * ev ?q (Suc n) x = 0"
        using ev_deflate[OF van[of "Suc n"], of x] Suc.prems(4) that by auto
      moreover have "1 - ?X * x \<noteq> 0"
        using that a0 by (auto simp: field_simps)
      ultimately have "ev ?q (Suc n) x = 0" by simp
      then show ?thesis using ev_extend[of n ?q "Suc n" x] van by simp
    qed
    then have "card (R - {a}) \<le> n"
      by (intro Suc.IH[of ?q]) (use Suc.prems van in auto)
    then show ?thesis using a Suc.prems(3) by simp
  qed simp
qed

section \<open>Power sums of distinct locators\<close>

lemma power_sums_zero:
  assumes "finite K" "inj_on X K" "\<And>m. m < card K \<Longrightarrow> (\<Sum>k\<in>K. v k * X k ^ m) = 0"
  shows "\<forall>k\<in>K. v k = (0 :: 'a :: field)"
  using assms
proof (induction K arbitrary: v rule: finite_induct)
  case (insert a K)
  let ?w = "\<lambda>k. v k * (X k - X a)"
  have "(\<Sum>k\<in>K. ?w k * X k ^ m) = 0" if m: "m < card K" for m
  proof -
    have "(\<Sum>k\<in>insert a K. v k * X k ^ Suc m) - X a * (\<Sum>k\<in>insert a K. v k * X k ^ m) = 0"
      using insert.prems(2)[of m] insert.prems(2)[of "Suc m"] insert.hyps m by simp
    also have "(\<Sum>k\<in>insert a K. v k * X k ^ Suc m) - X a * (\<Sum>k\<in>insert a K. v k * X k ^ m)
        = (\<Sum>k\<in>K. ?w k * X k ^ m)"
      using insert.hyps
      by (simp add: sum_distrib_left algebra_simps flip: sum_subtractf)
    finally show ?thesis .
  qed
  then have "\<forall>k\<in>K. ?w k = 0"
    using insert.IH[of ?w] insert.prems(1) by auto
  then have K: "\<forall>k\<in>K. v k = 0"
    using insert.prems(1) insert.hyps(2) by (auto simp: inj_on_def)
  moreover have "v a = 0"
    using insert.prems(2)[of 0] insert.hyps K by simp
  ultimately show ?case by simp
qed simp

definition power_sums :: "'k set \<Rightarrow> ('k \<Rightarrow> 'a :: field) \<Rightarrow> ('k \<Rightarrow> 'a) \<Rightarrow> nat \<Rightarrow> 'a" where
  "power_sums K e X n = (\<Sum>k\<in>K. e k * X k ^ n)"

lemma disc_power_sums:
  assumes "t \<le> m"
  shows "disc c t (power_sums K e X) m = (\<Sum>k\<in>K. e k * deflate c (X k) t * X k ^ (m - t))"
proof -
  have "disc c t (power_sums K e X) m = (\<Sum>k\<in>K. \<Sum>i\<le>t. c i * (e k * X k ^ (m - i)))"
    unfolding disc_def power_sums_def sum_distrib_left by (rule sum.swap)
  also have "\<dots> = (\<Sum>k\<in>K. e k * deflate c (X k) t * X k ^ (m - t))"
  proof (rule sum.cong[OF refl])
    fix k
    have pow: "X k ^ (m - i) = X k ^ (t - i) * X k ^ (m - t)" if "i \<le> t" for i
      using that assms by (simp flip: power_add)
    have "c i * (e k * X k ^ (m - i)) = e k * (c i * X k ^ (t - i)) * X k ^ (m - t)"
      if "i \<le> t" for i
      unfolding pow[OF that] by (simp only: mult_ac)
    then have "(\<Sum>i\<le>t. c i * (e k * X k ^ (m - i))) =
        (\<Sum>i\<le>t. e k * (c i * X k ^ (t - i)) * X k ^ (m - t))"
      by (intro sum.cong[OF refl]) simp
    then show "(\<Sum>i\<le>t. c i * (e k * X k ^ (m - i))) = e k * deflate c (X k) t * X k ^ (m - t)"
      by (simp only: deflate_def sum_distrib_left sum_distrib_right)
  qed
  finally show ?thesis .
qed

text \<open>The locator polynomial, the product of the factors 1 - X z, generates the power sums.\<close>

lemma locator_exists:
  assumes "finite K"
  shows "\<exists>c. c 0 = 1 \<and> (\<forall>i>card K. c i = 0) \<and> (\<forall>k\<in>K. deflate c (X k) (card K) = (0 :: 'a :: field))"
  using assms
proof (induction K rule: finite_induct)
  case empty
  show ?case by (rule exI[of _ "\<lambda>i. if i = 0 then 1 else 0"]) auto
next
  case (insert a K)
  then obtain c where c: "c 0 = 1" "\<forall>i>card K. c i = 0" "\<forall>k\<in>K. deflate c (X k) (card K) = 0"
    by blast
  define b where "b i = (if i = 0 then c 0 else c i - X a * c (i - 1))" for i
  have b: "deflate b Y (Suc i) = deflate c Y (Suc i) - X a * deflate c Y i" for Y i
  proof (induction i)
    case (Suc i)
    have "deflate b Y (Suc (Suc i)) = b (Suc (Suc i)) + Y * deflate b Y (Suc i)"
      by (rule deflate_Suc)
    also have "\<dots> = c (Suc (Suc i)) - X a * c (Suc i) +
        Y * (deflate c Y (Suc i) - X a * deflate c Y i)"
      by (simp only: Suc) (simp add: b_def)
    finally show ?case by (simp add: deflate_Suc algebra_simps)
  qed (simp add: deflate_Suc b_def algebra_simps)
  have "deflate b (X k) (Suc (card K)) = 0" if "k \<in> insert a K" for k
    using that c(2,3) insert.hyps unfolding b by (auto simp: deflate_Suc[of c])
  moreover have "b 0 = 1" "\<forall>i>card (insert a K). b i = 0"
    using c insert.hyps by (auto simp: b_def)
  ultimately show ?case using insert.hyps by (intro exI[of _ b]) simp
qed

section \<open>The decoder's polynomials\<close>

text \<open>The error evaluator: the product of a connection polynomial and the sequence.\<close>

definition evaluator :: "(nat \<Rightarrow> 'a :: field) \<Rightarrow> (nat \<Rightarrow> 'a) \<Rightarrow> nat \<Rightarrow> 'a" where
  "evaluator C s i = (\<Sum>j\<le>i. C j * s (i - j))"

text \<open>
  C is a connection polynomial of at most t terms that generates the first N members of the
  sequence, N being at least twice t.
\<close>

definition connection :: "(nat \<Rightarrow> 'a :: field) \<Rightarrow> nat \<Rightarrow> (nat \<Rightarrow> 'a) \<Rightarrow> nat \<Rightarrow> bool" where
  "connection s t C N \<longleftrightarrow>
     C 0 = 1 \<and> (\<forall>i>t. C i = 0) \<and> (\<forall>m. t \<le> m \<longrightarrow> m < N \<longrightarrow> disc C t s m = 0) \<and> 2 * t \<le> N"

lemma bm_inv_connection: "bm_inv s t N C D L \<Longrightarrow> 2 * t \<le> N \<Longrightarrow> connection s t C N"
  using disc_extend[of L C t s] unfolding bm_inv_def connection_def generates_def by auto

text \<open>K indexes the errors, e their values and X their locators.\<close>

locale error_locators =
  fixes K :: "'k set" and e X :: "'k \<Rightarrow> 'a :: field"
  assumes fin: "finite K"
    and inj: "inj_on X K"
    and e_nonzero: "k \<in> K \<Longrightarrow> e k \<noteq> 0"
    and X_nonzero: "k \<in> K \<Longrightarrow> X k \<noteq> 0"
begin

lemma locator_generates:
  "\<exists>b. b 0 = 1 \<and> generates b (card K) (power_sums K e X) N"
  using locator_exists[OF fin, of X] by (auto simp: generates_def disc_power_sums)

lemma deflate_locator:
  assumes C: "connection (power_sums K e X) (card K) C N" and k: "k \<in> K"
  shows "deflate C (X k) (card K) = 0"
proof -
  have "(\<Sum>k\<in>K. (e k * deflate C (X k) (card K)) * X k ^ m) = 0" if "m < card K" for m
  proof -
    have "disc C (card K) (power_sums K e X) (card K + m) = 0"
      using C that by (simp add: connection_def)
    then show ?thesis by (simp add: disc_power_sums)
  qed
  then have "\<forall>k\<in>K. e k * deflate C (X k) (card K) = 0" by (rule power_sums_zero[OF fin inj])
  then show ?thesis using e_nonzero k by auto
qed

lemma root_at_locator:
  assumes "connection (power_sums K e X) (card K) C N" "k \<in> K"
  shows "ev C (card K) (inverse (X k)) = 0"
  using deflate_ev[of "X k" "inverse (X k)" C "card K"] deflate_locator[OF assms] X_nonzero assms(2)
  by simp

lemma card_roots: "card ((\<lambda>k. inverse (X k)) ` K) = card K"
  using inj by (intro card_image) (auto simp: inj_on_def)

lemma roots_are_locators:
  assumes C: "connection (power_sums K e X) (card K) C N"
  shows "ev C (card K) x = 0 \<longleftrightarrow> (\<exists>k\<in>K. x = inverse (X k))"
proof
  assume x: "ev C (card K) x = 0"
  let ?R = "(\<lambda>k. inverse (X k)) ` K"
  show "\<exists>k\<in>K. x = inverse (X k)"
  proof (rule ccontr)
    assume "\<not> ?thesis"
    then have "x \<notin> ?R" by auto
    moreover have "card (insert x ?R) \<le> card K"
      by (rule root_bound[of C])
        (use C fin x root_at_locator[OF C] in \<open>auto simp: connection_def\<close>)
    ultimately show False using fin card_roots by simp
  qed
qed (use root_at_locator[OF C] in auto)

lemma quotient_vanishes:
  assumes C: "connection (power_sums K e X) (card K) C N" and k: "k \<in> K" and i: "card K \<le> i"
  shows "deflate C (X k) i = 0"
  by (rule deflate_vanishes[of _ "inverse (X k)" _ "card K"])
    (use root_at_locator[OF C k] C X_nonzero[OF k] i in \<open>auto simp: connection_def\<close>)

lemma quotient_other:
  assumes C: "connection (power_sums K e X) (card K) C N" and k: "k \<in> K" "j \<in> K" "j \<noteq> k"
  shows "ev (deflate C (X k)) (card K) (inverse (X j)) = 0"
proof -
  have "(1 - X k * inverse (X j)) * ev (deflate C (X k)) (card K) (inverse (X j)) = 0"
    using ev_deflate[OF deflate_locator[OF C k(1)], of "inverse (X j)"] root_at_locator[OF C k(2)]
    by simp
  moreover have "1 - X k * inverse (X j) \<noteq> 0"
    using k inj X_nonzero[OF k(2)] by (auto simp: inj_on_def field_simps)
  ultimately show ?thesis by simp
qed

lemma quotient_self:
  assumes C: "connection (power_sums K e X) (card K) C N" and k: "k \<in> K"
  shows "ev (deflate C (X k)) (card K) (inverse (X k)) \<noteq> 0"
proof
  assume z: "ev (deflate C (X k)) (card K) (inverse (X k)) = 0"
  let ?R = "(\<lambda>k. inverse (X k)) ` K" and ?q = "deflate C (X k)"
  obtain u where u: "card K = Suc u" using k fin by (cases "card K") auto
  have "ev ?q (card K) x = 0" if "x \<in> ?R" for x
    using that z quotient_other[OF C k] by (cases "x = inverse (X k)") auto
  then have "ev ?q u x = 0" if "x \<in> ?R" for x
    using that ev_extend[of u ?q "card K" x] quotient_vanishes[OF C k] u by (simp add: Suc_le_eq)
  then have "card ?R \<le> u"
    by (intro root_bound[of ?q])
      (use C fin quotient_vanishes[OF C k] u in \<open>auto simp: connection_def\<close>)
  then show False using card_roots u by simp
qed

lemma evaluator_quotients:
  "evaluator C (power_sums K e X) i = (\<Sum>k\<in>K. e k * deflate C (X k) i)"
  unfolding evaluator_def power_sums_def deflate_def sum_distrib_left
  by (subst sum.swap) (simp add: algebra_simps)

lemma evaluator_vanishes:
  assumes "connection (power_sums K e X) (card K) C N" "card K \<le> i"
  shows "evaluator C (power_sums K e X) i = 0"
  unfolding evaluator_quotients
  by (rule sum.neutral) (use quotient_vanishes[OF assms(1)] assms(2) in simp)

lemma evaluator_at_locator:
  assumes C: "connection (power_sums K e X) (card K) C N" and k: "k \<in> K"
  shows "ev (evaluator C (power_sums K e X)) (card K) (inverse (X k)) =
           e k * ev (deflate C (X k)) (card K) (inverse (X k))"
proof -
  have "ev (evaluator C (power_sums K e X)) (card K) (inverse (X k)) =
      (\<Sum>j\<in>K. e j * ev (deflate C (X j)) (card K) (inverse (X k)))"
    unfolding ev_def evaluator_quotients sum_distrib_left sum_distrib_right
    by (subst sum.swap) (simp add: algebra_simps)
  also have "\<dots> = e k * ev (deflate C (X k)) (card K) (inverse (X k))"
  proof -
    have "(\<Sum>j\<in>K - {k}. e j * ev (deflate C (X j)) (card K) (inverse (X k))) = 0"
      by (rule sum.neutral) (use k quotient_other[OF C] in auto)
    then show ?thesis using k fin by (subst sum.remove[of _ k]) auto
  qed
  finally show ?thesis .
qed

end

section \<open>Characteristic two\<close>

lemma char2_partial_sums:
  fixes u :: "nat \<Rightarrow> 'a :: field"
  assumes "\<And>x :: 'a. x + x = 0"
  shows "(\<Sum>i<2 * m. \<Sum>j\<le>i. u j) = (\<Sum>j | j < 2 * m \<and> odd j. u j)"
proof (induction m)
  case (Suc m)
  have "{j. j < 2 * Suc m \<and> odd j} = insert (Suc (2 * m)) {j. j < 2 * m \<and> odd j}"
    by (auto simp: less_Suc_eq)
  moreover have "(\<Sum>j\<le>2 * m. u j) + (\<Sum>j\<le>Suc (2 * m). u j) = u (Suc (2 * m))"
    using assms[of "\<Sum>j\<le>2 * m. u j"] by (simp add: add.assoc[symmetric])
  ultimately show ?case using Suc by (simp add: algebra_simps)
qed simp

lemma char2_even_odd:
  fixes u :: "nat \<Rightarrow> 'a :: field"
  assumes "\<And>x :: 'a. x + x = 0" "(\<Sum>j<n. u j) = 0"
  shows "(\<Sum>j | j < n \<and> odd j. u j) = (\<Sum>j | j < n \<and> even j. u j)"
proof -
  have "{..<n} = {j. j < n \<and> odd j} \<union> {j. j < n \<and> even j}" by auto
  then have "(\<Sum>j | j < n \<and> odd j. u j) + (\<Sum>j | j < n \<and> even j. u j) = 0"
    using assms(2) by (subst sum.union_disjoint[symmetric]) auto
  moreover have "x = y" if "x + y = 0" for x y :: 'a
    using that assms(1)[of y] by (metis add_right_cancel)
  ultimately show ?thesis by blast
qed

text \<open>The derivative the decoder divides by, as the sum of the terms of even degree.\<close>

lemma char2_quotient_even:
  fixes C :: "nat \<Rightarrow> 'a :: field"
  assumes char2: "\<And>x :: 'a. x + x = 0" and Xa: "X * a = 1"
    and deg: "\<And>i. i > t \<Longrightarrow> C i = 0" and root: "ev C t a = 0" and m: "t < 2 * m"
  shows "ev (deflate C X) t a = (\<Sum>j | j < 2 * m \<and> even j. C j * a ^ j)"
proof -
  let ?u = "\<lambda>j. C j * a ^ j"
  have "deflate C X i * a ^ i = (\<Sum>j\<le>i. ?u j)" for i
    using deflate_ev[OF Xa] by (simp add: ev_def)
  moreover have "ev (deflate C X) t a = (\<Sum>i<2 * m. deflate C X i * a ^ i)"
    unfolding ev_def
    by (rule sum.mono_neutral_left) (use deflate_vanishes[OF Xa root deg] m in auto)
  ultimately have "ev (deflate C X) t a = (\<Sum>i<2 * m. \<Sum>j\<le>i. ?u j)" by simp
  also have "\<dots> = (\<Sum>j | j < 2 * m \<and> odd j. ?u j)" by (rule char2_partial_sums[OF char2])
  also have "\<dots> = (\<Sum>j | j < 2 * m \<and> even j. ?u j)"
  proof (rule char2_even_odd[OF char2])
    have "(\<Sum>j<2 * m. ?u j) = ev C t a"
      unfolding ev_def by (rule sum.mono_neutral_right) (use deg m in auto)
    then show "(\<Sum>j<2 * m. ?u j) = 0" using root by simp
  qed
  finally show ?thesis .
qed

end
