(* ===== verification/ReedSolomon.thy ===== *)
theory ReedSolomon
  imports Galois Locator
begin

text \<open>
  The class ReedSolomon of reedsolomon.js: the object with its fields, the encoder, and the
  decoder (syndromes, Berlekamp-Massey, root search, error values).
  Logging is left out: the logger field is null and the client never sets it.
\<close>

section \<open>The object\<close>

datatype uncorrected_reason = TooManyErrors | CorrectionsOutOfScope | CouldNotIdentifyErrors

text \<open>Fields the constructor does not assign are undefined at first: options, or empty.\<close>

record reed_solomon =
  n_ec_bytes :: nat
  n_degree_max :: nat
  syndroms :: "byte list"
  gen_poly :: "byte list option"
  bytes_in :: "byte list"
  bytes_out :: "byte list"
  corrected :: bool
  uncorrected_reason :: "uncorrected_reason option"
  n_errors :: "nat option"
  error_locs :: "nat list"
  psi :: "byte list"
  omega :: "byte list"

definition new_ReedSolomon :: "nat \<Rightarrow> reed_solomon" where
  "new_ReedSolomon n =
     \<lparr>n_ec_bytes = n, n_degree_max = 2 * n, syndroms = [], gen_poly = None,
      bytes_in = [], bytes_out = [], corrected = False, uncorrected_reason = None,
      n_errors = None, error_locs = [], psi = [], omega = []\<rparr>"

text \<open>
  A slot read past the end of an array is undefined; gmult of it is 0 or undefined, and the
  only use the source makes of such a product is as an operand of \<open>^\<close>, where undefined
  counts as 0.
\<close>

definition at :: "byte list \<Rightarrow> nat \<Rightarrow> byte" where
  "at p i = (if i < length p then p ! i else 0)"

section \<open>Polynomials\<close>

definition zeroPoly :: "nat \<Rightarrow> byte list" where
  "zeroPoly d = replicate d 0"

definition copyPoly :: "nat \<Rightarrow> byte list \<Rightarrow> byte list" where
  "copyPoly d src = map (at src) [0..<d]"

definition mulZPoly :: "nat \<Rightarrow> byte list \<Rightarrow> byte list" where
  "mulZPoly d poly = (fold (\<lambda>i p. p[i := p ! (i - 1)]) (rev [1..<d]) poly)[0 := 0]"

text \<open>One turn of the outer loop of multPolys, for the coefficient i of p1.\<close>

definition multPolys_row :: "nat \<Rightarrow> byte list \<Rightarrow> byte list \<Rightarrow> nat \<Rightarrow> byte list" where
  "multPolys_row d p1 p2 i =
     (let scaled = map (\<lambda>j. gmult (at p2 j) (at p1 i)) [0..<d] @ replicate d 0;
          shifted = fold (\<lambda>j t. t[j := t ! (j - i)]) (rev [i..<2 * d]) scaled
      in fold (\<lambda>j t. t[j := 0]) [0..<i] shifted)"

definition multPolys :: "nat \<Rightarrow> byte list \<Rightarrow> byte list \<Rightarrow> byte list" where
  "multPolys d p1 p2 =
     fold (\<lambda>i dst. map2 (XOR) dst (multPolys_row d p1 p2 i)) [0..<d] (replicate (2 * d) 0)"

definition computeDiscrepancy :: "byte list \<Rightarrow> byte list \<Rightarrow> nat \<Rightarrow> nat \<Rightarrow> byte" where
  "computeDiscrepancy lam S L n =
     fold (\<lambda>i sum. sum XOR gmult (at lam i) (at S (n - i))) [0..<L + 1] 0"

section \<open>Encoding\<close>

definition genPoly_step :: "nat \<Rightarrow> nat \<Rightarrow> byte list \<times> byte list \<Rightarrow> byte list \<times> byte list" where
  "genPoly_step d i = (\<lambda>(genpoly, tp1).
     let tp = (zeroPoly d)[0 := gexp ! i, 1 := 1];
         genpoly' = multPolys d tp tp1
     in (genpoly', copyPoly d genpoly'))"

definition genPoly :: "nat \<Rightarrow> nat \<Rightarrow> byte list" where
  "genPoly d nbytes = fst (fold (genPoly_step d) [0..<nbytes] ([], (zeroPoly d)[0 := 1]))"

definition lfsr_shift :: "nat \<Rightarrow> byte list \<Rightarrow> byte \<Rightarrow> byte list \<Rightarrow> byte list" where
  "lfsr_shift n g m LFSR =
     (let dbyte = m XOR LFSR ! (n - 1);
          LFSR' = fold (\<lambda>j r. r[j := r ! (j - 1) XOR gmult (at g j) dbyte]) (rev [1..<n]) LFSR
      in LFSR'[0 := gmult (at g 0) dbyte])"

definition encode :: "reed_solomon \<Rightarrow> byte list \<Rightarrow> reed_solomon \<times> byte list" where
  "encode rs msg =
     (let n = n_ec_bytes rs;
          g = (case gen_poly rs of None \<Rightarrow> genPoly (n_degree_max rs) n | Some g \<Rightarrow> g);
          LFSR = fold (lfsr_shift n g) msg (replicate (n + 1) 0);
          parity = map (\<lambda>i. LFSR ! i) (rev [0..<n])
      in (rs\<lparr>gen_poly := Some g\<rparr>, parity))"

section \<open>Decoding\<close>

definition syndrome :: "byte list \<Rightarrow> nat \<Rightarrow> byte" where
  "syndrome bs j = fold (\<lambda>b sum. b XOR gmult (gexp ! j) sum) bs 0"

definition calculateSyndroms :: "reed_solomon \<Rightarrow> reed_solomon \<times> nat" where
  "calculateSyndroms rs =
     (let ss = map (syndrome (bytes_in rs)) [0..<n_ec_bytes rs]
      in (rs\<lparr>syndroms := ss\<rparr>, length (filter (\<lambda>s. s > 0) ss)))"

text \<open>The local variables of berlekampMassey that live across turns of its loop.\<close>

record bm_state =
  bm_psi :: "byte list"
  bm_D :: "byte list"
  bm_k :: int
  bm_L :: int

definition bm_step :: "nat \<Rightarrow> byte list \<Rightarrow> nat \<Rightarrow> bm_state \<Rightarrow> bm_state" where
  "bm_step d S n s =
     (let dis = computeDiscrepancy (bm_psi s) S (nat (bm_L s)) n;
          s' = (if dis \<noteq> 0 then
                  let psi2 = map (\<lambda>i. at (bm_psi s) i XOR gmult dis (at (bm_D s) i)) [0..<d];
                      s1 = (if bm_L s < int n - bm_k s then
                              s\<lparr>bm_k := int n - bm_L s,
                                bm_D := map (\<lambda>i. gmult (at (bm_psi s) i) (ginv dis)) [0..<d],
                                bm_L := int n - bm_k s\<rparr>
                            else s)
                  in s1\<lparr>bm_psi := copyPoly d psi2\<rparr>
                else s)
      in s'\<lparr>bm_D := mulZPoly d (bm_D s')\<rparr>)"

definition berlekampMassey :: "reed_solomon \<Rightarrow> reed_solomon" where
  "berlekampMassey rs =
     (let d = n_degree_max rs;
          gamma = (zeroPoly d)[0 := 1];
          s = fold (bm_step d (syndroms rs)) [0..<n_ec_bytes rs]
                \<lparr>bm_psi = copyPoly d gamma, bm_D = mulZPoly d (copyPoly d gamma),
                 bm_k = -1, bm_L = 0\<rparr>;
          om = multPolys d (bm_psi s) (syndroms rs)
      in rs\<lparr>psi := bm_psi s,
            omega := map (\<lambda>i. if i < n_ec_bytes rs then at om i else 0) [0..<d]\<rparr>)"

definition root_sum :: "reed_solomon \<Rightarrow> nat \<Rightarrow> byte" where
  "root_sum rs r =
     fold (\<lambda>k sum. sum XOR gmult (gexp ! ((k * r) mod 255)) (at (psi rs) k))
       [0..<n_ec_bytes rs + 1] 0"

definition findRoots :: "reed_solomon \<Rightarrow> reed_solomon" where
  "findRoots rs =
     (let locs = map (\<lambda>r. 255 - r) (filter (\<lambda>r. root_sum rs r = 0) [1..<256])
      in rs\<lparr>n_errors := Some (length locs), error_locs := locs\<rparr>)"

text \<open>The error value at location i, and the correction of one byte.\<close>

definition error_value :: "reed_solomon \<Rightarrow> nat \<Rightarrow> byte" where
  "error_value rs i =
     (let num = fold (\<lambda>j num. num XOR gmult (at (omega rs) j) (gexp ! (((255 - i) * j) mod 255)))
                  [0..<n_degree_max rs] 0;
          denom = fold (\<lambda>j den. den XOR gmult (at (psi rs) j) (gexp ! (((255 - i) * j) mod 255)))
                  (filter even [0..<n_degree_max rs]) 0
      in gmult num (ginv denom))"

definition correct_byte :: "reed_solomon \<Rightarrow> nat \<Rightarrow> byte list \<Rightarrow> byte list" where
  "correct_byte rs i out =
     (let p = length out - i - 1 in out[p := out ! p XOR error_value rs i])"

definition correctErrors :: "reed_solomon \<Rightarrow> reed_solomon" where
  "correctErrors rs0 =
     (let rs = (findRoots (berlekampMassey rs0))\<lparr>corrected := False\<rparr>;
          n = length (error_locs rs)
      in if 2 * n > n_ec_bytes rs then rs\<lparr>uncorrected_reason := Some TooManyErrors\<rparr>
         else if \<exists>e \<in> set (error_locs rs). e \<ge> length (bytes_in rs)
         then rs\<lparr>uncorrected_reason := Some CorrectionsOutOfScope\<rparr>
         else if n = 0 then rs\<lparr>uncorrected_reason := Some CouldNotIdentifyErrors\<rparr>
         else rs\<lparr>bytes_out := fold (correct_byte rs) (error_locs rs) (bytes_out rs),
                 corrected := True\<rparr>)"

definition decode :: "reed_solomon \<Rightarrow> byte list \<Rightarrow> reed_solomon \<times> byte list" where
  "decode rs0 bs =
     (let rs1 = rs0\<lparr>bytes_in := bs, bytes_out := bs\<rparr>;
          (rs2, n_err) = calculateSyndroms rs1;
          rs = (if n_err > 0 then correctErrors rs2 else rs2\<lparr>corrected := True\<rparr>)
      in (rs, js_slice (bytes_out rs) 0 (int (length (bytes_out rs)) - int (n_ec_bytes rs))))"

section \<open>Arrays read in the field\<close>

definition co :: "byte list \<Rightarrow> nat \<Rightarrow> gf256" where
  "co p i = gf (at p i)"

lemma co_beyond [simp]: "length p \<le> i \<Longrightarrow> co p i = 0"
  by (simp add: co_def at_def gf_simps)

lemma co_nth: "i < length p \<Longrightarrow> co p i = gf (p ! i)"
  by (simp add: co_def at_def)

lemma gf_fold_xor:
  "gf (fold (\<lambda>j a. a XOR f j) js b) = gf b + (\<Sum>j\<leftarrow>js. gf (f j))"
  by (induction js arbitrary: b) (simp_all add: gf_simps add.assoc)

lemma gf_xor_loop:
  "gf (fold (\<lambda>j a. a XOR f j) [0..<n] 0) = (\<Sum>j<n. gf (f j))"
  unfolding gf_fold_xor
  by (simp add: gf_0 interv_sum_list_conv_sum_set_nat atLeast0LessThan)

lemma gf_xor_filter_loop:
  "gf (fold (\<lambda>j a. a XOR f j) (filter P [0..<n]) 0) = (\<Sum>j | j < n \<and> P j. gf (f j))"
proof -
  have "(\<Sum>j\<leftarrow>filter P [0..<n]. gf (f j)) = (\<Sum>j\<in>set (filter P [0..<n]). gf (f j))"
    by (rule sum_list_distinct_conv_sum_set) simp
  moreover have "set (filter P [0..<n]) = {j. j < n \<and> P j}" by auto
  ultimately show ?thesis unfolding gf_fold_xor by (simp add: gf_0)
qed

lemma length_zeroPoly [simp]: "length (zeroPoly d) = d"
  by (simp add: zeroPoly_def)

lemma length_copyPoly [simp]: "length (copyPoly d p) = d"
  by (simp add: copyPoly_def)

lemma length_mulZPoly [simp]: "length (mulZPoly d p) = length p"
  by (simp add: mulZPoly_def)

lemma co_zeroPoly [simp]: "co (zeroPoly d) i = 0"
  by (simp add: co_def at_def zeroPoly_def gf_simps)

lemma co_update: "i < length p \<Longrightarrow> co (p[i := v]) k = (if k = i then gf v else co p k)"
  by (auto simp: co_def at_def nth_list_update)

lemma co_copyPoly [simp]: "co (copyPoly d p) i = (if i < d then co p i else 0)"
  by (auto simp: co_def at_def copyPoly_def gf_simps)

lemma co_map_upt: "co (map f [0..<d]) i = (if i < d then gf (f i) else 0)"
  by (auto simp: co_def at_def gf_simps)

lemma co_mulZPoly:
  assumes "length p = d"
  shows "co (mulZPoly d p) i = (if 0 < i \<and> i < d then co p (i - 1) else 0)"
proof (cases "i < d")
  case True
  have "fold (\<lambda>i p. p[i := p ! (i - 1)]) (rev [1..<d]) p ! i =
      (if 1 \<le> i \<and> i < d then p ! (i - 1) else p ! i)"
    by (rule nth_fold_update_desc[of "\<lambda>i p. p ! (i - 1)"]) (use assms True in auto)
  then show ?thesis
    using assms True by (auto simp: co_def at_def mulZPoly_def nth_list_update gf_simps)
qed (use assms in simp)

lemma length_multPolys_row [simp]: "length (multPolys_row d p1 p2 i) = 2 * d"
  by (simp add: multPolys_row_def Let_def)

lemma multPolys_row_nth:
  assumes "k < 2 * d" "i < d" "length p2 \<le> d"
  shows "multPolys_row d p1 p2 i ! k = (if i \<le> k then gmult (at p2 (k - i)) (at p1 i) else 0)"
proof -
  let ?scaled = "map (\<lambda>j. gmult (at p2 j) (at p1 i)) [0..<d] @ replicate d 0"
  have scaled: "?scaled ! j = gmult (at p2 j) (at p1 i)" if "j < 2 * d" for j
    using that assms(3) by (auto simp: nth_append at_def)
  have "fold (\<lambda>j t. t[j := t ! (j - i)]) (rev [i..<2 * d]) ?scaled ! k =
      (if i \<le> k \<and> k < 2 * d then ?scaled ! (k - i) else ?scaled ! k)"
    by (rule nth_fold_update_desc) (use assms in auto)
  then show ?thesis
    using assms scaled[of "k - i"]
    by (simp add: multPolys_row_def Let_def nth_fold_update_const)
qed

lemma co_multPolys:
  assumes "k < 2 * d" "length p1 \<le> d" "length p2 \<le> d"
  shows "co (multPolys d p1 p2) k = (\<Sum>i\<le>k. co p1 i * co p2 (k - i))"
proof -
  have len: "length (fold (\<lambda>i dst. map2 (XOR) dst (multPolys_row d p1 p2 i)) is z) = 2 * d"
    if "length z = 2 * d" for "is" z
    using that by (induction "is" arbitrary: z) auto
  have step: "set is \<subseteq> {..<d} \<Longrightarrow> length z = 2 * d \<Longrightarrow>
      gf (fold (\<lambda>i dst. map2 (XOR) dst (multPolys_row d p1 p2 i)) is z ! k) =
      gf (z ! k) + (\<Sum>i\<leftarrow>is. if i \<le> k then co p1 i * co p2 (k - i) else 0)" for "is" z
    using assms
    by (induction "is" arbitrary: z)
      (auto simp: multPolys_row_nth gf_simps co_def mult.commute add.assoc)
  have "co (multPolys d p1 p2) k =
      (\<Sum>i\<leftarrow>[0..<d]. if i \<le> k then co p1 i * co p2 (k - i) else 0)"
    unfolding multPolys_def
    using assms(1) len[of "replicate (2 * d) 0"] step[of "[0..<d]" "replicate (2 * d) 0"]
    by (subst co_nth) (simp_all add: gf_simps atLeast0LessThan)
  also have "\<dots> = (\<Sum>i<d. if i \<le> k then co p1 i * co p2 (k - i) else 0)"
    by (simp add: interv_sum_list_conv_sum_set_nat atLeast0LessThan)
  also have "\<dots> = (\<Sum>i\<in>{..<d} \<union> {..k}. if i \<le> k then co p1 i * co p2 (k - i) else 0)"
    by (rule sum.mono_neutral_left) (use assms(2) in auto)
  also have "\<dots> = (\<Sum>i\<le>k. if i \<le> k then co p1 i * co p2 (k - i) else 0)"
    by (rule sum.mono_neutral_right) auto
  finally show ?thesis by simp
qed

lemma length_multPolys [simp]: "length (multPolys d p1 p2) = 2 * d"
proof -
  have "length z = 2 * d \<Longrightarrow>
      length (fold (\<lambda>i dst. map2 (XOR) dst (multPolys_row d p1 p2 i)) is z) = 2 * d" for "is" z
    by (induction "is" arbitrary: z) auto
  then show ?thesis by (simp add: multPolys_def)
qed

section \<open>The generator polynomial\<close>

text \<open>A monic polynomial of degree k whose roots include the first k powers of the generator.\<close>

definition is_gen :: "byte list \<Rightarrow> nat \<Rightarrow> bool" where
  "is_gen g k \<longleftrightarrow> co g k = 1 \<and> (\<forall>i>k. co g i = 0) \<and> (\<forall>j<k. ev (co g) k (alpha ^ j) = 0)"

lemma co_linear_product:
  assumes "1 < d" "length tp1 = d" "k < 2 * d"
  shows "co (multPolys d ((zeroPoly d)[0 := a, 1 := 1]) tp1) k =
           gf a * co tp1 k + (if k = 0 then 0 else co tp1 (k - 1))"
proof -
  let ?tp = "(zeroPoly d)[0 := a, 1 := 1]"
  have tp: "co ?tp i = (if i = 0 then gf a else if i = 1 then 1 else 0)" for i
    using assms(1) by (simp add: co_update gf_simps)
  have "co (multPolys d ?tp tp1) k = (\<Sum>i\<le>k. co ?tp i * co tp1 (k - i))"
    by (rule co_multPolys) (use assms in auto)
  also have "\<dots> = (\<Sum>i\<in>{..k} \<inter> {0, 1}. co ?tp i * co tp1 (k - i))"
    by (rule sum.mono_neutral_right) (auto simp: tp simp del: One_nat_def)
  also have "{..k} \<inter> {0, 1} = (if k = 0 then {0} else {0, 1})" by auto
  finally show ?thesis by (simp add: tp del: One_nat_def)
qed

lemma is_gen_step:
  assumes g: "is_gen tp1 k" and d: "1 < d" "length tp1 = d" "k < d" "k < 511"
  shows "is_gen (multPolys d ((zeroPoly d)[0 := gexp ! k, 1 := 1]) tp1) (Suc k)"
proof -
  let ?g = "multPolys d ((zeroPoly d)[0 := gexp ! k, 1 := 1]) tp1"
  have co: "co ?g i = alpha ^ k * co tp1 i + (if i = 0 then 0 else co tp1 (i - 1))" for i
  proof (cases "i < 2 * d")
    case True
    then show ?thesis using co_linear_product[OF d(1,2) True, of "gexp ! k"] d(4)
      by (simp add: gf_simps)
  next
    case False
    then show ?thesis using d by simp
  qed
  have "ev (co ?g) (Suc k) x = (alpha ^ k + x) * ev (co tp1) k x" for x
  proof -
    have "ev (co ?g) (Suc k) x = alpha ^ k * ev (co tp1) (Suc k) x +
        (\<Sum>i\<le>Suc k. (if i = 0 then 0 else co tp1 (i - 1)) * x ^ i)"
      unfolding ev_def co by (simp add: algebra_simps sum.distrib sum_distrib_left)
    also have "(\<Sum>i\<le>Suc k. (if i = 0 then 0 else co tp1 (i - 1)) * x ^ i) = x * ev (co tp1) k x"
      unfolding ev_def by (subst sum.atMost_Suc_shift) (simp add: sum_distrib_left algebra_simps)
    also have "ev (co tp1) (Suc k) x = ev (co tp1) k x"
      by (rule ev_extend) (use g in \<open>auto simp: is_gen_def\<close>)
    finally show ?thesis by (simp add: algebra_simps)
  qed
  then show ?thesis
    using g unfolding is_gen_def by (auto simp: co less_Suc_eq simp del: One_nat_def)
qed

lemma genPoly_is_gen:
  assumes "0 < n" "n < 511"
  shows "is_gen (genPoly (2 * n) n) n"
proof -
  let ?st = "\<lambda>k. fold (genPoly_step (2 * n)) [0..<k] ([], (zeroPoly (2 * n))[0 := 1])"
  have "k \<le> n \<Longrightarrow> is_gen (snd (?st k)) k \<and> length (snd (?st k)) = 2 * n \<and>
      (0 < k \<longrightarrow> is_gen (fst (?st k)) k)" for k
  proof (induction k)
    case 0
    then show ?case using assms by (simp add: is_gen_def co_update gf_simps)
  next
    case (Suc k)
    let ?tp1 = "snd (?st k)"
    let ?g = "multPolys (2 * n) ((zeroPoly (2 * n))[0 := gexp ! k, 1 := 1]) ?tp1"
    have st: "?st (Suc k) = (?g, copyPoly (2 * n) ?g)"
      by (simp add: genPoly_step_def Let_def split: prod.splits)
    have g: "is_gen ?g (Suc k)"
      by (rule is_gen_step) (use Suc assms in auto)
    have "co (copyPoly (2 * n) ?g) = co ?g"
    proof
      fix i show "co (copyPoly (2 * n) ?g) i = co ?g i"
        using g Suc.prems assms by (auto simp: is_gen_def)
    qed
    then show ?case unfolding st using g by (simp add: is_gen_def)
  qed
  then show ?thesis using assms by (auto simp: genPoly_def)
qed

section \<open>Code words have no syndromes\<close>

definition horner :: "gf256 \<Rightarrow> byte list \<Rightarrow> gf256 \<Rightarrow> gf256" where
  "horner x bs h = fold (\<lambda>b s. gf b + x * s) bs h"

lemma gf_syndrome: "j < 511 \<Longrightarrow> gf (syndrome bs j) = horner (alpha ^ j) bs 0"
proof -
  assume j: "j < 511"
  have "gf (fold (\<lambda>b sum. b XOR gmult (gexp ! j) sum) bs s) = horner (alpha ^ j) bs (gf s)" for s
    unfolding horner_def using j by (induction bs arbitrary: s) (simp_all add: gf_simps)
  from this[of 0] show ?thesis by (simp add: syndrome_def gf_simps)
qed

lemma horner_append: "horner x (as @ bs) h = horner x bs (horner x as h)"
  by (simp add: horner_def)

lemma horner_rev: "n \<le> length L \<Longrightarrow>
    horner x (map (\<lambda>i. L ! i) (rev [0..<n])) h = x ^ n * h + (\<Sum>i<n. co L i * x ^ i)"
  by (induction n arbitrary: h)
    (simp_all add: horner_def co_nth algebra_simps)

lemma length_lfsr_shift [simp]: "length (lfsr_shift n g m r) = length r"
  by (simp add: lfsr_shift_def Let_def)

lemma co_lfsr_shift:
  assumes "length r = n + 1" "0 < n" "i < n"
  shows "co (lfsr_shift n g m r) i =
           (if i = 0 then 0 else co r (i - 1)) + co g i * (gf m + co r (n - 1))"
proof -
  let ?d = "m XOR r ! (n - 1)"
  have "fold (\<lambda>j r. r[j := r ! (j - 1) XOR gmult (at g j) ?d]) (rev [1..<n]) r ! i =
      (if 1 \<le> i \<and> i < n then r ! (i - 1) XOR gmult (at g i) ?d else r ! i)"
    by (rule nth_fold_update_desc) (use assms in auto)
  then show ?thesis
    using assms by (auto simp: lfsr_shift_def Let_def co_def at_def nth_list_update gf_simps)
qed

lemma lfsr_shift_root:
  assumes g: "is_gen g n" and r: "length r = n + 1" "0 < n" and j: "j < n"
  shows "(\<Sum>i<n. co (lfsr_shift n g m r) i * (alpha ^ j) ^ i) =
           alpha ^ j * (\<Sum>i<n. co r i * (alpha ^ j) ^ i) + gf m * (alpha ^ j) ^ n"
proof -
  let ?x = "alpha ^ j" and ?d = "gf m + co r (n - 1)"
  obtain k where k: "n = Suc k" using r(2) by (cases n) auto
  have "(\<Sum>i<n. co g i * ?x ^ i) + ?x ^ n = 0"
    using g j unfolding is_gen_def ev_def lessThan_Suc_atMost[symmetric] by auto
  then have gx: "(\<Sum>i<n. co g i * ?x ^ i) = ?x ^ n" by (simp add: gf_add_eq_0)
  have "(\<Sum>i<n. co (lfsr_shift n g m r) i * ?x ^ i) =
      (\<Sum>i<n. (if i = 0 then 0 else co r (i - 1)) * ?x ^ i) + ?d * (\<Sum>i<n. co g i * ?x ^ i)"
    using r by (simp add: co_lfsr_shift algebra_simps sum.distrib sum_distrib_left)
  also have "(\<Sum>i<n. (if i = 0 then 0 else co r (i - 1)) * ?x ^ i) = ?x * (\<Sum>i<k. co r i * ?x ^ i)"
    unfolding k by (subst sum.lessThan_Suc_shift) (simp add: sum_distrib_left algebra_simps)
  also have "?x * (\<Sum>i<k. co r i * ?x ^ i) + ?d * (\<Sum>i<n. co g i * ?x ^ i) =
      ?x * (\<Sum>i<n. co r i * ?x ^ i) + gf m * ?x ^ n"
    unfolding gx unfolding k by (simp add: algebra_simps)
  finally show ?thesis .
qed

lemma lfsr_run:
  assumes g: "is_gen g n" and n: "0 < n" and j: "j < n"
  shows "length r = n + 1 \<Longrightarrow>
    (alpha ^ j) ^ n * horner (alpha ^ j) msg h +
      (\<Sum>i<n. co (fold (lfsr_shift n g) msg r) i * (alpha ^ j) ^ i) =
    (alpha ^ j) ^ length msg *
      ((alpha ^ j) ^ n * h + (\<Sum>i<n. co r i * (alpha ^ j) ^ i))"
proof (induction msg arbitrary: r h)
  case (Cons m msg)
  let ?x = "alpha ^ j"
  have "?x ^ n * horner ?x (m # msg) h +
      (\<Sum>i<n. co (fold (lfsr_shift n g) (m # msg) r) i * ?x ^ i) =
      ?x ^ length msg * (?x ^ n * (gf m + ?x * h) +
        (\<Sum>i<n. co (lfsr_shift n g m r) i * ?x ^ i))"
    using Cons.IH[of "lfsr_shift n g m r" "gf m + ?x * h"] Cons.prems by (simp add: horner_def)
  also have "\<dots> = ?x ^ length msg * (?x * (?x ^ n * h + (\<Sum>i<n. co r i * ?x ^ i)) +
      (gf m * ?x ^ n + gf m * ?x ^ n))"
    unfolding lfsr_shift_root[OF g Cons.prems n j] by (simp only: algebra_simps)
  finally show ?case by (simp only: gf_add_self) (simp add: algebra_simps)
qed (simp add: horner_def)

text \<open>
  The objects the client works with: fresh ones, and those that encode and decode leave behind.
\<close>

definition rs_ok :: "nat \<Rightarrow> reed_solomon \<Rightarrow> bool" where
  "rs_ok n rs \<longleftrightarrow> n_ec_bytes rs = n \<and> n_degree_max rs = 2 * n \<and>
     (gen_poly rs = None \<or> gen_poly rs = Some (genPoly (2 * n) n))"

lemma rs_ok_new [simp]: "rs_ok n (new_ReedSolomon n)"
  by (simp add: rs_ok_def new_ReedSolomon_def)

lemma rs_ok_encode: "rs_ok n rs \<Longrightarrow> rs_ok n (fst (encode rs msg))"
  by (auto simp: rs_ok_def encode_def Let_def split: option.splits)

lemma correctErrors_frame [frame_simps]:
  "n_ec_bytes (correctErrors rs) = n_ec_bytes rs"
  "n_degree_max (correctErrors rs) = n_degree_max rs"
  "gen_poly (correctErrors rs) = gen_poly rs"
  by (simp_all add: correctErrors_def berlekampMassey_def findRoots_def Let_def)

lemma decode_frame [frame_simps]:
  "n_ec_bytes (fst (decode rs bs)) = n_ec_bytes rs"
  "n_degree_max (fst (decode rs bs)) = n_degree_max rs"
  "gen_poly (fst (decode rs bs)) = gen_poly rs"
  by (simp_all add: decode_def calculateSyndroms_def Let_def frame_simps)

lemma rs_ok_decode: "rs_ok n rs \<Longrightarrow> rs_ok n (fst (decode rs bs))"
  by (simp add: rs_ok_def frame_simps)

definition code_word :: "nat \<Rightarrow> byte list \<Rightarrow> bool" where
  "code_word n c \<longleftrightarrow> (\<forall>j<n. syndrome c j = 0)"

lemma length_parity: "rs_ok n rs \<Longrightarrow> length (snd (encode rs msg)) = n"
  by (simp add: encode_def rs_ok_def Let_def)

lemma encode_code_word:
  assumes "rs_ok n rs" "0 < n" "n < 511"
  shows "code_word n (msg @ snd (encode rs msg))"
  unfolding code_word_def
proof (intro allI impI)
  fix j assume j: "j < n"
  let ?g = "genPoly (2 * n) n" and ?x = "alpha ^ j"
  let ?L = "fold (lfsr_shift n ?g) msg (replicate (n + 1) 0)"
  have len: "length (fold (lfsr_shift n g) ms r) = length r" for g ms r
    by (induction ms arbitrary: r) auto
  have par: "snd (encode rs msg) = map (\<lambda>i. ?L ! i) (rev [0..<n])"
    using assms(1) by (auto simp: encode_def rs_ok_def Let_def split: option.splits)
  have "gf (syndrome (msg @ snd (encode rs msg)) j) =
      ?x ^ n * horner ?x msg 0 + (\<Sum>i<n. co ?L i * ?x ^ i)"
    using j assms(3) len
    by (simp add: gf_syndrome par horner_append horner_rev)
  also have "\<dots> = ?x ^ length msg * (?x ^ n * 0 + (\<Sum>i<n. co (replicate (n + 1) 0) i * ?x ^ i))"
    by (rule lfsr_run[OF genPoly_is_gen[OF assms(2,3)] assms(2) j]) simp
  also have "\<dots> = 0"
    using co_zeroPoly[of "n + 1"] by (simp only: zeroPoly_def) simp
  finally show "syndrome (msg @ snd (encode rs msg)) j = 0" by simp
qed

lemma no_syndroms_iff: "snd (calculateSyndroms rs) = 0 \<longleftrightarrow> code_word (n_ec_bytes rs) (bytes_in rs)"
proof -
  have "s > 0 \<longleftrightarrow> s \<noteq> 0" for s :: byte by (rule word_neq_0_conv[symmetric])
  then show ?thesis
    by (auto simp: calculateSyndroms_def code_word_def Let_def filter_empty_conv)
qed

lemma decode_code_word:
  assumes "rs_ok n rs" "code_word n c" "n \<le> length c"
  shows "snd (decode rs c) = take (length c - n) c \<and> corrected (fst (decode rs c))"
proof -
  obtain rs2 ne where c: "calculateSyndroms (rs\<lparr>bytes_in := c, bytes_out := c\<rparr>) = (rs2, ne)"
    by force
  have "ne = 0" using no_syndroms_iff[of "rs\<lparr>bytes_in := c, bytes_out := c\<rparr>"] assms c
    by (simp add: rs_ok_def)
  moreover have "bytes_out rs2 = c" "n_ec_bytes rs2 = n"
    using c assms(1) by (auto simp: calculateSyndroms_def Let_def rs_ok_def)
  ultimately show ?thesis
    using assms(3) js_slice_prefix[of c "length c - n"] c
    by (simp add: decode_def Let_def of_nat_diff)
qed

section \<open>Error patterns\<close>

definition error_positions :: "byte list \<Rightarrow> byte list \<Rightarrow> nat set" where
  "error_positions c r =
     (if length c = length r \<and> length r \<le> 255 then {p. p < length r \<and> c ! p \<noteq> r ! p} else {})"

definition error_at :: "byte list \<Rightarrow> byte list \<Rightarrow> nat \<Rightarrow> gf256" where
  "error_at c r p = gf (c ! p) + gf (r ! p)"

definition location :: "byte list \<Rightarrow> nat \<Rightarrow> nat" where
  "location r p = length r - 1 - p"

definition locator_of :: "byte list \<Rightarrow> nat \<Rightarrow> gf256" where
  "locator_of r p = alpha ^ location r p"

interpretation errs: error_locators "error_positions c r" "error_at c r" "locator_of r"
  for c r :: "byte list"
proof
  show "finite (error_positions c r)" by (simp add: error_positions_def)
  show "inj_on (locator_of r) (error_positions c r)"
    by (rule inj_onI)
      (auto simp: error_positions_def locator_of_def location_def split: if_splits
        dest!: alpha_pow_inj[rotated 2])
  show "error_at c r k \<noteq> 0" if "k \<in> error_positions c r" for k
    using that by (auto simp: error_positions_def error_at_def gf_add_eq_0 split: if_splits)
  show "locator_of r k \<noteq> 0" for k by (simp add: locator_of_def)
qed

abbreviation received_sums :: "byte list \<Rightarrow> byte list \<Rightarrow> nat \<Rightarrow> gf256" where
  "received_sums c r \<equiv> power_sums (error_positions c r) (error_at c r) (locator_of r)"

lemma horner_sum: "horner x bs 0 = (\<Sum>p<length bs. gf (bs ! p) * x ^ (length bs - 1 - p))"
proof (induction bs rule: rev_induct)
  case (snoc b bs)
  have "horner x (bs @ [b]) 0 = gf b + x * horner x bs 0"
    by (simp add: horner_def)
  also have "x * horner x bs 0 = (\<Sum>p<length bs. gf (bs ! p) * x ^ (length bs - p))"
    unfolding snoc sum_distrib_left
  proof (rule sum.cong[OF refl])
    fix p assume "p \<in> {..<length bs}"
    then have "length bs - p = Suc (length bs - 1 - p)" by auto
    then show "x * (gf (bs ! p) * x ^ (length bs - 1 - p)) = gf (bs ! p) * x ^ (length bs - p)"
      by simp
  qed
  finally show ?case by (simp add: nth_append)
qed (simp add: horner_def)

lemma syndrome_power_sum:
  assumes c: "code_word n c" and len: "length c = length r" "length r \<le> 255"
    and m: "m < n" "m < 511"
  shows "gf (syndrome r m) = received_sums c r m"
proof -
  let ?x = "alpha ^ m"
  have "horner ?x c 0 = 0" using c m by (metis code_word_def gf_0 gf_syndrome)
  then have "gf (syndrome r m) = horner ?x c 0 + horner ?x r 0"
    using m by (simp add: gf_syndrome)
  also have "\<dots> = (\<Sum>p<length r. error_at c r p * ?x ^ location r p)"
    unfolding horner_sum len(1)
    by (simp add: error_at_def location_def distrib_right sum.distrib)
  also have "\<dots> = (\<Sum>p\<in>error_positions c r. error_at c r p * ?x ^ location r p)"
    by (rule sum.mono_neutral_right)
      (use len in \<open>auto simp: error_positions_def error_at_def\<close>)
  also have "\<dots> = received_sums c r m"
    by (simp add: power_sums_def locator_of_def power_mult[symmetric] mult.commute)
  finally show ?thesis .
qed

section \<open>Berlekamp-Massey on byte arrays\<close>

lemma gf_computeDiscrepancy:
  assumes "\<And>i. i \<le> n \<Longrightarrow> co S i = s i" "L \<le> n"
  shows "gf (computeDiscrepancy p S L n) = disc (co p) L s n"
proof -
  have "gf (computeDiscrepancy p S L n) = (\<Sum>i<L + 1. co p i * co S (n - i))"
    unfolding computeDiscrepancy_def gf_xor_loop by (simp add: gf_simps co_def)
  also have "\<dots> = disc (co p) L s n"
    unfolding disc_def using assms by (simp add: lessThan_Suc_atMost)
  finally show ?thesis .
qed

definition bm_rel :: "nat \<Rightarrow> (nat \<Rightarrow> gf256) \<Rightarrow> nat \<Rightarrow> nat \<Rightarrow> bm_state \<Rightarrow> bool" where
  "bm_rel n s t m st \<longleftrightarrow>
     bm_inv s t m (co (bm_psi st)) (co (bm_D st)) (nat (bm_L st)) \<and> 0 \<le> bm_L st \<and>
     bm_k st = bm_L st - 1 \<and> length (bm_psi st) = 2 * n \<and> length (bm_D st) = 2 * n"

lemma co_mulZPoly_shift:
  assumes "length D = d" "\<And>i. d - 1 \<le> i \<Longrightarrow> co D i = 0"
  shows "co (mulZPoly d D) 0 = 0" "co (mulZPoly d D) (Suc i) = co D i"
  using assms by (auto simp: co_mulZPoly not_less)

lemma co_xor_scaled:
  assumes "length p = d" "length D = d"
  shows "co (map (\<lambda>i. at p i XOR gmult a (at D i)) [0..<d]) = (\<lambda>i. co p i - gf a * co D i)"
  by (rule ext) (auto simp: co_map_upt gf_simps co_def at_def assms)

lemma bm_step_rel:
  assumes r: "bm_rel n s t m st" and m: "m < n" "2 \<le> n"
    and S: "\<And>i. i \<le> m \<Longrightarrow> co S i = s i"
    and b: "b 0 = 1" "generates b t s n"
  shows "bm_rel n s t (Suc m) (bm_step (2 * n) S m st)"
proof -
  let ?C = "co (bm_psi st)" and ?D = "co (bm_D st)" and ?L = "nat (bm_L st)"
  define dis where "dis = computeDiscrepancy (bm_psi st) S ?L m"
  have inv: "bm_inv s t m ?C ?D ?L" and k: "bm_k st = bm_L st - 1" "0 \<le> bm_L st"
    and len: "length (bm_psi st) = 2 * n" "length (bm_D st) = 2 * n"
    using r by (auto simp: bm_rel_def)
  have L: "?L \<le> m" using inv by (simp add: bm_inv_def)
  have dis: "gf dis = disc ?C ?L s m"
    unfolding dis_def by (rule gf_computeDiscrepancy) (use S L in auto)
  have Dz: "co (bm_D st) i = 0" if "2 * n - 1 \<le> i" for i
    using inv that m by (simp add: bm_inv_def)
  note shift = co_mulZPoly_shift[OF len(2) Dz]
  let ?psi2 = "map (\<lambda>i. at (bm_psi st) i XOR gmult dis (at (bm_D st) i)) [0..<2 * n]"
  have psi2: "co (copyPoly (2 * n) ?psi2) = (\<lambda>i. ?C i - disc ?C ?L s m * ?D i)"
    unfolding co_xor_scaled[OF len, of dis, symmetric] dis[symmetric]
    by (rule ext) simp
  show ?thesis
  proof (cases "dis = 0")
    case True
    have "bm_inv s t (Suc m) ?C (co (mulZPoly (2 * n) (bm_D st))) ?L"
      by (rule bm_inv_no_disc[OF inv]) (use dis True shift in \<open>simp_all add: gf_simps\<close>)
    then show ?thesis
      using True k len by (simp add: bm_step_def bm_rel_def dis_def[symmetric] Let_def)
  next
    case nz: False
    show ?thesis
    proof (cases "bm_L st < int m - bm_k st")
      case False
      then have mL: "m < 2 * ?L" using k by linarith
      have "bm_inv s t (Suc m) (co (copyPoly (2 * n) ?psi2)) (co (mulZPoly (2 * n) (bm_D st))) ?L"
        unfolding psi2 by (rule bm_inv_correct[OF inv mL]) (use shift in auto)
      then show ?thesis
        using nz False k len by (simp add: bm_step_def bm_rel_def dis_def[symmetric] Let_def)
    next
      case True
      then have mL: "2 * ?L \<le> m" using k by linarith
      let ?D2 = "map (\<lambda>i. gmult (at (bm_psi st) i) (ginv dis)) [0..<2 * n]"
      have D2: "co ?D2 i = ?C i / disc ?C ?L s m" for i
        unfolding dis[symmetric] using nz
        by (auto simp: co_map_upt gf_simps co_def at_def len divide_inverse)
      have "co ?D2 i = 0" if "2 * n - 1 \<le> i" for i
        using inv that m L unfolding D2 by (simp add: bm_inv_def)
      note shift2 = co_mulZPoly_shift[OF _ this]
      have "bm_inv s t (Suc m) (co (copyPoly (2 * n) ?psi2)) (co (mulZPoly (2 * n) ?D2)) (m + 1 - ?L)"
        unfolding psi2
        by (rule bm_inv_lengthen[OF inv mL _ b m(1)])
          (use shift2 nz in \<open>simp_all add: D2 flip: dis\<close>)
      moreover have "nat (int m - bm_k st) = m + 1 - ?L" using k L by linarith
      ultimately show ?thesis
        using nz True k len by (simp add: bm_step_def bm_rel_def dis_def[symmetric] Let_def)
    qed
  qed
qed

lemma bm_run_rel:
  assumes "2 \<le> n" "\<And>i. i < n \<Longrightarrow> co S i = s i" "b 0 = 1" "generates b t s n" "m \<le> n"
    and "bm_rel n s t 0 st"
  shows "bm_rel n s t m (fold (bm_step (2 * n) S) [0..<m] st)"
  using assms(5)
proof (induction m)
  case (Suc m)
  then show ?case using bm_step_rel[of n s t m _ S b] assms by simp
qed (use assms in simp)

lemma berlekampMassey_connection:
  assumes rs: "n_ec_bytes rs = n" "n_degree_max rs = 2 * n" "length (syndroms rs) = n"
    and n: "2 \<le> n" "2 * t \<le> n"
    and S: "\<And>i. i < n \<Longrightarrow> co (syndroms rs) i = s i"
    and b: "b 0 = 1" "generates b t s n"
  shows "connection s t (co (psi (berlekampMassey rs))) n"
    and "length (psi (berlekampMassey rs)) = 2 * n"
    and "\<And>i. co (omega (berlekampMassey rs)) i =
           (if i < n then evaluator (co (psi (berlekampMassey rs))) s i else 0)"
proof -
  let ?S = "syndroms rs"
  let ?gamma = "(zeroPoly (2 * n))[0 := 1 :: byte]"
  let ?init = "\<lparr>bm_psi = copyPoly (2 * n) ?gamma, bm_D = mulZPoly (2 * n) (copyPoly (2 * n) ?gamma),
                 bm_k = -1, bm_L = 0\<rparr>"
  let ?st = "fold (bm_step (2 * n) ?S) [0..<n] ?init"
  have g: "co (copyPoly (2 * n) ?gamma) = (\<lambda>i. if i = 0 then 1 else 0)"
    using n by (auto simp: co_update gf_simps)
  have g1: "co (mulZPoly (2 * n) (copyPoly (2 * n) ?gamma)) = (\<lambda>i. if i = 1 then 1 else 0)"
    using n g by (auto simp: co_mulZPoly fun_eq_iff simp del: co_copyPoly)
  have r0: "bm_rel n s t 0 ?init"
    unfolding bm_rel_def using bm_inv_init[of s t] by (simp add: g g1 del: co_copyPoly One_nat_def)
  have r: "bm_rel n s t n ?st"
    by (rule bm_run_rel[OF n(1) _ b order.refl r0]) (rule S)
  have p: "psi (berlekampMassey rs) = bm_psi ?st"
    by (simp add: berlekampMassey_def Let_def rs)
  show "connection s t (co (psi (berlekampMassey rs))) n"
    unfolding p using r n(2) unfolding bm_rel_def by (blast intro: bm_inv_connection)
  show len: "length (psi (berlekampMassey rs)) = 2 * n"
    unfolding p using r by (simp add: bm_rel_def)
  have om: "omega (berlekampMassey rs) =
      map (\<lambda>i. if i < n then at (multPolys (2 * n) (psi (berlekampMassey rs)) ?S) i else 0) [0..<2 * n]"
    unfolding p by (simp add: berlekampMassey_def Let_def rs)
  show "co (omega (berlekampMassey rs)) i =
      (if i < n then evaluator (co (psi (berlekampMassey rs))) s i else 0)" for i
  proof (cases "i < n")
    case True
    have "co (omega (berlekampMassey rs)) i =
        co (multPolys (2 * n) (psi (berlekampMassey rs)) ?S) i"
      unfolding om co_map_upt using True by (simp add: co_def)
    also have "\<dots> = (\<Sum>j\<le>i. co (psi (berlekampMassey rs)) j * co ?S (i - j))"
      by (rule co_multPolys) (use True len rs in auto)
    finally show ?thesis using True S by (simp add: evaluator_def)
  next
    case False
    then show ?thesis unfolding om co_map_upt by (simp add: gf_simps)
  qed
qed

lemma alpha_pow_255_times: "alpha ^ (255 * q) = 1"
  by (simp add: power_mult alpha_255)

lemma alpha_pow_complement: "i \<le> 255 \<Longrightarrow> alpha ^ (255 - i) = inverse (alpha ^ i)"
proof -
  assume "i \<le> 255"
  then have "alpha ^ i * alpha ^ (255 - i) = 1"
    by (simp add: alpha_255 flip: power_add)
  then show ?thesis by (simp add: field_simps)
qed

lemma gf_root_sum:
  assumes "length (psi rs) = 2 * n" "n_ec_bytes rs = n" "2 \<le> n"
    and "\<And>i. n < i \<Longrightarrow> co (psi rs) i = 0"
  shows "gf (root_sum rs r) = ev (co (psi rs)) n (alpha ^ r)"
proof -
  have g: "gf (gexp ! ((k * r) mod 255)) = (alpha ^ r) ^ k" for k
  proof -
    have "(k * r) mod 255 < 511" by (rule less_trans[of _ 255]) auto
    then show ?thesis
      by (simp add: gf_gexp alpha_pow_mod mult.commute flip: power_mult)
  qed
  have "gf (root_sum rs r) = (\<Sum>k<n + 1. (alpha ^ r) ^ k * co (psi rs) k)"
    unfolding root_sum_def gf_xor_loop assms(2) by (simp add: gf_simps g co_def)
  also have "\<dots> = ev (co (psi rs)) n (alpha ^ r)"
    unfolding ev_def by (simp add: lessThan_Suc_atMost mult.commute)
  finally show ?thesis .
qed

text \<open>What correctErrors knows after Berlekamp-Massey, for a received word with few errors.\<close>

definition received :: "nat \<Rightarrow> byte list \<Rightarrow> byte list \<Rightarrow> reed_solomon \<Rightarrow> bool" where
  "received n c r rs \<longleftrightarrow>
     2 \<le> n \<and> n < 511 \<and> code_word n c \<and> length c = length r \<and> length r \<le> 255 \<and>
     2 * card (error_positions c r) \<le> n \<and>
     n_ec_bytes rs = n \<and> n_degree_max rs = 2 * n \<and> syndroms rs = map (syndrome r) [0..<n] \<and>
     bytes_in rs = r \<and> bytes_out rs = r"

lemma receivedD:
  assumes "received n c r rs"
  shows "2 \<le> n" "n < 511" "code_word n c" "length c = length r" "length r \<le> 255"
    "2 * card (error_positions c r) \<le> n" "n_ec_bytes rs = n" "n_degree_max rs = 2 * n"
    "syndroms rs = map (syndrome r) [0..<n]" "bytes_in rs = r" "bytes_out rs = r"
  using assms by (simp_all add: received_def)

lemma co_syndroms:
  assumes w: "received n c r rs" and i: "i < n"
  shows "co (syndroms rs) i = received_sums c r i"
  using syndrome_power_sum[OF receivedD(3-5)[OF w], of i] receivedD(2,9)[OF w] i
  by (simp add: co_map_upt)

lemma psi_connection:
  assumes w: "received n c r rs"
  shows "connection (received_sums c r) (card (error_positions c r)) (co (psi (berlekampMassey rs))) n"
    and "length (psi (berlekampMassey rs)) = 2 * n"
    and "co (omega (berlekampMassey rs)) i =
     (if i < n then evaluator (co (psi (berlekampMassey rs))) (received_sums c r) i else 0)"
proof -
  obtain b where b: "b 0 = 1" "generates b (card (error_positions c r)) (received_sums c r) n"
    using errs.locator_generates by blast
  have l: "length (syndroms rs) = n" using receivedD(9)[OF w] by simp
  note bm = berlekampMassey_connection[OF receivedD(7,8)[OF w] l receivedD(1,6)[OF w]
      co_syndroms[OF w] b]
  show "connection (received_sums c r) (card (error_positions c r)) (co (psi (berlekampMassey rs))) n"
    by (rule bm(1)) assumption
  show "length (psi (berlekampMassey rs)) = 2 * n" by (rule bm(2)) assumption
  show "co (omega (berlekampMassey rs)) i =
     (if i < n then evaluator (co (psi (berlekampMassey rs))) (received_sums c r) i else 0)"
    by (rule bm(3)) assumption
qed

lemma psi_degree:
  "received n c r rs \<Longrightarrow> card (error_positions c r) < i \<Longrightarrow> co (psi (berlekampMassey rs)) i = 0"
  using psi_connection(1) by (simp add: connection_def)

lemma location_less:
  "received n c r rs \<Longrightarrow> p \<in> error_positions c r \<Longrightarrow> location r p < length r \<and> location r p < 255"
  using receivedD(5)[of n c r rs] by (auto simp: location_def error_positions_def split: if_splits)

lemma root_sum_iff:
  assumes w: "received n c r rs" and j: "1 \<le> j" "j < 256"
  shows "root_sum (berlekampMassey rs) j = 0 \<longleftrightarrow>
           (\<exists>p\<in>error_positions c r. 255 - j = location r p)"
proof -
  let ?P = "psi (berlekampMassey rs)" and ?t = "card (error_positions c r)"
  have nec: "n_ec_bytes (berlekampMassey rs) = n"
    using receivedD(7)[OF w] by (simp add: berlekampMassey_def Let_def)
  have few: "2 * ?t \<le> n" by (rule receivedD(6)[OF w])
  have "gf (root_sum (berlekampMassey rs) j) = ev (co ?P) n (alpha ^ j)"
    by (rule gf_root_sum[OF psi_connection(2)[OF w] nec receivedD(1)[OF w]]) (use psi_degree[OF w] few in auto)
  also have "\<dots> = ev (co ?P) ?t (alpha ^ j)"
    by (rule ev_extend) (use psi_degree[OF w] few in auto)
  finally have "root_sum (berlekampMassey rs) j = 0 \<longleftrightarrow>
      (\<exists>p\<in>error_positions c r. alpha ^ j = inverse (locator_of r p))"
    by (metis errs.roots_are_locators[OF psi_connection(1)[OF w]] gf_eq_0_iff)
  moreover have "alpha ^ j = inverse (locator_of r p) \<longleftrightarrow> 255 - j = location r p"
    if p: "p \<in> error_positions c r" for p
  proof -
    have l: "location r p < 255" using location_less[OF w p] by simp
    have "alpha ^ (255 - j) = inverse (alpha ^ j)"
      by (rule alpha_pow_complement) (use j in auto)
    then have "alpha ^ j = inverse (locator_of r p) \<longleftrightarrow> alpha ^ (255 - j) = alpha ^ location r p"
      unfolding locator_of_def by (metis inverse_inverse_eq)
    also have "\<dots> \<longleftrightarrow> 255 - j = location r p"
      using alpha_pow_inj[of "255 - j" "location r p"] l j by auto
    finally show ?thesis .
  qed
  ultimately show ?thesis by auto
qed

lemma error_locs_are_locations:
  assumes w: "received n c r rs"
  shows "set (error_locs (findRoots (berlekampMassey rs))) = location r ` error_positions c r"
    and "distinct (error_locs (findRoots (berlekampMassey rs)))"
proof -
  let ?R = "filter (\<lambda>j. root_sum (berlekampMassey rs) j = 0) [1..<256]"
  have locs: "error_locs (findRoots (berlekampMassey rs)) = map (\<lambda>j. 255 - j) ?R"
    by (simp add: findRoots_def Let_def)
  show "set (error_locs (findRoots (berlekampMassey rs))) = location r ` error_positions c r"
  proof (rule set_eqI)
    fix x
    have "x \<in> set (map (\<lambda>j. 255 - j) ?R) \<longleftrightarrow>
        (\<exists>j. 1 \<le> j \<and> j < 256 \<and> x = 255 - j \<and> root_sum (berlekampMassey rs) j = 0)"
      by auto
    also have "\<dots> \<longleftrightarrow> (\<exists>j. 1 \<le> j \<and> j < 256 \<and> x = 255 - j \<and>
        (\<exists>p\<in>error_positions c r. 255 - j = location r p))"
      using root_sum_iff[OF w] by blast
    also have "\<dots> \<longleftrightarrow> x \<in> location r ` error_positions c r"
    proof
      assume "x \<in> location r ` error_positions c r"
      then obtain p where p: "p \<in> error_positions c r" "x = location r p" by auto
      then have "x < 255" using location_less[OF w] by auto
      then show "\<exists>j. 1 \<le> j \<and> j < 256 \<and> x = 255 - j \<and>
          (\<exists>p\<in>error_positions c r. 255 - j = location r p)"
        using p by (intro exI[of _ "255 - x"]) auto
    qed auto
    finally show "x \<in> set (error_locs (findRoots (berlekampMassey rs))) \<longleftrightarrow>
        x \<in> location r ` error_positions c r"
      unfolding locs .
  qed
  show "distinct (error_locs (findRoots (berlekampMassey rs)))"
    unfolding locs by (auto simp: distinct_map inj_on_def)
qed

lemma inj_location: "inj_on (location r) (error_positions c r)"
  by (rule inj_onI) (auto simp: location_def error_positions_def split: if_splits)

lemma length_error_locs:
  "received n c r rs \<Longrightarrow> length (error_locs (findRoots (berlekampMassey rs))) = card (error_positions c r)"
  using error_locs_are_locations distinct_card card_image[OF inj_location] by metis

section \<open>Error values and correction\<close>

lemma gf_power_entry: "i \<le> 255 \<Longrightarrow>
    gf (gexp ! (((255 - i) * j) mod 255)) = inverse (alpha ^ i) ^ j"
proof -
  assume i: "i \<le> 255"
  have "((255 - i) * j) mod 255 < 511" by (rule less_trans[of _ 255]) auto
  then show ?thesis
    using i by (simp add: gf_gexp alpha_pow_mod power_mult alpha_pow_complement)
qed

lemma error_value_correct:
  assumes w: "received n c r rs" and p: "p \<in> error_positions c r"
    and rs': "psi rs' = psi (berlekampMassey rs)" "omega rs' = omega (berlekampMassey rs)"
      "n_degree_max rs' = 2 * n"
  shows "gf (error_value rs' (location r p)) = error_at c r p"
proof -
  let ?t = "card (error_positions c r)" and ?X = "locator_of r p" and ?i = "location r p"
  let ?C = "co (psi (berlekampMassey rs))" and ?s = "received_sums c r"
  let ?Q = "ev (deflate ?C ?X) ?t (inverse ?X)"
  note conn = psi_connection(1)[OF w]
  have i: "?i \<le> 255" using location_less[OF w p] by simp
  have t: "?t < 2 * n" "?t \<le> n" using receivedD(1,6)[OF w] by auto
  define num where "num = fold (\<lambda>j num. num XOR gmult (at (omega rs') j)
      (gexp ! (((255 - ?i) * j) mod 255))) [0..<n_degree_max rs'] 0"
  define den where "den = fold (\<lambda>j den. den XOR gmult (at (psi rs') j)
      (gexp ! (((255 - ?i) * j) mod 255))) (filter even [0..<n_degree_max rs']) 0"
  have Q: "?Q \<noteq> 0" by (rule errs.quotient_self[OF conn p])
  have "gf num = (\<Sum>j<2 * n. co (omega (berlekampMassey rs)) j * inverse ?X ^ j)"
    unfolding num_def gf_xor_loop rs' gf_gmult gf_power_entry[OF i]
    by (simp add: co_def locator_of_def)
  also have "\<dots> = ev (evaluator ?C ?s) ?t (inverse ?X)"
    unfolding ev_def psi_connection(3)[OF w]
    by (rule sum.mono_neutral_cong_right)
      (use t errs.evaluator_vanishes[OF conn] in \<open>auto split: if_splits\<close>)
  also have "\<dots> = error_at c r p * ?Q"
    by (rule errs.evaluator_at_locator[OF conn p])
  finally have num: "gf num = error_at c r p * ?Q" .
  have "gf den = (\<Sum>j | j < 2 * n \<and> even j. ?C j * inverse ?X ^ j)"
    unfolding den_def gf_xor_filter_loop rs' gf_gmult gf_power_entry[OF i]
    by (simp add: co_def locator_of_def)
  also have "\<dots> = ?Q"
    by (rule char2_quotient_even[symmetric])
      (use psi_degree[OF w] errs.root_at_locator[OF conn p] t in \<open>auto simp: locator_of_def\<close>)
  finally have den: "gf den = ?Q" .
  then have "den \<noteq> 0" using Q by (auto simp: gf_0)
  then have "gf (error_value rs' ?i) = gf num * inverse (gf den)"
    unfolding error_value_def Let_def num_def[symmetric] den_def[symmetric]
    by (simp add: gf_simps)
  then show ?thesis using Q by (simp add: num den)
qed

lemma length_correct_byte [simp]: "length (correct_byte rs i out) = length out"
  by (simp add: correct_byte_def Let_def)

lemma length_correct_bytes [simp]: "length (fold (correct_byte rs) locs out) = length out"
  by (induction locs arbitrary: out) auto

lemma correct_bytes_nth:
  assumes "distinct locs" "\<forall>i\<in>set locs. i < length out" "q < length out"
  shows "fold (correct_byte rs) locs out ! q =
           (if location out q \<in> set locs then out ! q XOR error_value rs (location out q) else out ! q)"
  using assms
proof (induction locs arbitrary: out)
  case (Cons i locs)
  let ?out = "correct_byte rs i out"
  have loc: "location ?out q = location out q" by (simp add: location_def)
  have eq: "length out - i - 1 = q \<longleftrightarrow> i = location out q"
    using Cons.prems by (auto simp: location_def)
  have "?out ! q = (if i = location out q then out ! q XOR error_value rs i else out ! q)"
    using Cons.prems(2,3) eq by (auto simp: correct_byte_def Let_def nth_list_update)
  then show ?case
    using Cons.IH[of ?out] Cons.prems loc by (auto simp: correct_byte_def Let_def)
qed simp

lemma correct_bytes_restore:
  assumes w: "received n c r rs"
    and rs': "psi rs' = psi (berlekampMassey rs)" "omega rs' = omega (berlekampMassey rs)"
      "n_degree_max rs' = 2 * n"
  shows "fold (correct_byte rs') (error_locs (findRoots (berlekampMassey rs))) r = c"
proof (rule nth_equalityI)
  let ?locs = "error_locs (findRoots (berlekampMassey rs))"
  note locs = error_locs_are_locations[OF w]
  show "length (fold (correct_byte rs') ?locs r) = length c"
    using receivedD(4)[OF w] by simp
  fix q assume "q < length (fold (correct_byte rs') ?locs r)"
  then have q: "q < length r" by simp
  have "fold (correct_byte rs') ?locs r ! q =
      (if location r q \<in> set ?locs then r ! q XOR error_value rs' (location r q) else r ! q)"
    by (rule correct_bytes_nth) (use q locs location_less[OF w] in auto)
  also have "location r q \<in> set ?locs \<longleftrightarrow> q \<in> error_positions c r"
  proof
    assume "location r q \<in> set ?locs"
    then obtain p where p: "p \<in> error_positions c r" "location r q = location r p"
      using locs(1) by auto
    then have "q = p" using q by (auto simp: location_def error_positions_def split: if_splits)
    then show "q \<in> error_positions c r" using p by simp
  qed (use locs(1) in auto)
  also have "(if q \<in> error_positions c r then r ! q XOR error_value rs' (location r q) else r ! q) = c ! q"
  proof (cases "q \<in> error_positions c r")
    case True
    have "gf (r ! q XOR error_value rs' (location r q)) = gf (c ! q)"
      using error_value_correct[OF w True rs']
      by (simp add: gf_simps error_at_def algebra_simps)
    then show ?thesis using True by simp
  next
    case False
    then show ?thesis using q receivedD(4,5)[OF w] by (auto simp: error_positions_def)
  qed
  finally show "fold (correct_byte rs') ?locs r ! q = c ! q" .
qed

lemma correctErrors_restores:
  assumes w: "received n c r rs" and some: "error_positions c r \<noteq> {}"
  shows "bytes_out (correctErrors rs) = c" "corrected (correctErrors rs)"
    "n_errors (correctErrors rs) = Some (card (error_positions c r))"
proof -
  let ?rs = "(findRoots (berlekampMassey rs))\<lparr>corrected := False\<rparr>"
  let ?locs = "error_locs (findRoots (berlekampMassey rs))"
  have frame: "n_ec_bytes ?rs = n" "n_degree_max ?rs = 2 * n" "bytes_in ?rs = r" "bytes_out ?rs = r"
    "psi ?rs = psi (berlekampMassey rs)" "omega ?rs = omega (berlekampMassey rs)"
    using receivedD(7,8,10,11)[OF w] by (simp_all add: findRoots_def berlekampMassey_def Let_def)
  have n0: "length ?locs = card (error_positions c r)" by (rule length_error_locs[OF w])
  have pos: "0 < card (error_positions c r)"
    using some by (simp add: card_gt_0_iff errs.fin)
  have inside: "\<not> (\<exists>e\<in>set ?locs. length (bytes_in ?rs) \<le> e)"
    using error_locs_are_locations(1)[OF w] location_less[OF w] frame(3) by force
  have "\<not> n_ec_bytes ?rs < 2 * length (error_locs ?rs)"
    using n0 receivedD(6)[OF w] frame(1) by simp
  then have "correctErrors rs = ?rs\<lparr>bytes_out := fold (correct_byte ?rs) ?locs (bytes_out ?rs),
      corrected := True\<rparr>"
    unfolding correctErrors_def Let_def using n0 pos inside by simp
  then show "bytes_out (correctErrors rs) = c" "corrected (correctErrors rs)"
    using correct_bytes_restore[OF w frame(5,6,2)] frame(4) by simp_all
  show "n_errors (correctErrors rs) = Some (card (error_positions c r))"
    using n0 \<open>correctErrors rs = _\<close> by (simp add: findRoots_def Let_def)
qed

lemma code_words_far_apart:
  assumes "code_word n c" "code_word n r" "length c = length r" "length r \<le> 255" "n < 511"
    "card (error_positions c r) \<le> n"
  shows "c = r"
proof -
  have "(\<Sum>k\<in>error_positions c r. error_at c r k * locator_of r k ^ m) = 0"
    if "m < card (error_positions c r)" for m
    using syndrome_power_sum[OF assms(1,3,4), of m] assms(2,5,6) that
    by (simp add: code_word_def power_sums_def gf_simps)
  then have "\<forall>k\<in>error_positions c r. error_at c r k = 0"
    by (rule power_sums_zero[OF errs.fin errs.inj])
  then have "error_positions c r = {}" using errs.e_nonzero by blast
  then show ?thesis using assms(3,4) by (auto simp: error_positions_def intro: nth_equalityI)
qed

lemma decode_corrects:
  assumes rs: "rs_ok n rs" and n: "2 \<le> n" "n < 511" and c: "code_word n c"
    and len: "length c = length r" "length r \<le> 255" "n \<le> length r"
    and few: "2 * card (error_positions c r) \<le> n"
  shows "snd (decode rs r) = take (length c - n) c" "corrected (fst (decode rs r))"
    "error_positions c r \<noteq> {} \<Longrightarrow>
       n_errors (fst (decode rs r)) = Some (card (error_positions c r))"
proof -
  let ?rs1 = "rs\<lparr>bytes_in := r, bytes_out := r\<rparr>"
  obtain rs2 ne where calc: "calculateSyndroms ?rs1 = (rs2, ne)" by force
  have frame: "n_ec_bytes rs2 = n" "n_degree_max rs2 = 2 * n" "bytes_in rs2 = r" "bytes_out rs2 = r"
    "syndroms rs2 = map (syndrome r) [0..<n]"
    using calc rs by (auto simp: calculateSyndroms_def Let_def rs_ok_def)
  have w: "received n c r rs2"
    using frame n c len few by (simp add: received_def)
  have ne: "ne = 0 \<longleftrightarrow> code_word n r"
    using no_syndroms_iff[of ?rs1] calc rs by (simp add: rs_ok_def)
  have "(error_positions c r = {} \<or> ne > 0) \<and> (ne = 0 \<longrightarrow> c = r)"
    using ne code_words_far_apart[OF c _ len(1,2) n(2)] few
    by (auto simp: error_positions_def)
  moreover have "error_positions c r = {} \<Longrightarrow> c = r"
    using len by (auto simp: error_positions_def intro: nth_equalityI split: if_splits)
  ultimately consider "ne = 0" "c = r" | "0 < ne" "error_positions c r \<noteq> {}"
    using ne c by (cases "ne = 0") auto
  then have "bytes_out (fst (decode rs r)) = c \<and> corrected (fst (decode rs r)) \<and>
      (error_positions c r \<noteq> {} \<longrightarrow>
         n_errors (fst (decode rs r)) = Some (card (error_positions c r)))"
  proof cases
    case 1
    then show ?thesis using calc frame by (simp add: decode_def Let_def error_positions_def)
  next
    case 2
    then show ?thesis
      using correctErrors_restores[OF w 2(2)] calc by (simp add: decode_def Let_def)
  qed
  moreover have "snd (decode rs r) =
      js_slice (bytes_out (fst (decode rs r))) 0
        (int (length (bytes_out (fst (decode rs r)))) - int (n_ec_bytes (fst (decode rs r))))"
    by (simp add: decode_def Let_def split: prod.splits)
  ultimately show "snd (decode rs r) = take (length c - n) c" "corrected (fst (decode rs r))"
    "error_positions c r \<noteq> {} \<Longrightarrow>
       n_errors (fst (decode rs r)) = Some (card (error_positions c r))"
    using js_slice_prefix[of c "length c - n"] len rs
    by (auto simp: of_nat_diff frame_simps rs_ok_def)
qed

section \<open>Properties\<close>

text \<open>
  C1: A block whose bytes were damaged in transit is restored. Encode a message with n parity
  bytes, change any of the bytes of the block in at most n/2 places (blocks of up to 255 bytes,
  as the source uses them): decode returns the message, marks the block corrected, and counts
  exactly the damaged bytes. The encoder and the decoder may be fresh objects or ones that have
  been used before.
\<close>

theorem decode_corrects_errors:
  assumes "rs_ok n enc" and "rs_ok n dec" and "2 \<le> n"
    and "length msg + n \<le> 255" and "length r = length msg + n"
    and "2 * card {p. p < length r \<and> (msg @ snd (encode enc msg)) ! p \<noteq> r ! p} \<le> n"
  shows "snd (decode dec r) = msg \<and> corrected (fst (decode dec r)) \<and>
    (msg @ snd (encode enc msg) \<noteq> r \<longrightarrow>
       n_errors (fst (decode dec r)) =
         Some (card {p. p < length r \<and> (msg @ snd (encode enc msg)) ! p \<noteq> r ! p}))"
proof -
  let ?c = "msg @ snd (encode enc msg)"
  have c: "code_word n ?c" by (rule encode_code_word) (use assms in auto)
  have len: "length ?c = length r" "length r \<le> 255" "n \<le> length r"
    using assms by (simp_all add: length_parity)
  have pos: "error_positions ?c r = {p. p < length r \<and> ?c ! p \<noteq> r ! p}"
    using len by (simp add: error_positions_def)
  have ne: "error_positions ?c r \<noteq> {}" if "?c \<noteq> r"
  proof
    assume "error_positions ?c r = {}"
    then have "?c = r" using len(1) unfolding pos by (intro nth_equalityI) auto
    then show False using that by simp
  qed
  have n: "n < 511" using assms by simp
  note d = decode_corrects[OF assms(2,3) n c len, unfolded pos, OF assms(6)]
  show ?thesis using d ne[unfolded pos] assms(1) by (auto simp: length_parity)
qed

theorem decode_corrects_errors_witness:
  "snd (decode (new_ReedSolomon 2) (([72, 105] @ snd (encode (new_ReedSolomon 2) [72, 105]))[1 := 33]))
     = [72, 105]"
proof -
  let ?c = "[72, 105] @ snd (encode (new_ReedSolomon 2) [72, 105])"
  have len: "length ?c = 4" by (simp add: length_parity[of 2])
  have "card {p. p < length (?c[1 := 33]) \<and> ?c ! p \<noteq> ?c[1 := 33] ! p} \<le> card {1 :: nat}"
    by (rule card_mono) (auto simp: nth_list_update simp del: append.simps)
  then have one: "2 * card {p. p < length (?c[1 := 33]) \<and> ?c ! p \<noteq> ?c[1 := 33] ! p} \<le> 2"
    by simp
  show ?thesis
    by (rule decode_corrects_errors[THEN conjunct1, OF rs_ok_new rs_ok_new _ _ _ one])
      (use len in \<open>simp_all del: append.simps\<close>)
qed

text \<open>
  Decoding what was encoded, with nothing damaged, gives the message back and marks the
  block corrected, for every number of parity bytes the tables allow and messages of any length.
\<close>

lemma decode_encode:
  assumes "rs_ok n enc" and "rs_ok n dec" and "0 < n" and "n < 511"
  shows "snd (decode dec (msg @ snd (encode enc msg))) = msg \<and>
    corrected (fst (decode dec (msg @ snd (encode enc msg))))"
  using decode_code_word[OF assms(2) encode_code_word[OF assms(1,3,4)], of msg]
  by (simp add: length_parity[OF assms(1)])

text \<open>
  C2: Two different messages of the same length have code words that differ in more than n of
  their bytes, so no damage of up to n bytes turns one block into another unnoticed.
\<close>

theorem encode_distance:
  assumes "rs_ok n rs" and "0 < n" and "length msg + n \<le> 255"
    and "length msg' = length msg" and "msg \<noteq> msg'"
  shows "n < card {p. p < length msg + n \<and>
    (msg @ snd (encode rs msg)) ! p \<noteq> (msg' @ snd (encode rs msg')) ! p}"
proof (rule ccontr)
  let ?c = "msg @ snd (encode rs msg)" and ?r = "msg' @ snd (encode rs msg')"
  assume a: "\<not> ?thesis"
  have "?c = ?r"
    by (rule code_words_far_apart[of n])
      (use assms a in \<open>auto intro!: encode_code_word simp: length_parity error_positions_def\<close>)
  then show False using assms by simp
qed

theorem encode_distance_witness:
  "3 < card {p. p < length [1 :: byte, 2] + 3 \<and>
    ([1, 2] @ snd (encode (new_ReedSolomon 3) [1, 2])) ! p \<noteq>
    ([1, 3] @ snd (encode (new_ReedSolomon 3) [1, 3])) ! p}"
  by (rule encode_distance) simp_all

text \<open>
  C3: genPoly returns the product of the factors x + a^i for i below n: it is monic of degree n,
  has no coefficients above that, and vanishes at the first n powers of the generator.
\<close>

theorem genPoly_roots:
  assumes "0 < n" and "n < 511"
  shows "at (genPoly (2 * n) n) n = 1 \<and> (\<forall>i>n. at (genPoly (2 * n) n) i = 0) \<and>
    (\<forall>j<n. fold (\<lambda>i s. s XOR gmult (at (genPoly (2 * n) n) i) (apow (i * j))) [0..<n + 1] 0 = 0)"
proof -
  let ?g = "genPoly (2 * n) n"
  have g: "is_gen ?g n" by (rule genPoly_is_gen[OF assms])
  have "fold (\<lambda>i s. s XOR gmult (at ?g i) (apow (i * j))) [0..<n + 1] 0 = 0" if "j < n" for j
  proof -
    have "gf (fold (\<lambda>i s. s XOR gmult (at ?g i) (apow (i * j))) [0..<n + 1] 0) =
        ev (co ?g) n (alpha ^ j)"
      unfolding gf_xor_loop ev_def
      by (simp add: gf_simps co_def lessThan_Suc_atMost mult.commute flip: power_mult)
    also have "\<dots> = 0" using g that by (simp add: is_gen_def)
    finally show ?thesis by simp
  qed
  moreover have "at ?g n = 1"
    using g by (metis co_def gf_1 gf_eq_iff is_gen_def)
  moreover have "\<forall>i>n. at ?g i = 0"
    using g by (simp add: co_def is_gen_def)
  ultimately show ?thesis by blast
qed

theorem genPoly_roots_witness: "at (genPoly (2 * 10) 10) 10 = 1"
  using genPoly_roots[of 10] by simp

end
