(* ===== verification/QrTables.thy ===== *)
theory QrTables
  imports ReedSolomon
begin

text \<open>
  The constant tables of \<open>QRCodeDecode.prototype\<close> (qrcodedecode.js) and the capacity
  computations that read them. A version is a number from 1 to 40 and an error correction
  level one of L = 1, M = 0, Q = 3 and H = 2; both index the tables. Entries that are null in
  the source, and that no code reads, are 0 or the empty list here.
\<close>

section \<open>Modes, levels and exceptions\<close>

definition MODE_Numeric :: nat where [simp]: "MODE_Numeric = 1"
definition MODE_AlphaNumeric :: nat where [simp]: "MODE_AlphaNumeric = 2"
definition MODE_EightBit :: nat where [simp]: "MODE_EightBit = 4"
definition MODE_Terminator :: nat where [simp]: "MODE_Terminator = 0"

definition EC_LEVEL_L :: nat where [simp]: "EC_LEVEL_L = 1"
definition EC_LEVEL_M :: nat where [simp]: "EC_LEVEL_M = 0"
definition EC_LEVEL_Q :: nat where [simp]: "EC_LEVEL_Q = 3"
definition EC_LEVEL_H :: nat where [simp]: "EC_LEVEL_H = 2"

text \<open>
  The exceptions the codec throws, one constructor per message. \<open>Not_A_Number\<close> is no
  exception of the source: it marks the runs in which an array entry would become NaN
  because it was added to before it was assigned; no run of the encoder gets there.
\<close>

datatype qr_error =
    Invalid_Alphanumeric code_unit
  | Invalid_Numeric code_unit
  | Unsupported_Mode nat
  | Unknown_Mode nat
  | Text_Too_Long
  | Text_Too_Long_For_All
  | Unable_To_Correct "uncorrected_reason option"
  | Not_A_Number
  | Low_Contrast
  | No_Image_Data
  | Not_Rectangular
  | No_Function_Pattern

section \<open>Tables\<close>

definition alignment_patterns :: "nat list list" where
  "alignment_patterns =
  [[], [], [6, 18], [6, 22], [6, 26], [6, 30], [6, 34], [6, 22, 38], [6, 24, 42],
   [6, 26, 46], [6, 28, 50], [6, 30, 54], [6, 32, 58], [6, 34, 62], [6, 26, 46, 66],
   [6, 26, 48, 70], [6, 26, 50, 74], [6, 30, 54, 78], [6, 30, 56, 82], [6, 30, 58, 86],
   [6, 34, 62, 90], [6, 28, 50, 72, 94], [6, 26, 50, 74, 98], [6, 30, 54, 78, 102],
   [6, 28, 54, 80, 106], [6, 32, 58, 84, 110], [6, 30, 58, 86, 114], [6, 34, 62, 90, 118],
   [6, 26, 50, 74, 98, 122], [6, 30, 54, 78, 102, 126], [6, 26, 52, 78, 104, 130],
   [6, 30, 56, 82, 108, 134], [6, 34, 60, 86, 112, 138], [6, 30, 58, 86, 114, 142],
   [6, 34, 62, 90, 118, 146], [6, 30, 54, 78, 102, 126, 150],
   [6, 24, 50, 76, 102, 128, 154], [6, 28, 54, 80, 106, 132, 158],
   [6, 32, 58, 84, 110, 136, 162], [6, 26, 54, 82, 110, 138, 166],
   [6, 30, 58, 86, 114, 142, 170]]"

definition version_info :: "nat list" where
  "version_info =
  [0, 0, 0, 0, 0, 0, 0, 0x7c94, 0x85bc, 0x9a99, 0xa4d3, 0xbbf6, 0xc762, 0xd847, 0xe60d,
   0xf928, 0x10b78, 0x1145d, 0x12a17, 0x13532, 0x149a6, 0x15683, 0x168c9, 0x177ec, 0x18ec4,
   0x191e1, 0x1afab, 0x1b08e, 0x1cc1a, 0x1d33f, 0x1ed75, 0x1f250, 0x209d5, 0x216f0,
   0x228ba, 0x2379f, 0x24b0b, 0x2542e, 0x26a64, 0x27541, 0x28c69]"

definition format_info :: "nat list" where
  "format_info =
  [0x5412, 0x5125, 0x5e7c, 0x5b4b, 0x45f9, 0x40ce, 0x4f97, 0x4aa0, 0x77c4, 0x72f3, 0x7daa,
   0x789d, 0x662f, 0x6318, 0x6c41, 0x6976, 0x1689, 0x13be, 0x1ce7, 0x19d0, 0x762, 0x255,
   0xd0c, 0x83b, 0x355f, 0x3068, 0x3f31, 0x3a06, 0x24b4, 0x2183, 0x2eda, 0x2bed]"

definition n_codewords :: "nat list" where
  "n_codewords =
  [0, 26, 44, 70, 100, 134, 172, 196, 242, 292, 346, 404, 466, 532, 581, 655, 733, 815,
   901, 991, 1085, 1156, 1258, 1364, 1474, 1588, 1706, 1828, 1921, 2051, 2185, 2323, 2465,
   2611, 2761, 2876, 3034, 3196, 3362, 3532, 3706]"

definition n_ec_codewords :: "nat list list" where
  "n_ec_codewords =
  [[], [10, 7, 17, 13], [16, 10, 28, 22], [26, 15, 44, 36], [36, 20, 64, 52],
   [48, 26, 88, 72], [64, 36, 112, 96], [72, 40, 130, 108], [88, 48, 156, 132],
   [110, 60, 192, 160], [130, 72, 224, 192], [150, 80, 264, 224], [176, 96, 308, 260],
   [198, 104, 352, 288], [216, 120, 384, 320], [240, 132, 432, 360], [280, 144, 480, 408],
   [308, 168, 532, 448], [338, 180, 588, 504], [364, 196, 650, 546], [416, 224, 700, 600],
   [442, 224, 750, 644], [476, 252, 816, 690], [504, 270, 900, 750], [560, 300, 960, 810],
   [588, 312, 1050, 870], [644, 336, 1110, 952], [700, 360, 1200, 1020],
   [728, 390, 1260, 1050], [784, 420, 1350, 1140], [812, 450, 1440, 1200],
   [868, 480, 1530, 1290], [924, 510, 1620, 1350], [980, 540, 1710, 1440],
   [1036, 570, 1800, 1530], [1064, 570, 1890, 1590], [1120, 600, 1980, 1680],
   [1204, 630, 2100, 1770], [1260, 660, 2220, 1860], [1316, 720, 2310, 1950],
   [1372, 750, 2430, 2040]]"

definition ec_blocks :: "nat list list list" where
  "ec_blocks =
  [[], [[1], [1], [1], [1]], [[1], [1], [1], [1]], [[1], [1], [2], [2]],
   [[2], [1], [4], [2]], [[2], [1], [2, 2], [2, 2]], [[4], [2], [4], [4]],
   [[4], [2], [4, 1], [2, 4]], [[2, 2], [2], [4, 2], [4, 2]],
   [[3, 2], [2], [4, 4], [4, 4]], [[4, 1], [2, 2], [6, 2], [6, 2]],
   [[1, 4], [4], [3, 8], [4, 4]], [[6, 2], [2, 2], [7, 4], [4, 6]],
   [[8, 1], [4], [12, 4], [8, 4]], [[4, 5], [3, 1], [11, 5], [11, 5]],
   [[5, 5], [5, 1], [11, 7], [5, 7]], [[7, 3], [5, 1], [3, 13], [15, 2]],
   [[10, 1], [1, 5], [2, 17], [1, 15]], [[9, 4], [5, 1], [2, 19], [17, 1]],
   [[3, 11], [3, 4], [9, 16], [17, 4]], [[3, 13], [3, 5], [15, 10], [15, 5]],
   [[17], [4, 4], [19, 6], [17, 6]], [[17], [2, 7], [34], [7, 16]],
   [[4, 14], [4, 5], [16, 14], [11, 14]], [[6, 14], [6, 4], [30, 2], [11, 16]],
   [[8, 13], [8, 4], [22, 13], [7, 22]], [[19, 4], [10, 2], [33, 4], [28, 6]],
   [[22, 3], [8, 4], [12, 28], [8, 26]], [[3, 23], [3, 10], [11, 31], [4, 31]],
   [[21, 7], [7, 7], [19, 26], [1, 37]], [[19, 10], [5, 10], [23, 25], [15, 25]],
   [[2, 29], [13, 3], [23, 28], [42, 1]], [[10, 23], [17], [19, 35], [10, 35]],
   [[14, 21], [17, 1], [11, 46], [29, 19]], [[14, 23], [13, 6], [59, 1], [44, 7]],
   [[12, 26], [12, 7], [22, 41], [39, 14]], [[6, 34], [6, 14], [2, 64], [46, 10]],
   [[29, 14], [17, 4], [24, 46], [49, 10]], [[13, 32], [4, 18], [42, 32], [48, 14]],
   [[40, 7], [20, 4], [10, 67], [43, 22]], [[18, 31], [19, 6], [20, 61], [34, 34]]]"

definition n_remainder_bits :: "nat list" where
  "n_remainder_bits =
  [0, 0, 7, 7, 7, 7, 7, 0, 0, 0, 0, 0, 0, 0, 3, 3, 3, 3, 3, 3, 3, 4, 4, 4, 4, 4, 4, 4, 3,
   3, 3, 3, 3, 3, 3, 0, 0, 0, 0, 0, 0]"

definition alphanum :: js_string where
  "alphanum = lit ''0123456789ABCDEFGHIJKLMNOPQRSTUVWXYZ $%*+-./:''"

definition alphanum_rev :: "(code_unit \<times> nat) list" where
  "alphanum_rev = map (\<lambda>(c, k). (of_char c, k))
  [(CHR ''0'', 0), (CHR ''1'', 1), (CHR ''2'', 2), (CHR ''3'', 3), (CHR ''4'', 4),
   (CHR ''5'', 5), (CHR ''6'', 6), (CHR ''7'', 7), (CHR ''8'', 8), (CHR ''9'', 9),
   (CHR ''A'', 10), (CHR ''B'', 11), (CHR ''C'', 12), (CHR ''D'', 13), (CHR ''E'', 14),
   (CHR ''F'', 15), (CHR ''G'', 16), (CHR ''H'', 17), (CHR ''I'', 18), (CHR ''J'', 19),
   (CHR ''K'', 20), (CHR ''L'', 21), (CHR ''M'', 22), (CHR ''N'', 23), (CHR ''O'', 24),
   (CHR ''P'', 25), (CHR ''Q'', 26), (CHR ''R'', 27), (CHR ''S'', 28), (CHR ''T'', 29),
   (CHR ''U'', 30), (CHR ''V'', 31), (CHR ''W'', 32), (CHR ''X'', 33), (CHR ''Y'', 34),
   (CHR ''Z'', 35), (CHR '' '', 36), (CHR ''$'', 37), (CHR ''%'', 38), (CHR ''*'', 39),
   (CHR ''+'', 40), (CHR ''-'', 41), (CHR ''.'', 42), (CHR ''/'', 43), (CHR '':'', 44)]"

text \<open>The two tables are inverse to each other.\<close>

lemma length_alphanum: "length alphanum = 45"
  by (simp add: alphanum_def)

lemma alphanum_rev_zip: "alphanum_rev = zip alphanum [0..<45]"
  by (simp add: alphanum_rev_def alphanum_def upt_conv_Cons)

lemma distinct_alphanum: "distinct alphanum"
  by (simp add: alphanum_def)

lemma alphanum_rev_Some:
  assumes "map_of alphanum_rev c = Some k"
  shows "k < 45" and "alphanum ! k = c"
  using map_of_SomeD[OF assms] unfolding alphanum_rev_zip
  by (auto simp: in_set_zip length_alphanum)

lemma alphanum_rev_nth: "k < 45 \<Longrightarrow> map_of alphanum_rev (alphanum ! k) = Some k"
  unfolding alphanum_rev_zip
  by (rule map_of_is_SomeI) (auto simp: in_set_zip length_alphanum distinct_alphanum map_fst_zip)

section \<open>Sizes and capacities\<close>

definition nCountBits :: "nat \<Rightarrow> nat \<Rightarrow> qr_error + nat" where
  "nCountBits mode version =
     (if mode = MODE_EightBit then (if version < 10 then Inr 8 else Inr 16)
      else if mode = MODE_AlphaNumeric then
        (if version < 10 then Inr 9 else if version < 27 then Inr 11 else Inr 13)
      else if mode = MODE_Numeric then
        (if version < 10 then Inr 10 else if version < 27 then Inr 12 else Inr 14)
      else Inl (Unknown_Mode mode))"

definition nModulesFromVersion :: "nat \<Rightarrow> nat" where
  "nModulesFromVersion version = 17 + 4 * version"

definition getDataCapacity :: "nat \<Rightarrow> nat \<Rightarrow> nat \<Rightarrow> qr_error + nat" where
  "getDataCapacity version level mode =
     (let n_data_codewords = n_codewords ! version - n_ec_codewords ! version ! level
      in bind_ok (nCountBits mode version) (\<lambda>count.
         let bits = 8 * n_data_codewords - 4 - count
         in if mode = MODE_AlphaNumeric then
              (let cap = bits div 11 * 2
               in Inr (if cap div 2 * 11 + 6 \<le> bits then cap + 1 else cap))
            else if mode = MODE_EightBit then Inr (bits div 8)
            else if mode = MODE_Numeric then
              (let cap = bits div 10 * 3
               in Inr (if cap div 3 * 10 + 4 \<le> bits
                       then (if cap div 3 * 10 + 7 \<le> bits then cap + 1 else cap) + 1
                       else cap))
            else Inl (Unsupported_Mode mode)))"

fun version_search :: "nat list \<Rightarrow> nat \<Rightarrow> nat \<Rightarrow> nat \<Rightarrow> qr_error + nat" where
  "version_search [] level mode len = Inl Text_Too_Long_For_All"
| "version_search (v # vs) level mode len =
     bind_ok (getDataCapacity v level mode) (\<lambda>cap.
       if len \<le> cap then Inr v else version_search vs level mode len)"

definition getVersionFromLength :: "nat \<Rightarrow> nat \<Rightarrow> nat \<Rightarrow> qr_error + nat" where
  "getVersionFromLength level mode len = version_search [1..<41] level mode len"

section \<open>What the tables promise\<close>

text \<open>
  The relations between the entries of one version and level that the block layout relies
  on: the error correction words divide evenly among the blocks, a single group of blocks
  divides the data words evenly, and with two groups the second one takes the remainder.
\<close>

definition sizes_ok :: "nat \<Rightarrow> nat \<Rightarrow> nat \<Rightarrow> nat list \<Rightarrow> bool" where
  "sizes_ok v nc ne e =
     (let nd = nc - ne; nb = sum_list e
      in ne < nc \<and> (length e = 1 \<or> length e = 2) \<and> 0 < nb \<and> ne mod nb = 0
         \<and> nd mod nb = (if length e = 1 then 0 else e ! 1) \<and> 7 \<le> ne div nb \<and> ne div nb \<le> 30
         \<and> nd div nb + 1 + ne div nb \<le> 255
         \<and> 8 \<le> nd \<and> nd \<le> 2956 \<and> (v < 10 \<longrightarrow> nd \<le> 232) \<and> (v < 27 \<longrightarrow> nd \<le> 1370))"

definition table_row_ok :: "nat \<Rightarrow> nat \<Rightarrow> bool" where
  "table_row_ok v l = sizes_ok v (n_codewords ! v) (n_ec_codewords ! v ! l) (ec_blocks ! v ! l)"

definition valid_level :: "nat \<Rightarrow> nat \<Rightarrow> bool" where
  "valid_level v l \<longleftrightarrow> 1 \<le> v \<and> v \<le> 40 \<and> l < 4"

lemma versions_upt:
  "[1, 2, 3, 4, 5, 6, 7, 8, 9, 10, 11, 12, 13, 14, 15, 16, 17, 18, 19, 20, 21,
     22, 23, 24, 25, 26, 27, 28, 29, 30, 31, 32, 33, 34, 35, 36, 37, 38, 39, 40] = [1::nat..<41]"
  by (simp add: upt_conv_Cons)

definition row_list :: "(nat \<times> nat \<times> nat list \<times> nat list list) list" where
  "row_list = zip [1, 2, 3, 4, 5, 6, 7, 8, 9, 10, 11, 12, 13, 14, 15, 16, 17, 18, 19, 20, 21,
     22, 23, 24, 25, 26, 27, 28, 29, 30, 31, 32, 33, 34, 35, 36, 37, 38, 39, 40]
     (zip (tl n_codewords) (zip (tl n_ec_codewords) (tl ec_blocks)))"

fun row4_ok :: "nat \<times> nat \<times> nat list \<times> nat list list \<Rightarrow> bool" where
  "row4_ok (v, nc, [ne0, ne1, ne2, ne3], [e0, e1, e2, e3]) =
     (sizes_ok v nc ne0 e0 \<and> sizes_ok v nc ne1 e1 \<and> sizes_ok v nc ne2 e2 \<and> sizes_ok v nc ne3 e3)"
| "row4_ok _ = False"

lemma row_list_ok: "list_all row4_ok row_list"
  by (simp add: row_list_def n_codewords_def n_ec_codewords_def ec_blocks_def sizes_ok_def Let_def)

lemma length_tables:
  "length n_codewords = 41" "length n_ec_codewords = 41" "length ec_blocks = 41"
  "length alignment_patterns = 41" "length version_info = 41" "length format_info = 32"
  by (simp_all add: n_codewords_def n_ec_codewords_def ec_blocks_def alignment_patterns_def
      version_info_def format_info_def)

lemma row_list_nth:
  "i < 40 \<Longrightarrow> row_list ! i =
     (Suc i, n_codewords ! Suc i, n_ec_codewords ! Suc i, ec_blocks ! Suc i)"
proof -
  assume i: "i < 40"
  show ?thesis
    using i unfolding row_list_def versions_upt by (simp add: length_tables nth_tl)
qed

lemma length_row_list: "length row_list = 40"
  by (simp add: row_list_def length_tables)

lemma row4_okD:
  assumes "row4_ok (v, nc, nes, es)" and "l < 4"
  shows "sizes_ok v nc (nes ! l) (es ! l)"
proof -
  have "l = 0 \<or> l = 1 \<or> l = 2 \<or> l = 3" using assms(2) by linarith
  then show ?thesis
    using assms(1) by (cases "(v, nc, nes, es)" rule: row4_ok.cases) auto
qed

lemma valid_level_row: "valid_level v l \<Longrightarrow> table_row_ok v l"
proof -
  assume v: "valid_level v l"
  then have v1: "v - 1 < 40" and "row4_ok (row_list ! (v - 1))"
    using row_list_ok unfolding list_all_length by (auto simp: valid_level_def length_row_list)
  then show ?thesis
    using v row_list_nth[OF v1] row4_okD[of v "n_codewords ! v" "n_ec_codewords ! v" "ec_blocks ! v" l]
    by (simp add: table_row_ok_def valid_level_def)
qed

text \<open>
  The version search returns the smallest version that is large enough, and fails only when
  none is.
\<close>

lemma version_search_Inr:
  assumes "version_search vs level mode len = Inr v"
  obtains us ws cap where "vs = us @ v # ws" and "getDataCapacity v level mode = Inr cap"
    and "len \<le> cap" and "\<And>u. u \<in> set us \<Longrightarrow> \<exists>c. getDataCapacity u level mode = Inr c \<and> c < len"
proof -
  have "\<exists>us ws cap. vs = us @ v # ws \<and> getDataCapacity v level mode = Inr cap \<and> len \<le> cap \<and>
          (\<forall>u\<in>set us. \<exists>c. getDataCapacity u level mode = Inr c \<and> c < len)"
    using assms
  proof (induction vs)
    case (Cons u vs)
    obtain c where c: "getDataCapacity u level mode = Inr c"
      using Cons.prems by (auto simp: bind_ok_Inr_iff)
    show ?case
    proof (cases "len \<le> c")
      case True
      then show ?thesis using Cons.prems c by (intro exI[of _ "[]"] exI[of _ vs] exI[of _ c]) auto
    next
      case False
      then obtain us ws cap where "vs = us @ v # ws" "getDataCapacity v level mode = Inr cap"
          "len \<le> cap" "\<forall>u\<in>set us. \<exists>c. getDataCapacity u level mode = Inr c \<and> c < len"
        using Cons.IH Cons.prems c by auto
      then show ?thesis
        using False c by (intro exI[of _ "u # us"] exI[of _ ws] exI[of _ cap]) auto
    qed
  qed simp
  then show thesis using that by blast
qed

lemma getDataCapacity_known_mode:
  "mode \<in> {MODE_Numeric, MODE_AlphaNumeric, MODE_EightBit} \<Longrightarrow> \<exists>cap. getDataCapacity v l mode = Inr cap"
  by (auto simp: getDataCapacity_def nCountBits_def Let_def)

lemma version_search_Inl:
  assumes "mode \<in> {MODE_Numeric, MODE_AlphaNumeric, MODE_EightBit}"
    and "version_search vs level mode len = Inl e"
  shows "e = Text_Too_Long_For_All
    \<and> (\<forall>u\<in>set vs. \<exists>c. getDataCapacity u level mode = Inr c \<and> c < len)"
  using assms(2)
proof (induction vs)
  case (Cons u vs)
  obtain c where "getDataCapacity u level mode = Inr c"
    using getDataCapacity_known_mode[OF assms(1)] by blast
  then show ?case using Cons by (auto split: if_splits)
qed simp

lemma getVersionFromLength_fits:
  assumes "getVersionFromLength level mode len = Inr v"
  obtains cap where "1 \<le> v" "v \<le> 40" "getDataCapacity v level mode = Inr cap" "len \<le> cap"
proof -
  obtain us ws cap where us: "[1..<41] = us @ v # ws" and cap: "getDataCapacity v level mode = Inr cap" "len \<le> cap"
    using assms version_search_Inr unfolding getVersionFromLength_def by metis
  have "v \<in> set [1..<41]" unfolding us by simp
  then show thesis using that cap by simp
qed

text \<open>
  C5: \<open>getVersionFromLength\<close> returns the smallest version from 1 to 40 whose capacity is at
  least the length of the text.
\<close>

theorem getVersionFromLength_least:
  assumes "getVersionFromLength level mode len = Inr v"
  shows "1 \<le> v \<and> v \<le> 40 \<and> (\<exists>cap. getDataCapacity v level mode = Inr cap \<and> len \<le> cap) \<and>
    (\<forall>u. 1 \<le> u \<and> u < v \<longrightarrow> (\<exists>cap. getDataCapacity u level mode = Inr cap \<and> cap < len))"
proof -
  obtain us ws cap where us: "[1..<41] = us @ v # ws"
    and cap: "getDataCapacity v level mode = Inr cap" "len \<le> cap"
    and less: "\<And>u. u \<in> set us \<Longrightarrow> \<exists>c. getDataCapacity u level mode = Inr c \<and> c < len"
    using assms version_search_Inr unfolding getVersionFromLength_def by metis
  have v: "v \<in> set [1..<41]" unfolding us by simp
  have "us = [1..<v]"
  proof -
    have "v = [1..<41] ! length us" unfolding us by simp
    moreover have "length us < length [1..<41]" unfolding us by simp
    ultimately have "v = Suc (length us)" by simp
    moreover have "us = take (length us) [1..<41]" unfolding us by simp
    ultimately show ?thesis using v by (simp add: take_upt)
  qed
  then show ?thesis using v cap less by auto
qed

theorem getVersionFromLength_least_witness:
  "getVersionFromLength EC_LEVEL_M MODE_EightBit 15 = Inr 2 \<and>
   (\<exists>cap. getDataCapacity 1 EC_LEVEL_M MODE_EightBit = Inr cap \<and> cap < 15)"
proof -
  have "getVersionFromLength EC_LEVEL_M MODE_EightBit 15 = Inr 2"
    by (simp add: getVersionFromLength_def getDataCapacity_def nCountBits_def upt_conv_Cons
        n_codewords_def n_ec_codewords_def)
  then show ?thesis using getVersionFromLength_least by fastforce
qed

end
