(* ===== verification/QrBits.thy ===== *)
theory QrBits
  imports QrTables
begin

text \<open>
  The bit stream of a QR symbol: \<open>addTextImplementation\<close> and \<open>appendPadding\<close>, which write a
  text into the data words, and \<open>extractData\<close>, which reads it back (qrcodedecode.js). The
  object is a record; its byte arrays are lists of numbers, because the writer adds to array
  entries and can exceed a byte when it is given a character above 255. The lemmas read the
  arrays as lists of bits, and the theorems show that reading gives back what was written in
  each of the three modes.
\<close>

section \<open>The object\<close>

text \<open>
  The fields of \<open>QRCodeDecode\<close>. The source stores in \<open>data\<close> the data words while encoding
  and the text while decoding; here they are \<open>data\<close> and \<open>data_text\<close>. The field \<open>mask\<close> is
  \<open>mask_no\<close>. An entry of \<open>pixels\<close> and \<open>functional_pattern\<close> is addressed by column, then row.
\<close>

record qr =
  version :: nat
  error_correction_level :: nat
  mask_no :: nat
  module_size :: nat
  n_modules :: nat
  bit_idx :: nat
  n_data_codewords :: nat
  n_block_ec_words :: nat
  block_data_lengths :: "nat list"
  block_indices :: "nat list list"
  data :: "nat list"
  data_text :: js_string
  bytes :: "nat list"
  codewords :: "nat list"
  functional_pattern :: "bool list list"
  pixels :: "bool list list"
  error_counts :: "nat option list"
  error_grade :: nat

definition new_qr :: qr where
  "new_qr = \<lparr>version = 0, error_correction_level = 0, mask_no = 0, module_size = 0,
     n_modules = 0, bit_idx = 0, n_data_codewords = 0, n_block_ec_words = 0,
     block_data_lengths = [], block_indices = [], data = [], data_text = [], bytes = [],
     codewords = [], functional_pattern = [], pixels = [], error_counts = [], error_grade = 0\<rparr>"

section \<open>Writing\<close>

text \<open>
  \<open>appendBits\<close> shifts the value into a 24-bit window that starts at the byte of the position.
  The two later bytes of the window are overwritten and the first one is added to. The
  numbers are 32 bits wide inside the shifts.
\<close>

definition appendBits :: "nat list \<Rightarrow> nat \<Rightarrow> nat \<Rightarrow> nat \<Rightarrow> qr_error + nat list" where
  "appendBits a pos len value =
     (let byteIndex = pos div 8;
          shift = 24 - pos mod 8 - len;
          v = push_bit shift (of_nat value :: 32 word);
          a2 = js_set 0 a (byteIndex + 2) (unat (v AND 0xFF));
          v1 = drop_bit 8 v;
          a1 = js_set 0 a2 (byteIndex + 1) (unat (v1 AND 0xFF));
          v0 = drop_bit 8 v1
      in if byteIndex < length a
         then Inr (a1[byteIndex := a1 ! byteIndex + unat (v0 AND 0xFF)])
         else Inl Not_A_Number)"

text \<open>Every call of \<open>appendBits\<close> is followed by the same step of the bit index.\<close>

definition append_field :: "qr \<Rightarrow> nat \<Rightarrow> nat \<Rightarrow> qr_error + qr" where
  "append_field qr len value =
     bind_ok (appendBits (data qr) (bit_idx qr) len value) (\<lambda>d.
       Inr (qr\<lparr>data := d, bit_idx := bit_idx qr + len\<rparr>))"

definition getAlphaNum :: "code_unit \<Rightarrow> qr_error + nat" where
  "getAlphaNum ch =
     (case map_of alphanum_rev ch of
        None \<Rightarrow> Inl (Invalid_Alphanumeric ch)
      | Some k \<Rightarrow> Inr k)"

fun addAlphaNum_chars :: "qr \<Rightarrow> js_string \<Rightarrow> qr_error + qr" where
  "addAlphaNum_chars qr (c1 # c2 # cs) =
     bind_ok (getAlphaNum c1) (\<lambda>k1. bind_ok (getAlphaNum c2) (\<lambda>k2.
       bind_ok (append_field qr 11 (45 * k1 + k2)) (\<lambda>qr. addAlphaNum_chars qr cs)))"
| "addAlphaNum_chars qr [c] = bind_ok (getAlphaNum c) (append_field qr 6)"
| "addAlphaNum_chars qr [] = Inr qr"

definition addAlphaNum :: "qr \<Rightarrow> js_string \<Rightarrow> qr_error + qr" where
  "addAlphaNum qr text =
     bind_ok (nCountBits MODE_AlphaNumeric (version qr)) (\<lambda>n_count_bits.
       bind_ok (append_field qr n_count_bits (length text)) (\<lambda>qr.
         addAlphaNum_chars qr text))"

fun add8bit_chars :: "qr \<Rightarrow> js_string \<Rightarrow> qr_error + qr" where
  "add8bit_chars qr (c # cs) = bind_ok (append_field qr 8 (unat c)) (\<lambda>qr. add8bit_chars qr cs)"
| "add8bit_chars qr [] = Inr qr"

definition add8bit :: "qr \<Rightarrow> js_string \<Rightarrow> qr_error + qr" where
  "add8bit qr text =
     bind_ok (nCountBits MODE_EightBit (version qr)) (\<lambda>n_count_bits.
       bind_ok (append_field qr n_count_bits (length text)) (\<lambda>qr.
         add8bit_chars qr text))"

fun numeric_digits :: "js_string \<Rightarrow> qr_error + nat list" where
  "numeric_digits (c # cs) =
     (let ch = int (unat c) - 48
      in if ch < 0 \<or> 9 < ch then Inl (Invalid_Numeric c)
         else bind_ok (numeric_digits cs) (\<lambda>num. Inr (nat ch # num)))"
| "numeric_digits [] = Inr []"

fun addNumeric_digits :: "qr \<Rightarrow> nat list \<Rightarrow> qr_error + qr" where
  "addNumeric_digits qr (d1 # d2 # d3 # ds) =
     bind_ok (append_field qr 10 (100 * d1 + 10 * d2 + d3)) (\<lambda>qr. addNumeric_digits qr ds)"
| "addNumeric_digits qr [d1, d2] = append_field qr 7 (10 * d1 + d2)"
| "addNumeric_digits qr [d] = append_field qr 4 d"
| "addNumeric_digits qr [] = Inr qr"

definition addNumeric :: "qr \<Rightarrow> js_string \<Rightarrow> qr_error + qr" where
  "addNumeric qr text =
     bind_ok (nCountBits MODE_Numeric (version qr)) (\<lambda>n_count_bits.
       bind_ok (append_field qr n_count_bits (length text)) (\<lambda>qr.
         bind_ok (numeric_digits text) (addNumeric_digits qr)))"

definition add_segment :: "qr \<Rightarrow> nat \<Rightarrow> js_string \<Rightarrow> qr_error + qr" where
  "add_segment qr mode text =
     (if mode = MODE_AlphaNumeric then addAlphaNum qr text
      else if mode = MODE_EightBit then add8bit qr text
      else if mode = MODE_Numeric then addNumeric qr text
      else Inl (Unsupported_Mode mode))"

definition addTextImplementation :: "qr \<Rightarrow> nat \<Rightarrow> js_string \<Rightarrow> qr_error + qr" where
  "addTextImplementation qr mode text =
     bind_ok (append_field qr 4 mode) (\<lambda>qr.
       if mode = MODE_Terminator then Inr qr
       else bind_ok (add_segment qr mode text) (\<lambda>qr.
         if 8 * n_data_codewords qr < bit_idx qr then Inl Text_Too_Long else Inr qr))"

function pad_from :: "nat \<Rightarrow> nat \<Rightarrow> nat list \<Rightarrow> nat list" where
  "pad_from n i a =
     (if i < n then pad_from n (i + 2) (js_set 0 (js_set 0 a i 0xEC) (i + 1) 0x11) else a)"
  by pat_completeness auto
termination by (relation "measure (\<lambda>(n, i, a). n - i)") auto

declare pad_from.simps [simp del]

definition appendPadding :: "qr \<Rightarrow> qr" where
  "appendPadding qr =
     qr\<lparr>data := pad_from (n_data_codewords qr)
          (nat ((int (bit_idx qr) - 1) div 8 + 1)) (data qr)\<rparr>"

section \<open>Reading\<close>

text \<open>An entry past the end of an array is undefined, which the bitwise operators read as 0.\<close>

definition js_bits :: "nat list \<Rightarrow> nat \<Rightarrow> 32 word" where
  "js_bits a i = (if i < length a then of_nat (a ! i) else 0)"

definition extract_bits :: "nat list \<Rightarrow> nat \<Rightarrow> nat \<Rightarrow> nat" where
  "extract_bits a pos len =
     (let shift = 24 - pos mod 8 - len;
          msk = push_bit len 1 - 1 :: 32 word;
          byteIndex = pos div 8
      in unat (signed_drop_bit shift
           ((push_bit 16 (js_bits a byteIndex) OR push_bit 8 (js_bits a (byteIndex + 1)))
             OR js_bits a (byteIndex + 2)) AND msk))"

definition extract_field :: "qr \<Rightarrow> nat \<Rightarrow> nat \<times> qr" where
  "extract_field qr len =
     (extract_bits (bytes qr) (bit_idx qr) len, qr\<lparr>bit_idx := bit_idx qr + len\<rparr>)"

fun extract8bit_chars :: "nat \<Rightarrow> qr \<Rightarrow> js_string \<times> qr" where
  "extract8bit_chars 0 qr = ([], qr)"
| "extract8bit_chars (Suc n) qr =
     (let (x, qr) = extract_field qr 8; (cs, qr) = extract8bit_chars n qr
      in (of_nat x # cs, qr))"

definition extract8bit :: "qr \<Rightarrow> qr_error + js_string \<times> qr" where
  "extract8bit qr =
     bind_ok (nCountBits MODE_EightBit (version qr)) (\<lambda>n_count_bits.
       let (n, qr) = extract_field qr n_count_bits in Inr (extract8bit_chars n qr))"

text \<open>
  A table index past the end gives undefined, and \<open>+=\<close> appends the nine characters of that
  word to the text.
\<close>

definition alphanum_at :: "nat \<Rightarrow> js_string" where
  "alphanum_at k = (if k < length alphanum then [alphanum ! k] else lit ''undefined'')"

fun extractAlphanum_chars :: "nat \<Rightarrow> qr \<Rightarrow> js_string \<times> qr" where
  "extractAlphanum_chars (Suc (Suc n)) qr =
     (let (x, qr) = extract_field qr 11; (cs, qr) = extractAlphanum_chars n qr
      in (alphanum_at (x div 45) @ alphanum_at (x mod 45) @ cs, qr))"
| "extractAlphanum_chars (Suc 0) qr =
     (let (x, qr) = extract_field qr 6 in (alphanum_at x, qr))"
| "extractAlphanum_chars 0 qr = ([], qr)"

definition extractAlphanum :: "qr \<Rightarrow> qr_error + js_string \<times> qr" where
  "extractAlphanum qr =
     bind_ok (nCountBits MODE_AlphaNumeric (version qr)) (\<lambda>n_count_bits.
       let (n, qr) = extract_field qr n_count_bits in Inr (extractAlphanum_chars n qr))"

fun extractNumeric_chars :: "nat \<Rightarrow> qr \<Rightarrow> js_string \<times> qr" where
  "extractNumeric_chars (Suc (Suc (Suc n))) qr =
     (let (x, qr) = extract_field qr 10; (cs, qr) = extractNumeric_chars n qr
      in (map of_nat [48 + x div 100, 48 + x mod 100 div 10, 48 + x mod 10] @ cs, qr))"
| "extractNumeric_chars (Suc (Suc 0)) qr =
     (let (x, qr) = extract_field qr 7 in (map of_nat [48 + x div 10, 48 + x mod 10], qr))"
| "extractNumeric_chars (Suc 0) qr =
     (let (x, qr) = extract_field qr 4 in ([of_nat (48 + x)], qr))"
| "extractNumeric_chars 0 qr = ([], qr)"

definition extractNumeric :: "qr \<Rightarrow> qr_error + js_string \<times> qr" where
  "extractNumeric qr =
     bind_ok (nCountBits MODE_Numeric (version qr)) (\<lambda>n_count_bits.
       let (n, qr) = extract_field qr n_count_bits in Inr (extractNumeric_chars n qr))"

definition extract_segment :: "nat \<Rightarrow> qr \<Rightarrow> qr_error + js_string \<times> qr" where
  "extract_segment mode qr =
     (if mode = MODE_AlphaNumeric then extractAlphanum qr
      else if mode = MODE_EightBit then extract8bit qr
      else if mode = MODE_Numeric then extractNumeric qr
      else Inl (Unsupported_Mode mode))"

text \<open>
  Every field that is read moves the bit index forward and changes nothing else, so the loop
  over the segments ends.
\<close>

lemma extract_field_frame [frame_simps]:
  "extract_field qr len = (extract_bits (bytes qr) (bit_idx qr) len, qr\<lparr>bit_idx := bit_idx qr + len\<rparr>)"
  by (simp add: extract_field_def)

lemma extract8bit_chars_frame [frame_simps]:
  "snd (extract8bit_chars n qr) = qr\<lparr>bit_idx := bit_idx qr + 8 * n\<rparr>"
  by (induction n qr rule: extract8bit_chars.induct)
     (simp_all add: extract_field_frame split_def algebra_simps)

text \<open>The number of bits \<open>n\<close> characters take in the two packed modes.\<close>

fun alphanum_bits :: "nat \<Rightarrow> nat" where
  "alphanum_bits (Suc (Suc n)) = 11 + alphanum_bits n"
| "alphanum_bits (Suc 0) = 6"
| "alphanum_bits 0 = 0"

fun digit_bits :: "nat \<Rightarrow> nat" where
  "digit_bits (Suc (Suc (Suc n))) = 10 + digit_bits n"
| "digit_bits (Suc (Suc 0)) = 7"
| "digit_bits (Suc 0) = 4"
| "digit_bits 0 = 0"

lemma extractAlphanum_chars_frame [frame_simps]:
  "snd (extractAlphanum_chars n qr) = qr\<lparr>bit_idx := bit_idx qr + alphanum_bits n\<rparr>"
  by (induction n qr rule: extractAlphanum_chars.induct)
     (simp_all add: extract_field_frame split_def algebra_simps)

lemma extractNumeric_chars_frame [frame_simps]:
  "snd (extractNumeric_chars n qr) = qr\<lparr>bit_idx := bit_idx qr + digit_bits n\<rparr>"
  by (induction n qr rule: extractNumeric_chars.induct)
     (simp_all add: extract_field_frame split_def algebra_simps)

lemma extract_segment_frame:
  "extract_segment mode qr = Inr (cs, qr') \<Longrightarrow> \<exists>k. qr' = qr\<lparr>bit_idx := bit_idx qr + k\<rparr>"
  unfolding extract_segment_def extractAlphanum_def extract8bit_def extractNumeric_def
    extract_field_frame
  by (auto simp: bind_ok_Inr_iff frame_simps prod_eq_iff add.assoc split: if_splits)

lemma extract_segment_bit_idx:
  "extract_segment mode qr = Inr (cs, qr') \<Longrightarrow> bit_idx qr \<le> bit_idx qr'"
  using extract_segment_frame by fastforce

text \<open>\<open>n_bits\<close> is computed before four zero bytes are pushed behind the data.\<close>

function extract_segments :: "int \<Rightarrow> qr \<Rightarrow> qr_error + qr" where
  "extract_segments n_bits qr =
     (if int (bit_idx qr) < n_bits - 4 then
        (let mode = fst (extract_field qr 4); qr1 = snd (extract_field qr 4)
         in if mode = MODE_Terminator then Inr qr1
            else bind_ok (extract_segment mode qr1) (\<lambda>seg.
                   extract_segments n_bits
                     ((snd seg)\<lparr>data_text := data_text (snd seg) @ fst seg\<rparr>)))
      else Inr qr)"
  by pat_completeness auto
termination
  by (relation "measure (\<lambda>(n, qr). nat (n - int (bit_idx qr)))")
     (auto simp: extract_field_frame dest!: extract_segment_bit_idx)

declare extract_segments.simps [simp del]

definition extractData :: "qr \<Rightarrow> qr_error + qr" where
  "extractData qr =
     (let n_bits = int (length (bytes qr)) * 8
      in extract_segments n_bits
           (qr\<lparr>bytes := bytes qr @ replicate 4 0, data_text := [], bit_idx := 0\<rparr>))"

section \<open>Arrays as bit streams\<close>

text \<open>
  The bits of a byte array, most significant bit of each byte first, and the bits of a number
  in a field of a given width.
\<close>

definition byte_list :: "nat list \<Rightarrow> bool" where
  "byte_list a \<longleftrightarrow> (\<forall>b\<in>set a. b < 256)"

definition bit_stream :: "nat list \<Rightarrow> bool list" where
  "bit_stream a = map (\<lambda>j. bit (a ! (j div 8)) (7 - j mod 8)) [0..<8 * length a]"

definition to_bits :: "nat \<Rightarrow> nat \<Rightarrow> bool list" where
  "to_bits n x = map (\<lambda>k. bit x (n - 1 - k)) [0..<n]"

lemma length_to_bits [simp]: "length (to_bits n x) = n"
  by (simp add: to_bits_def)

lemma length_bit_stream [simp]: "length (bit_stream a) = 8 * length a"
  by (simp add: bit_stream_def)

lemma nth_to_bits [simp]: "k < n \<Longrightarrow> to_bits n x ! k = bit x (n - 1 - k)"
  by (simp add: to_bits_def)

lemma nth_bit_stream [simp]: "j < 8 * length a \<Longrightarrow> bit_stream a ! j = bit (a ! (j div 8)) (7 - j mod 8)"
  by (simp add: bit_stream_def)

lemma nth_bit_stream': "k < length a \<Longrightarrow> r < 8 \<Longrightarrow> bit_stream a ! (8 * k + r) = bit (a ! k) (7 - r)"
  by simp

lemma bit_less_exp: "x < 2 ^ n \<Longrightarrow> bit (x::nat) k \<Longrightarrow> k < n"
  by (metis bit_take_bit_iff take_bit_nat_eq_self)

lemma byte_bit: "byte_list a \<Longrightarrow> i < length a \<Longrightarrow> bit (a ! i) k \<Longrightarrow> k < 8"
  using bit_less_exp[of "a ! i" 8 k] by (simp add: byte_list_def)

lemma bit_js_bits:
  "byte_list a \<Longrightarrow> i < length a \<Longrightarrow> bit (js_bits a i) k \<longleftrightarrow> bit (a ! i) k"
  using byte_bit[of a i k] by (auto simp: js_bits_def bit_simps)

lemma window_mask: "push_bit len 1 - 1 = (Bit_Operations.mask len :: 32 word)"
  by (simp add: mask_eq_exp_minus_1 push_bit_of_1)

lemma bit_window:
  assumes "\<And>m. bit A m \<Longrightarrow> m < 8" "\<And>m. bit B m \<Longrightarrow> m < 8" "\<And>m. bit C m \<Longrightarrow> m < 8"
  shows "bit ((push_bit 16 A OR push_bit 8 B) OR C :: 32 word) m \<longleftrightarrow>
    m < 24 \<and> (if m < 8 then bit C m else if m < 16 then bit B (m - 8) else bit A (m - 16))"
  using assms(1)[of "m - 16"] assms(2)[of "m - 8"] assms(3)[of m]
  by (auto simp: bit_simps)

lemma window_position:
  "m < 24 \<Longrightarrow> 8 * i + (23 - m) = 8 * (if m < 8 then i + 2 else if m < 16 then i + 1 else i)
     + (7 - (if m < 8 then m else if m < 16 then m - 8 else m - 16 :: nat))"
  by auto

lemma bit_extract_bits:
  assumes "byte_list a" and "pos div 8 + 2 < length a" and "pos mod 8 + len \<le> 24"
  shows "bit (extract_bits a pos len) k \<longleftrightarrow> k < len \<and> bit_stream a ! (pos + len - 1 - k)"
proof (cases "k < len")
  case True
  let ?i = "pos div 8"
  define s where "s = 24 - pos mod 8 - len"
  have k: "k + s < 24" using True assms(3) unfolding s_def by linarith
  have j: "pos + len - 1 - k = 8 * ?i + (23 - (s + k))"
    using True assms(3) mult_div_mod_eq[of 8 pos] unfolding s_def by linarith
  have nk: "\<not> 32 - s \<le> k" using k by linarith
  have len: "8 * ?i + (23 - (s + k)) < 8 * length a" using k assms(2) by linarith
  have byte: "bit (js_bits a i) m \<Longrightarrow> m < 8" if "i < length a" for i m
    using assms(1) that bit_js_bits byte_bit by blast
  have "bit (extract_bits a pos len) k \<longleftrightarrow>
     bit ((push_bit 16 (js_bits a ?i) OR push_bit 8 (js_bits a (?i + 1))) OR js_bits a (?i + 2)) (s + k)"
    unfolding extract_bits_def Let_def window_mask s_def[symmetric]
    using k nk True assms by (simp add: bit_signed_drop_bit_iff bit_and_iff bit_mask_iff bit_unsigned_iff)
  also have "\<dots> \<longleftrightarrow> (if s + k < 8 then bit (js_bits a (?i + 2)) (s + k)
      else if s + k < 16 then bit (js_bits a (?i + 1)) (s + k - 8) else bit (js_bits a ?i) (s + k - 16))"
    using k assms(2) by (subst bit_window[OF byte[of ?i] byte[of "?i + 1"] byte[of "?i + 2"]]) auto
  also have "\<dots> \<longleftrightarrow> bit_stream a ! (8 * ?i + (23 - (s + k)))"
  proof -
    have cs: "8 * ?i + (23 - m) = 8 * (if m < 8 then ?i + 2 else if m < 16 then ?i + 1 else ?i)
        + (7 - (if m < 8 then m else if m < 16 then m - 8 else m - 16))"
      if "m < 24" for m using window_position[OF that] .
    show ?thesis
      unfolding cs[OF k[unfolded add.commute[of k]]]
      using k assms by (simp add: bit_js_bits nth_bit_stream' del: nth_bit_stream)
  qed
  finally show ?thesis using True j by simp
next
  case False
  then show ?thesis
    unfolding extract_bits_def Let_def window_mask by (simp add: bit_simps)
qed
lemma nat_bits_eqI: "(\<And>k. bit (x::nat) k = bit y k) \<Longrightarrow> x = y"
  by (simp add: bit_eq_iff)

text \<open>Reading a field that holds a number gives the number.\<close>

lemma extract_bits_field:
  assumes "byte_list a" and "pos div 8 + 2 < length a" and "pos mod 8 + len \<le> 24"
    and "take len (drop pos (bit_stream a)) = to_bits len v" and "v < 2 ^ len"
  shows "extract_bits a pos len = v"
proof (rule nat_bits_eqI)
  fix k
  have pl: "pos + len \<le> 8 * length a" using assms(2,3) mult_div_mod_eq[of 8 pos] by linarith
  have "k < len \<Longrightarrow> bit_stream a ! (pos + len - 1 - k) = bit v k"
  proof -
    assume k: "k < len"
    have "bit_stream a ! (pos + len - 1 - k) = take len (drop pos (bit_stream a)) ! (len - 1 - k)"
      using pl k by (simp del: nth_bit_stream)
    then show ?thesis using k assms(4) by simp
  qed
  then show "bit (extract_bits a pos len) k = bit v k"
    using bit_extract_bits[OF assms(1-3), of k] bit_less_exp[OF assms(5), of k] by auto
qed

text \<open>
  The writer keeps the invariant that the array holds bytes, that all bits from the current
  position on are zero, and that the position is inside the array.
\<close>

definition writer_ok :: "nat list \<Rightarrow> nat \<Rightarrow> bool" where
  "writer_ok a pos \<longleftrightarrow> byte_list a \<and> pos div 8 < length a \<and>
     (\<forall>j<8 * length a. pos \<le> j \<longrightarrow> \<not> bit_stream a ! j)"

lemma byteI: "(\<And>k. bit (x :: nat) k \<Longrightarrow> k < 8) \<Longrightarrow> x < 256"
  using take_bit_nat_less_exp[of 8 x] bit_eq_iff[of x "take_bit 8 x"] by (auto simp: bit_take_bit_iff)


lemma appendBits_ok:
  assumes ok: "writer_ok a pos" and len: "len \<le> 16" and v: "v < 2 ^ len"
  shows "\<exists>a'. appendBits a pos len v = Inr a' \<and> writer_ok a' (pos + len)
    \<and> length a' = max (length a) (pos div 8 + 3)
    \<and> take (pos + len) (bit_stream a') = take pos (bit_stream a) @ to_bits len v"
proof -
  let ?i = "pos div 8"
  define p where "p = pos mod 8"
  define s where "s = 24 - p - len"
  have p: "p < 8" "pos = 8 * ?i + p" "p + len + s = 24" 
    using len unfolding p_def s_def by auto
  have i: "?i < length a" using ok by (simp add: writer_ok_def)
  define w where "w = push_bit s (of_nat v :: 32 word)"
  define b0 b1 b2 where "b0 = unat (drop_bit 8 (drop_bit 8 w) AND 0xFF)"
    and "b1 = unat (drop_bit 8 w AND 0xFF)" and "b2 = unat (w AND 0xFF)"
  have ff: "(0xFF :: 32 word) = Bit_Operations.mask 8" by (simp add: mask_eq_exp_minus_1)
  have wb: "bit w m \<longleftrightarrow> s \<le> m \<and> bit v (m - s)" for m
    using p bit_less_exp[OF v, of "m - s"] unfolding w_def by (auto simp: bit_simps)
  have b0: "bit b0 m \<longleftrightarrow> m < 8 \<and> s \<le> m + 16 \<and> bit v (m + 16 - s)" for m
    using wb unfolding b0_def ff by (auto simp: bit_simps add.commute)
  have b1: "bit b1 m \<longleftrightarrow> m < 8 \<and> s \<le> m + 8 \<and> bit v (m + 8 - s)" for m
    using wb unfolding b1_def ff by (auto simp: bit_simps add.commute)
  have b2: "bit b2 m \<longleftrightarrow> m < 8 \<and> s \<le> m \<and> bit v (m - s)" for m
    using wb unfolding b2_def ff by (auto simp: bit_simps add.commute)
  define a' where "a' = (js_set 0 (js_set 0 a (?i + 2) b2) (?i + 1) b1)[?i := a ! ?i + b0]"
  have app: "appendBits a pos len v = Inr a'"
    using i unfolding appendBits_def Let_def a'_def b0_def b1_def b2_def w_def s_def p_def
    by (simp add: less_max_iff_disj)
  have la: "length a' = max (length a) (?i + 3)" using i by (simp add: a'_def)
  have na: "a' ! k = (if k = ?i then a ! ?i + b0 else if k = ?i + 1 then b1
      else if k = ?i + 2 then b2 else a ! k)" if "k < length a'" for k
    using i that la unfolding a'_def by (auto simp: nth_list_update less_max_iff_disj)
  have low: "\<not> bit (a ! ?i) m" if "m + p < 8" for m
  proof -
    have "pos \<le> 8 * ?i + (7 - m)" "8 * ?i + (7 - m) < 8 * length a" "7 - (7 - m) = m" "7 - m < 8"
      using p(2) i that by linarith+
    then show ?thesis using ok i nth_bit_stream'[of ?i a "7 - m"] unfolding writer_ok_def by metis
  qed
  have top: "\<not> bit b0 m" if "8 \<le> m + p" for m
    using bit_less_exp[OF v, of "m + 16 - s"] p that by (auto simp: b0)
  have sum: "bit (a ! ?i + b0) m \<longleftrightarrow> bit (a ! ?i) m \<or> bit b0 m" for m
  proof -
    have "a ! ?i AND b0 = 0" using low top by (intro nat_bits_eqI) (auto simp: bit_simps, meson not_less)
    then show ?thesis by (simp add: disjunctive_add_eq_or bit_or_iff)
  qed
  have bl: "byte_list a" using ok by (simp add: writer_ok_def)
  have bytes: "byte_list a'" unfolding byte_list_def all_set_conv_all_nth
  proof (intro allI impI)
    fix k assume "k < length a'"
    moreover have "a ! ?i + b0 < 256" by (rule byteI) (use sum b0 byte_bit[OF bl i] in blast)
    moreover have "b1 < 256" "b2 < 256" by (rule byteI, use b1 b2 in blast)+
    moreover have "a ! k < 256" if "k < length a" using bl that by (simp add: byte_list_def)
    ultimately show "a' ! k < 256"
      using na[of k] la i by (cases "k < length a") (auto simp: less_max_iff_disj)
  qed
  have st: "bit_stream a' ! j = (if j < pos then bit_stream a ! j else j < pos + len \<and> bit v (pos + len - 1 - j))"
    if "j < 8 * length a'" for j
  proof -
    obtain k r where j: "j = 8 * k + r" "r < 8" 
      using mult_div_mod_eq[of 8 j] mod_less_divisor[of 8 j] by (metis zero_less_numeral)
    have k: "k < length a'" using that j by linarith
    have zero: "\<not> bit (a ! k) (7 - r)" if "pos \<le> j" "k < length a"
      using ok that j nth_bit_stream'[of k a r] unfolding writer_ok_def
      by (auto simp del: nth_bit_stream)
    have vb: "bit v m \<Longrightarrow> m < len" for m by (rule bit_less_exp[OF v])
    have bs: "bit_stream a' ! j = bit (a' ! k) (7 - r)"
      unfolding j(1) by (rule nth_bit_stream'[OF k j(2)])
    consider "k < ?i" | "k = ?i" | "k = ?i + 1" | "k = ?i + 2" | "?i + 2 < k" by linarith
    then show ?thesis
    proof cases
      case 1
      then have "j < pos" "k < length a" using j p(1,2) i by linarith+
      then show ?thesis using 1 k na[of k] j by (simp add: nth_bit_stream' del: nth_bit_stream)
    next
      case 2
      have "bit_stream a' ! j \<longleftrightarrow> bit (a ! ?i) (7 - r) \<or> bit b0 (7 - r)"
        using 2 k na[of k] j sum by (simp add: nth_bit_stream' del: nth_bit_stream)
      moreover have "j < pos \<longleftrightarrow> r < p" "j < pos + len \<longleftrightarrow> s + r < 24" "pos + len - 1 - j = 7 - r + 16 - s"
        "s \<le> 7 - r + 16 \<longleftrightarrow> s + r < 24"
        using 2 j p by linarith+
      ultimately show ?thesis
        using 2 j i top[of "7 - r"] low[of "7 - r"] b0[of "7 - r"]
        by (cases "r < p") (auto simp: nth_bit_stream' simp del: nth_bit_stream)
    next
      case 3
      then have "\<not> j < pos" "7 - r + 8 - s = pos + len - 1 - j" "s \<le> 7 - r + 8 \<longleftrightarrow> j < pos + len"
        "7 - r < 8" "k \<noteq> ?i"
        using j p by linarith+
      then show ?thesis
        using 3 k j na[of k] b1[of "7 - r"] unfolding bs by simp
    next
      case 4
      then have "\<not> j < pos" "7 - r - s = pos + len - 1 - j" "s \<le> 7 - r \<longleftrightarrow> j < pos + len"
        "7 - r < 8" "k \<noteq> ?i" "k \<noteq> ?i + 1"
        using j p by linarith+
      then show ?thesis
        using 4 k j na[of k] b2[of "7 - r"] unfolding bs by simp
    next
      case 5
      then have "\<not> j < pos" "\<not> j < pos + len" "k < length a" "pos \<le> j" "k \<noteq> ?i" "k \<noteq> ?i + 1" "k \<noteq> ?i + 2"
        using j p k la by linarith+
      then show ?thesis
        using k j na[of k] zero unfolding bs by simp
    qed
  qed
  have "pos + len < (?i + 3) * 8" using p(1,2) len by (simp add: algebra_simps)
  then have "(pos + len) div 8 < ?i + 3" by (rule less_mult_imp_div_less)
  then have "writer_ok a' (pos + len)"
    using bytes st p la unfolding writer_ok_def by (auto simp del: nth_bit_stream)
  moreover have pl: "pos + len < 8 * length a'"
  proof -
    have "?i + 3 \<le> length a'" using la by simp
    moreover have "m < (q + 3) * 8 \<Longrightarrow> q + 3 \<le> n \<Longrightarrow> m < 8 * n" for m q n :: nat by presburger
    ultimately show ?thesis using \<open>pos + len < (?i + 3) * 8\<close> by blast
  qed
  have pa: "pos < 8 * length a" using i by (simp add: div_less_iff_less_mult mult.commute)
  have "take (pos + len) (bit_stream a') = take pos (bit_stream a) @ to_bits len v"
  proof (rule nth_equalityI)
    show "length (take (pos + len) (bit_stream a')) = length (take pos (bit_stream a) @ to_bits len v)"
      using pl pa by (simp add: min_def)
    fix j assume j: "j < length (take (pos + len) (bit_stream a'))"
    then show "take (pos + len) (bit_stream a') ! j = (take pos (bit_stream a) @ to_bits len v) ! j"
      using st[of j] pl pa by (auto simp: nth_append min_def add.commute[of len pos] simp del: nth_bit_stream)
  qed
  ultimately show ?thesis using app la by blast
qed

section \<open>Writing and reading fields\<close>

text \<open>
  \<open>writes qr bs qr'\<close>: the writer went from \<open>qr\<close> to \<open>qr'\<close> and appended the bits \<open>bs\<close>;
  only the data and the bit index changed.
\<close>

definition writes :: "qr \<Rightarrow> bool list \<Rightarrow> qr \<Rightarrow> bool" where
  "writes qr bs qr' \<longleftrightarrow> writer_ok (data qr) (bit_idx qr) \<and>
     (\<exists>d. qr' = qr\<lparr>data := d, bit_idx := bit_idx qr + length bs\<rparr> \<and>
        writer_ok d (bit_idx qr + length bs) \<and> length (data qr) \<le> length d \<and>
        take (bit_idx qr + length bs) (bit_stream d) = take (bit_idx qr) (bit_stream (data qr)) @ bs)"

lemma writes_refl: "writer_ok (data qr) (bit_idx qr) \<Longrightarrow> writes qr [] qr"
  unfolding writes_def by (auto intro!: exI[of _ "data qr"])

lemma writes_trans: "writes a bs b \<Longrightarrow> writes b cs c \<Longrightarrow> writes a (bs @ cs) c"
  unfolding writes_def by (clarsimp simp: add.assoc) force

lemma append_field_writes:
  assumes "writer_ok (data qr) (bit_idx qr)" and "len \<le> 16" and "v < 2 ^ len"
  shows "\<exists>qr'. append_field qr len v = Inr qr' \<and> writes qr (to_bits len v) qr'"
proof -
  obtain d where d: "appendBits (data qr) (bit_idx qr) len v = Inr d" "writer_ok d (bit_idx qr + len)"
      "length (data qr) \<le> length d"
      "take (bit_idx qr + len) (bit_stream d) = take (bit_idx qr) (bit_stream (data qr)) @ to_bits len v"
    using appendBits_ok[OF assms] by auto
  then have "writes qr (to_bits len v) (qr\<lparr>data := d, bit_idx := bit_idx qr + len\<rparr>)"
    using assms(1) unfolding writes_def by (intro conjI exI[of _ d]) simp_all
  then show ?thesis using d(1) by (simp add: append_field_def)
qed

lemma writes_ok: "writes qr bs qr' \<Longrightarrow> writer_ok (data qr') (bit_idx qr')"
  by (auto simp: writes_def)

lemma writes_frame [frame_simps]:
  assumes "writes qr bs qr'"
  shows "version qr' = version qr" "n_data_codewords qr' = n_data_codewords qr"
    "bit_idx qr' = bit_idx qr + length bs"
  using assms by (auto simp: writes_def)

text \<open>The bits of the three kinds of str.\<close>

definition bits_8bit :: "js_string \<Rightarrow> bool list" where
  "bits_8bit str = concat (map (\<lambda>c. to_bits 8 (unat c)) str)"

fun bits_alphanum :: "nat list \<Rightarrow> bool list" where
  "bits_alphanum (k1 # k2 # ks) = to_bits 11 (45 * k1 + k2) @ bits_alphanum ks"
| "bits_alphanum [k] = to_bits 6 k"
| "bits_alphanum [] = []"

fun bits_digits :: "nat list \<Rightarrow> bool list" where
  "bits_digits (d1 # d2 # d3 # ds) = to_bits 10 (100 * d1 + 10 * d2 + d3) @ bits_digits ds"
| "bits_digits [d1, d2] = to_bits 7 (10 * d1 + d2)"
| "bits_digits [d] = to_bits 4 d"
| "bits_digits [] = []"

lemma length_bits_8bit [simp]: "length (bits_8bit str) = 8 * length str"
  by (induction str) (auto simp: bits_8bit_def)

lemma length_bits_alphanum [simp]: "length (bits_alphanum ks) = alphanum_bits (length ks)"
  by (induction ks rule: bits_alphanum.induct) auto

lemma length_bits_digits [simp]: "length (bits_digits ds) = digit_bits (length ds)"
  by (induction ds rule: bits_digits.induct) auto

text \<open>One step of a writer: the field, then the rest.\<close>

lemma append_then:
  assumes "writer_ok (data qr) (bit_idx qr)" and "len \<le> 16" and "v < 2 ^ len"
    and "\<And>q. writes qr (to_bits len v) q \<Longrightarrow> \<exists>q'. k q = Inr q' \<and> writes q bs q'"
  shows "\<exists>q'. bind_ok (append_field qr len v) k = Inr q' \<and> writes qr (to_bits len v @ bs) q'"
  using append_field_writes[OF assms(1-3)] assms(4) writes_trans by fastforce

lemma add8bit_chars_writes:
  assumes "writer_ok (data qr) (bit_idx qr)" and "\<forall>c\<in>set str. unat c < 256"
  shows "\<exists>qr'. add8bit_chars qr str = Inr qr' \<and> writes qr (bits_8bit str) qr'"
  using assms
proof (induction str arbitrary: qr)
  case Nil
  then show ?case by (simp add: bits_8bit_def writes_refl)
next
  case (Cons c str)
  have "\<exists>q'. bind_ok (append_field qr 8 (unat c)) (\<lambda>q. add8bit_chars q str) = Inr q' \<and>
          writes qr (to_bits 8 (unat c) @ bits_8bit str) q'"
    using Cons by (intro append_then) (auto dest: writes_ok)
  then show ?case by (simp add: bits_8bit_def)
qed

lemma addAlphaNum_chars_writes:
  assumes "writer_ok (data qr) (bit_idx qr)" and "list_all2 (\<lambda>c k. map_of alphanum_rev c = Some k) str ks"
  shows "\<exists>qr'. addAlphaNum_chars qr str = Inr qr' \<and> writes qr (bits_alphanum ks) qr'"
  using assms
proof (induction ks arbitrary: str qr rule: bits_alphanum.induct)
  case (1 k1 k2 ks)
  then obtain c1 c2 cs where str: "str = c1 # c2 # cs" "map_of alphanum_rev c1 = Some k1"
      "map_of alphanum_rev c2 = Some k2" "list_all2 (\<lambda>c k. map_of alphanum_rev c = Some k) cs ks"
    by (auto simp: list_all2_Cons2)
  have "45 * k1 + k2 < 2 ^ 11" using alphanum_rev_Some(1)[OF str(2)] alphanum_rev_Some(1)[OF str(3)] by simp
  then have "\<exists>q'. bind_ok (append_field qr 11 (45 * k1 + k2)) (\<lambda>q. addAlphaNum_chars q cs) = Inr q' \<and>
      writes qr (to_bits 11 (45 * k1 + k2) @ bits_alphanum ks) q'"
    using 1(1)[OF writes_ok str(4)] 1(2) by (intro append_then) auto
  then show ?case using str by (simp add: getAlphaNum_def)
next
  case (2 k)
  then obtain c where str: "str = [c]" "map_of alphanum_rev c = Some k" by (auto simp: list_all2_Cons2)
  then show ?case
    using append_field_writes[OF 2(1), of 6 k] alphanum_rev_Some(1)[OF str(2)] by (auto simp: getAlphaNum_def)
qed (auto intro: writes_refl)

lemma addNumeric_digits_writes:
  assumes "writer_ok (data qr) (bit_idx qr)" and "\<forall>d\<in>set ds. d < 10"
  shows "\<exists>qr'. addNumeric_digits qr ds = Inr qr' \<and> writes qr (bits_digits ds) qr'"
  using assms
proof (induction ds arbitrary: qr rule: bits_digits.induct)
  case (1 d1 d2 d3 ds)
  have "\<exists>q'. bind_ok (append_field qr 10 (100 * d1 + 10 * d2 + d3)) (\<lambda>q. addNumeric_digits q ds) = Inr q' \<and>
      writes qr (to_bits 10 (100 * d1 + 10 * d2 + d3) @ bits_digits ds) q'"
    using 1 by (intro append_then) (auto dest: writes_ok)
  then show ?case by simp
next
  case (2 d1 d2)
  then show ?case using append_field_writes[OF 2(1), of 7 "10 * d1 + d2"] by auto
next
  case (3 d)
  then show ?case using append_field_writes[OF 3(1), of 4 d] by auto
qed (auto intro: writes_refl)

section \<open>Reading fields\<close>

text \<open>
  \<open>holds qr bs\<close>: the reader stands before the bits \<open>bs\<close>, and a window of 24 bits starting at
  any of them lies inside the array.
\<close>

definition holds :: "qr \<Rightarrow> bool list \<Rightarrow> bool" where
  "holds qr bs \<longleftrightarrow> byte_list (bytes qr) \<and> bit_idx qr + length bs + 16 \<le> 8 * length (bytes qr) \<and>
     take (length bs) (drop (bit_idx qr) (bit_stream (bytes qr))) = bs"

lemma extract_field_reads:
  assumes "holds qr (to_bits len v @ bs)" and "0 < len" and "len \<le> 16" and "v < 2 ^ len"
  shows "extract_field qr len = (v, qr\<lparr>bit_idx := bit_idx qr + len\<rparr>)"
    and "holds (qr\<lparr>bit_idx := bit_idx qr + len\<rparr>) bs"
proof -
  let ?st = "drop (bit_idx qr) (bit_stream (bytes qr))"
  have st: "take (len + length bs) ?st = to_bits len v @ bs"
    and bytes: "byte_list (bytes qr)" and le: "bit_idx qr + len + length bs + 16 \<le> 8 * length (bytes qr)"
    using assms(1) by (auto simp: holds_def add.assoc)
  have "take len (take (len + length bs) ?st) = to_bits len v" unfolding st by simp
  then have 1: "take len ?st = to_bits len v" by (simp add: min_def)
  have "drop len (take (len + length bs) ?st) = bs" unfolding st by simp
  then have 2: "take (length bs) (drop (bit_idx qr + len) (bit_stream (bytes qr))) = bs"
    by (simp add: drop_take add.commute)
  have "bit_idx qr div 8 + 2 < length (bytes qr)" 
    using le assms(2) by (simp add: div_less_iff_less_mult less_diff_conv2)
  moreover have "bit_idx qr mod 8 + len \<le> 24" 
    using assms(3) mod_less_divisor[of 8 "bit_idx qr"] by linarith
  ultimately show "extract_field qr len = (v, qr\<lparr>bit_idx := bit_idx qr + len\<rparr>)"
    using extract_bits_field[OF bytes _ _ 1 assms(4)] by (simp add: extract_field_def)
  show "holds (qr\<lparr>bit_idx := bit_idx qr + len\<rparr>) bs"
    using 2 le bytes by (simp add: holds_def)
qed

lemma extract8bit_chars_reads:
  assumes "holds qr (bits_8bit str @ bs)" and "\<forall>c\<in>set str. unat c < 256"
  shows "fst (extract8bit_chars (length str) qr) = str"
  using assms
proof (induction str arbitrary: qr)
  case (Cons c str)
  then show ?case
    using extract_field_reads[of qr 8 "unat c" "bits_8bit str @ bs"]
    by (simp add: split_def bits_8bit_def)
qed simp

lemma extractAlphanum_chars_reads:
  assumes "holds qr (bits_alphanum ks @ bs)" and "\<forall>k\<in>set ks. k < 45"
  shows "fst (extractAlphanum_chars (length ks) qr) = map ((!) alphanum) ks"
  using assms
proof (induction ks arbitrary: qr rule: bits_alphanum.induct)
  case (1 k1 k2 ks)
  then show ?case
    using extract_field_reads[of qr 11 "45 * k1 + k2" "bits_alphanum ks @ bs"]
    by (simp add: split_def alphanum_at_def length_alphanum)
next
  case (2 k)
  then show ?case
    using extract_field_reads[of qr 6 k bs]
    by (simp add: split_def alphanum_at_def length_alphanum)
qed simp

lemma digits_of_field:
  assumes "d1 < 10" "d2 < 10" "d3 < (10 :: nat)"
  shows "(100 * d1 + 10 * d2 + d3) div 100 = d1" "(100 * d1 + 10 * d2 + d3) mod 100 div 10 = d2"
    "(100 * d1 + 10 * d2 + d3) mod 10 = d3" "(10 * d2 + d3) div 10 = d2" "(10 * d2 + d3) mod 10 = d3"
proof -
  have "100 * d1 + 10 * d2 + d3 = d3 + (10 * d1 + d2) * 10" by simp
  then show "(100 * d1 + 10 * d2 + d3) mod 10 = d3" using assms(3) by (simp only: mod_mult_self1) simp
  have "100 * d1 + 10 * d2 + d3 = (10 * d2 + d3) + d1 * 100" by simp
  then show "(100 * d1 + 10 * d2 + d3) div 100 = d1" "(100 * d1 + 10 * d2 + d3) mod 100 div 10 = d2"
    using assms by (simp_all only: div_mult_self1 mod_mult_self1) simp_all
qed (use assms in simp_all)

lemma extractNumeric_chars_reads:
  assumes "holds qr (bits_digits ds @ bs)" and "\<forall>d\<in>set ds. d < 10"
  shows "fst (extractNumeric_chars (length ds) qr) = map (\<lambda>d. of_nat (48 + d)) ds"
  using assms
proof (induction ds arbitrary: qr rule: bits_digits.induct)
  case (1 d1 d2 d3 ds)
  then show ?case
    using extract_field_reads[of qr 10 "100 * d1 + 10 * d2 + d3" "bits_digits ds @ bs"]
    by (simp add: split_def digits_of_field)
next
  case (2 d1 d2)
  then show ?case
    using extract_field_reads[of qr 7 "10 * d1 + d2" bs] by (simp add: split_def digits_of_field)
next
  case (3 d)
  then show ?case
    using extract_field_reads[of qr 4 d bs] by (simp add: split_def digits_of_field)
qed simp

section \<open>Texts of the three modes\<close>

definition valid_text :: "nat \<Rightarrow> js_string \<Rightarrow> bool" where
  "valid_text mode str =
     (if mode = MODE_AlphaNumeric then (\<forall>c\<in>set str. map_of alphanum_rev c \<noteq> None)
      else if mode = MODE_EightBit then (\<forall>c\<in>set str. unat c < 256)
      else if mode = MODE_Numeric then (\<forall>c\<in>set str. 48 \<le> unat c \<and> unat c \<le> 57)
      else False)"

definition payload_bits :: "nat \<Rightarrow> nat \<Rightarrow> nat" where
  "payload_bits mode n =
     (if mode = MODE_AlphaNumeric then alphanum_bits n
      else if mode = MODE_EightBit then 8 * n else digit_bits n)"

definition count_bits :: "nat \<Rightarrow> nat \<Rightarrow> nat" where
  "count_bits mode ver = (case nCountBits mode ver of Inl _ \<Rightarrow> 0 | Inr n \<Rightarrow> n)"

definition payload :: "nat \<Rightarrow> js_string \<Rightarrow> bool list" where
  "payload mode str =
     (if mode = MODE_AlphaNumeric then bits_alphanum (map (\<lambda>c. the (map_of alphanum_rev c)) str)
      else if mode = MODE_EightBit then bits_8bit str
      else bits_digits (map (\<lambda>c. unat c - 48) str))"

definition segment_bits :: "nat \<Rightarrow> nat \<Rightarrow> js_string \<Rightarrow> bool list" where
  "segment_bits ver mode str =
     to_bits 4 mode @ to_bits (count_bits mode ver) (length str) @ payload mode str"

abbreviation text_mode :: "nat \<Rightarrow> bool" where
  "text_mode mode \<equiv> mode = MODE_AlphaNumeric \<or> mode = MODE_EightBit \<or> mode = MODE_Numeric"

lemma valid_text_mode: "valid_text mode str \<Longrightarrow> text_mode mode"
  by (simp add: valid_text_def split: if_splits)

lemma nCountBits_text_mode: "text_mode mode \<Longrightarrow> nCountBits mode ver = Inr (count_bits mode ver)"
  by (auto simp: nCountBits_def count_bits_def)

lemma count_bits_range: "text_mode mode \<Longrightarrow> 0 < count_bits mode ver \<and> count_bits mode ver \<le> 16"
  by (auto simp: nCountBits_def count_bits_def)

lemma length_payload [simp]: "text_mode mode \<Longrightarrow> length (payload mode str) = payload_bits mode (length str)"
  by (auto simp: payload_def payload_bits_def)

lemma length_segment_bits:
  "text_mode mode \<Longrightarrow>
     length (segment_bits ver mode str) = 4 + count_bits mode ver + payload_bits mode (length str)"
  by (simp add: segment_bits_def)

lemma alphanum_bits_eq: "alphanum_bits n = 11 * (n div 2) + 6 * (n mod 2)"
  by (induction n rule: alphanum_bits.induct) auto

lemma Suc3_div_mod:
  "Suc (Suc (Suc n)) div 3 = Suc (n div 3)" "Suc (Suc (Suc n)) mod 3 = n mod 3"
  by presburger+

lemma digit_bits_eq: "digit_bits n = 10 * (n div 3) + (if n mod 3 = 0 then 0 else 3 * (n mod 3) + 1)"
proof (induction n rule: digit_bits.induct)
  case (1 n)
  then show ?case unfolding digit_bits.simps Suc3_div_mod by simp
qed simp_all

section \<open>Capacity\<close>

lemma alphanum_bits_le_iff:
  "alphanum_bits n \<le> B \<longleftrightarrow> n \<le> B div 11 * 2 + (if B div 11 * 11 + 6 \<le> B then 1 else 0)"
proof -
  obtain q r where n: "n = 2 * q + r" "r < 2" 
    using mult_div_mod_eq[of 2 n] mod_less_divisor[of 2 n] by (metis zero_less_numeral)
  obtain p s where B: "B = 11 * p + s" "s < 11" 
    using mult_div_mod_eq[of 11 B] mod_less_divisor[of 11 B] by (metis zero_less_numeral)
  have "n div 2 = q" "n mod 2 = r" "B div 11 = p" using n B by auto
  then show ?thesis using n B by (cases "r = 0") (auto simp: alphanum_bits_eq)
qed

lemma digit_bits_le_iff:
  "digit_bits n \<le> B \<longleftrightarrow> n \<le> B div 10 * 3 +
     (if B div 10 * 10 + 4 \<le> B then (if B div 10 * 10 + 7 \<le> B then 1 else 0) + 1 else 0)"
proof -
  obtain q r where n: "n = 3 * q + r" "r < 3" 
    using mult_div_mod_eq[of 3 n] mod_less_divisor[of 3 n] by (metis zero_less_numeral)
  obtain p s where B: "B = 10 * p + s" "s < 10" 
    using mult_div_mod_eq[of 10 B] mod_less_divisor[of 10 B] by (metis zero_less_numeral)
  have eqs: "n div 3 = q" "n mod 3 = r" "B div 10 = p" using n B by auto
  have "r = 0 \<or> r = 1 \<or> r = 2" using n(2) by linarith
  then show ?thesis unfolding digit_bits_eq eqs using n(1) B by auto
qed

text \<open>The capacity formula is exactly the number of characters whose bits fit.\<close>

lemma capacity_exact:
  assumes "text_mode mode" and "valid_level v l" and "getDataCapacity v l mode = Inr cap"
  shows "4 + count_bits mode v + payload_bits mode n \<le> 8 * (n_codewords ! v - n_ec_codewords ! v ! l)
    \<longleftrightarrow> n \<le> cap"
proof -
  let ?nd = "n_codewords ! v - n_ec_codewords ! v ! l"
  let ?B = "8 * ?nd - 4 - count_bits mode v"
  have "8 \<le> ?nd" using valid_level_row[OF assms(2)] by (simp add: table_row_ok_def sizes_ok_def Let_def)
  then have "4 + count_bits mode v + payload_bits mode n \<le> 8 * ?nd \<longleftrightarrow> payload_bits mode n \<le> ?B"
    using count_bits_range[OF assms(1), of v] by linarith
  also have "\<dots> \<longleftrightarrow> n \<le> cap"
  proof -
    define B where "B = ?B"
    have cap: "(if mode = MODE_AlphaNumeric then
              (let cap = B div 11 * 2 in Inr (if cap div 2 * 11 + 6 \<le> B then cap + 1 else cap))
            else if mode = MODE_EightBit then Inr (B div 8)
            else if mode = MODE_Numeric then
              (let cap = B div 10 * 3
               in Inr (if cap div 3 * 10 + 4 \<le> B
                       then (if cap div 3 * 10 + 7 \<le> B then cap + 1 else cap) + 1 else cap))
            else Inl (Unsupported_Mode mode)) = (Inr cap :: qr_error + nat)"
      using assms(1,3) unfolding getDataCapacity_def nCountBits_text_mode[OF assms(1)] Let_def B_def
      by simp
    consider "mode = MODE_AlphaNumeric" | "mode = MODE_EightBit" | "mode = MODE_Numeric" using assms(1) by blast
    then have "payload_bits mode n \<le> B \<longleftrightarrow> n \<le> cap"
    proof cases
      case 1
      with cap have "cap = B div 11 * 2 + (if B div 11 * 11 + 6 \<le> B then 1 else 0)"
        by (simp add: Let_def split: if_splits)
      moreover have "payload_bits mode n = alphanum_bits n" using 1 by (simp add: payload_bits_def)
      ultimately show ?thesis by (simp only: alphanum_bits_le_iff)
    next
      case 2
      with cap have "cap = B div 8" by simp
      moreover have "8 * n \<le> B \<longleftrightarrow> n \<le> B div 8" by (simp add: less_eq_div_iff_mult_less_eq mult.commute)
      ultimately show ?thesis using 2 by (simp add: payload_bits_def)
    next
      case 3
      with cap have "cap = B div 10 * 3 +
          (if B div 10 * 10 + 4 \<le> B then (if B div 10 * 10 + 7 \<le> B then 1 else 0) + 1 else 0)"
        by (simp add: Let_def split: if_splits)
      moreover have "payload_bits mode n = digit_bits n" using 3 by (simp add: payload_bits_def)
      ultimately show ?thesis by (simp only: digit_bits_le_iff)
    qed
    then show ?thesis unfolding B_def .
  qed
  finally show ?thesis .
qed

text \<open>A text that fits has a length that its count field can hold.\<close>

lemma count_field_holds_length:
  assumes "text_mode mode" and "valid_level v l" and "getDataCapacity v l mode = Inr cap" and "n \<le> cap"
  shows "n < 2 ^ count_bits mode v"
proof -
  let ?nd = "n_codewords ! v - n_ec_codewords ! v ! l"
  have fit: "payload_bits mode n \<le> 8 * ?nd" using capacity_exact[OF assms(1-3), of n] assms(4) by linarith
  have b: "?nd \<le> 2956" "v < 10 \<longrightarrow> ?nd \<le> 232" "v < 27 \<longrightarrow> ?nd \<le> 1370"
    using valid_level_row[OF assms(2)] by (simp_all add: table_row_ok_def sizes_ok_def Let_def)
  have "11 * n \<le> 2 * alphanum_bits n" by (induction n rule: alphanum_bits.induct) auto
  moreover have "3 * n \<le> digit_bits n" by (induction n rule: digit_bits.induct) auto
  ultimately show ?thesis
    using assms(1) fit b by (auto simp: count_bits_def nCountBits_def payload_bits_def)
qed

section \<open>Writing a text\<close>

text \<open>
  Whatever the values are, an append succeeds while the position is inside the array, and it
  leaves the position inside the array.
\<close>

definition moves :: "qr \<Rightarrow> nat \<Rightarrow> qr \<Rightarrow> bool" where
  "moves qr k qr' \<longleftrightarrow> (\<exists>d. qr' = qr\<lparr>data := d, bit_idx := bit_idx qr + k\<rparr> \<and>
     bit_idx qr' div 8 < length (data qr'))"

lemma moves_refl: "bit_idx qr div 8 < length (data qr) \<Longrightarrow> moves qr 0 qr"
  unfolding moves_def by (auto intro!: exI[of _ "data qr"])

lemma moves_trans: "moves a k b \<Longrightarrow> moves b m c \<Longrightarrow> moves a (k + m) c"
  unfolding moves_def by (clarsimp simp: add.assoc) force

lemma moves_inside: "moves qr k qr' \<Longrightarrow> bit_idx qr' div 8 < length (data qr')"
  by (auto simp: moves_def)

lemma moves_frame [frame_simps]:
  assumes "moves qr k qr'"
  shows "version qr' = version qr" "n_data_codewords qr' = n_data_codewords qr"
    "bit_idx qr' = bit_idx qr + k"
  using assms by (auto simp: moves_def)

lemma append_field_moves:
  assumes "bit_idx qr div 8 < length (data qr)" and "len \<le> 16"
  shows "\<exists>qr'. append_field qr len v = Inr qr' \<and> moves qr len qr'"
proof -
  let ?i = "bit_idx qr div 8"
  obtain d where d: "appendBits (data qr) (bit_idx qr) len v = Inr d" "length d = max (length (data qr)) (?i + 3)"
    using assms(1) unfolding appendBits_def Let_def by auto
  have "bit_idx qr < (?i + 1) * 8" using div_less_iff_less_mult[of 8 "bit_idx qr" "?i + 1"] by simp
  then have "bit_idx qr + len < (?i + 3) * 8" using assms(2) by (simp add: algebra_simps)
  then have "(bit_idx qr + len) div 8 < ?i + 3" by (rule less_mult_imp_div_less)
  then have "moves qr len (qr\<lparr>data := d, bit_idx := bit_idx qr + len\<rparr>)"
    using d(2) unfolding moves_def by (intro exI[of _ d]) auto
  then show ?thesis using d(1) by (simp add: append_field_def)
qed

lemma append_moves_then:
  assumes "bit_idx qr div 8 < length (data qr)" and "len \<le> 16"
    and "\<And>q. moves qr len q \<Longrightarrow> \<exists>q'. k q = Inr q' \<and> moves q m q'"
  shows "\<exists>q'. bind_ok (append_field qr len v) k = Inr q' \<and> moves qr (len + m) q'"
  using append_field_moves[OF assms(1,2), of v] assms(3) moves_trans by fastforce

lemma add8bit_chars_moves:
  "bit_idx qr div 8 < length (data qr) \<Longrightarrow>
     \<exists>qr'. add8bit_chars qr str = Inr qr' \<and> moves qr (8 * length str) qr'"
proof (induction str arbitrary: qr)
  case (Cons c cs)
  have "\<exists>q'. bind_ok (append_field qr 8 (unat c)) (\<lambda>q. add8bit_chars q cs) = Inr q' \<and>
      moves qr (8 + 8 * length cs) q'"
    using Cons by (intro append_moves_then) (auto dest: moves_inside)
  then show ?case by simp
qed (auto intro: moves_refl)

lemma addAlphaNum_chars_moves:
  "bit_idx qr div 8 < length (data qr) \<Longrightarrow> \<forall>c\<in>set str. map_of alphanum_rev c \<noteq> None \<Longrightarrow>
     \<exists>qr'. addAlphaNum_chars qr str = Inr qr' \<and> moves qr (alphanum_bits (length str)) qr'"
proof (induction str arbitrary: qr rule: induct_list012)
  case (3 c1 c2 cs)
  then obtain k1 k2 where k: "getAlphaNum c1 = Inr k1" "getAlphaNum c2 = Inr k2"
    by (auto simp: getAlphaNum_def)
  have "\<exists>q'. bind_ok (append_field qr 11 (45 * k1 + k2)) (\<lambda>q. addAlphaNum_chars q cs) = Inr q' \<and>
      moves qr (11 + alphanum_bits (length cs)) q'"
    using 3 by (intro append_moves_then) (auto dest: moves_inside)
  then show ?case using k by simp
next
  case (2 c qr)
  then obtain k where "getAlphaNum c = Inr k" by (auto simp: getAlphaNum_def)
  then show ?case using append_field_moves[OF 2(1), of 6 k] by auto
qed (auto intro: moves_refl)

lemma numeric_digits_ok:
  "\<forall>c\<in>set str. 48 \<le> unat c \<and> unat c \<le> 57 \<Longrightarrow> numeric_digits str = Inr (map (\<lambda>c. unat c - 48) str)"
  by (induction str) (auto simp: Let_def nat_diff_distrib simp del: of_nat_unat)

lemma addNumeric_digits_moves:
  "bit_idx qr div 8 < length (data qr) \<Longrightarrow>
     \<exists>qr'. addNumeric_digits qr ds = Inr qr' \<and> moves qr (digit_bits (length ds)) qr'"
proof (induction ds arbitrary: qr rule: bits_digits.induct)
  case (1 d1 d2 d3 ds)
  have "\<exists>q'. bind_ok (append_field qr 10 (100 * d1 + 10 * d2 + d3)) (\<lambda>q. addNumeric_digits q ds) = Inr q' \<and>
      moves qr (10 + digit_bits (length ds)) q'"
    using 1 by (intro append_moves_then) (auto dest: moves_inside)
  then show ?case by simp
next
  case (2 d1 d2)
  then show ?case using append_field_moves[OF 2(1), of 7 "10 * d1 + d2"] by auto
next
  case (3 d)
  then show ?case using append_field_moves[OF 3(1), of 4 d] by auto
qed (auto intro: moves_refl)

lemma add_segment_moves:
  assumes "bit_idx qr div 8 < length (data qr)" and "valid_text mode str"
  shows "\<exists>qr'. add_segment qr mode str = Inr qr' \<and>
    moves qr (count_bits mode (version qr) + payload_bits mode (length str)) qr'"
proof -
  have mode: "text_mode mode" by (rule valid_text_mode[OF assms(2)])
  note cb = nCountBits_text_mode[OF mode, of "version qr"]
  have c16: "count_bits mode (version qr) \<le> 16" using count_bits_range[OF mode] by blast
  have dg: "numeric_digits str = Inr (map (\<lambda>c. unat c - 48) str)" if "mode = MODE_Numeric"
    using that assms(2) by (intro numeric_digits_ok) (simp add: valid_text_def)
  have rest: "\<exists>q'. (if mode = MODE_AlphaNumeric then addAlphaNum_chars q str
      else if mode = MODE_EightBit then add8bit_chars q str
      else bind_ok (numeric_digits str) (addNumeric_digits q)) = Inr q' \<and>
      moves q (payload_bits mode (length str)) q'" if "moves qr (count_bits mode (version qr)) q" for q
    using addAlphaNum_chars_moves[OF moves_inside[OF that], of str]
      add8bit_chars_moves[OF moves_inside[OF that], of str]
      addNumeric_digits_moves[OF moves_inside[OF that], of "map (\<lambda>c. unat c - 48) str"]
      mode assms(2) dg
    by (auto simp: valid_text_def payload_bits_def)
  show ?thesis
    using append_moves_then[OF assms(1) c16 rest, of "length str"] mode cb
    by (auto simp: add_segment_def addAlphaNum_def add8bit_def addNumeric_def)
qed

lemma add_segment_writes:
  assumes "writer_ok (data qr) (bit_idx qr)" and "valid_text mode str"
    and "length str < 2 ^ count_bits mode (version qr)"
  shows "\<exists>qr'. add_segment qr mode str = Inr qr' \<and>
    writes qr (to_bits (count_bits mode (version qr)) (length str) @ payload mode str) qr'"
proof -
  have mode: "text_mode mode" by (rule valid_text_mode[OF assms(2)])
  note cb = nCountBits_text_mode[OF mode, of "version qr"]
  have c16: "count_bits mode (version qr) \<le> 16" using count_bits_range[OF mode] by blast
  have dg: "numeric_digits str = Inr (map (\<lambda>c. unat c - 48) str)"
    "\<forall>d\<in>set (map (\<lambda>c. unat c - 48) str). d < 10" if "mode = MODE_Numeric"
    using that assms(2) by (auto intro!: numeric_digits_ok simp: valid_text_def)
  have an: "list_all2 (\<lambda>c k. map_of alphanum_rev c = Some k) str (map (\<lambda>c. the (map_of alphanum_rev c)) str)"
    if "mode = MODE_AlphaNumeric"
    using that assms(2) by (auto simp: valid_text_def list_all2_conv_all_nth)
  have rest: "\<exists>q'. (if mode = MODE_AlphaNumeric then addAlphaNum_chars q str
      else if mode = MODE_EightBit then add8bit_chars q str
      else bind_ok (numeric_digits str) (addNumeric_digits q)) = Inr q' \<and>
      writes q (payload mode str) q'"
    if "writes qr (to_bits (count_bits mode (version qr)) (length str)) q" for q
  proof -
    note ok = writes_ok[OF that]
    show ?thesis
      using addAlphaNum_chars_writes[OF ok an] add8bit_chars_writes[OF ok, of str]
        addNumeric_digits_writes[OF ok dg(2)] dg(1) mode assms(2)
      by (auto simp: valid_text_def payload_def)
  qed
  show ?thesis
    using append_then[OF assms(1) c16 assms(3) rest] mode cb
    by (auto simp: add_segment_def addAlphaNum_def add8bit_def addNumeric_def)
qed

section \<open>A whole text\<close>

lemma addText_moves:
  assumes "bit_idx qr div 8 < length (data qr)" and "valid_text mode str"
  shows "\<exists>q. moves qr (4 + (count_bits mode (version qr) + payload_bits mode (length str))) q \<and>
    addTextImplementation qr mode str =
      (if 8 * n_data_codewords q < bit_idx q then Inl Text_Too_Long else Inr q)"
proof -
  have mode: "mode \<noteq> MODE_Terminator" using valid_text_mode[OF assms(2)] by auto
  obtain q1 where q1: "append_field qr 4 mode = Inr q1" "moves qr 4 q1"
    using append_field_moves[OF assms(1), of 4 mode] by auto
  obtain q2 where q2: "add_segment q1 mode str = Inr q2"
      "moves q1 (count_bits mode (version q1) + payload_bits mode (length str)) q2"
    using add_segment_moves[OF moves_inside[OF q1(2)] assms(2)] by blast
  show ?thesis
    using q1(1) q2(1) mode moves_trans[OF q1(2) q2(2)] moves_frame(1)[OF q1(2)]
    by (auto simp: addTextImplementation_def)
qed

lemma addText_writes:
  assumes "writer_ok (data qr) (bit_idx qr)" and "valid_text mode str"
    and "length str < 2 ^ count_bits mode (version qr)"
    and "bit_idx qr + length (segment_bits (version qr) mode str) \<le> 8 * n_data_codewords qr"
  shows "\<exists>q. addTextImplementation qr mode str = Inr q \<and> writes qr (segment_bits (version qr) mode str) q"
proof -
  have mode: "text_mode mode" by (rule valid_text_mode[OF assms(2)])
  have m: "mode \<noteq> 0" "mode < 2 ^ 4" using mode by auto
  obtain q1 where q1: "append_field qr 4 mode = Inr q1" "writes qr (to_bits 4 mode) q1"
    using append_field_writes[OF assms(1) _ m(2)] by auto
  note v1 = writes_frame(1)[OF q1(2)]
  obtain q2 where q2: "add_segment q1 mode str = Inr q2"
      "writes q1 (to_bits (count_bits mode (version q1)) (length str) @ payload mode str) q2"
    using add_segment_writes[OF writes_ok[OF q1(2)] assms(2)] assms(3) v1 by auto
  have w: "writes qr (segment_bits (version qr) mode str) q2"
    using writes_trans[OF q1(2) q2(2)] v1 by (simp add: segment_bits_def)
  then show ?thesis
    using q1(1) q2(1) m(1) assms(4) writes_frame[OF w] by (auto simp: addTextImplementation_def)
qed

lemma addText_terminator_writes:
  assumes "writer_ok (data qr) (bit_idx qr)"
  shows "\<exists>q. addTextImplementation qr MODE_Terminator str = Inr q \<and> writes qr (replicate 4 False) q"
proof -
  have "to_bits 4 0 = replicate 4 False" by (simp add: to_bits_def numeral_eq_Suc)
  then show ?thesis
    using append_field_writes[OF assms, of 4 0] by (auto simp: addTextImplementation_def)
qed

lemma byte_list_js_set: "byte_list b \<Longrightarrow> v < 256 \<Longrightarrow> byte_list (js_set 0 b j v)"
  using set_update_subset_insert[of b j v] by (auto simp: byte_list_def js_set_def)

lemma pad_from_props:
  "byte_list a \<Longrightarrow> byte_list (pad_from n i a)"
  "length a \<le> length (pad_from n i a)"
  "k < i \<Longrightarrow> k < length a \<Longrightarrow> pad_from n i a ! k = a ! k"
proof -
  note bl = byte_list_js_set
  show "byte_list a \<Longrightarrow> byte_list (pad_from n i a)"
  proof (induction n i a rule: pad_from.induct)
    case (1 n i a)
    have "byte_list (js_set 0 (js_set 0 a i 0xEC) (i + 1) 0x11)" using 1(2) by (intro bl) auto
    then show ?case using 1 by (subst pad_from.simps) simp
  qed
  show "length a \<le> length (pad_from n i a)"
  proof (induction n i a rule: pad_from.induct)
    case (1 n i a)
    then show ?case by (subst pad_from.simps) force
  qed
  show "k < i \<Longrightarrow> k < length a \<Longrightarrow> pad_from n i a ! k = a ! k"
  proof (induction n i a rule: pad_from.induct)
    case (1 n i a)
    then show ?case by (subst pad_from.simps) auto
  qed
qed

text \<open>Padding leaves all bits before the bit index alone.\<close>

lemma appendPadding_keeps:
  assumes "writer_ok (data qr) (bit_idx qr)" and "0 < bit_idx qr"
  shows "take (bit_idx qr) (bit_stream (data (appendPadding qr))) = take (bit_idx qr) (bit_stream (data qr))"
    and "byte_list (data (appendPadding qr))" and "length (data qr) \<le> length (data (appendPadding qr))"
proof -
  let ?k = "nat ((int (bit_idx qr) - 1) div 8 + 1)"
  show "byte_list (data (appendPadding qr))" "length (data qr) \<le> length (data (appendPadding qr))"
    using assms pad_from_props by (auto simp: appendPadding_def writer_ok_def)
  have k: "j div 8 < ?k" if "j < bit_idx qr" for j
  proof -
    have "int j div 8 \<le> (int (bit_idx qr) - 1) div 8" by (rule zdiv_mono1) (use that in auto)
    then show ?thesis by (simp add: zless_nat_conj zdiv_int)
  qed
  have len: "bit_idx qr \<le> 8 * length (data qr)"
    using assms(1) by (simp add: writer_ok_def div_less_iff_less_mult)
  show "take (bit_idx qr) (bit_stream (data (appendPadding qr))) = take (bit_idx qr) (bit_stream (data qr))"
  proof (rule nth_equalityI)
    show "length (take (bit_idx qr) (bit_stream (data (appendPadding qr)))) = length (take (bit_idx qr) (bit_stream (data qr)))"
      using len \<open>length (data qr) \<le> _\<close> by (simp add: min_def)
    fix j assume "j < length (take (bit_idx qr) (bit_stream (data (appendPadding qr))))"
    then have j: "j < bit_idx qr" by simp
    then have jl: "j < 8 * length (data qr)" "j < 8 * length (data (appendPadding qr))" "j div 8 < length (data qr)"
      using len \<open>length (data qr) \<le> _\<close> by (auto simp: div_less_iff_less_mult)
    show "take (bit_idx qr) (bit_stream (data (appendPadding qr))) ! j = take (bit_idx qr) (bit_stream (data qr)) ! j"
      using j jl pad_from_props(3)[OF k[OF j] jl(3)] by (simp add: appendPadding_def)
  qed
qed

text \<open>Reading a segment that stands before the reader.\<close>

lemma extract_segment_reads:
  assumes "holds qr (to_bits (count_bits mode (version qr)) (length str) @ payload mode str @ bs)"
    and "valid_text mode str" and "length str < 2 ^ count_bits mode (version qr)"
  shows "extract_segment mode qr =
    Inr (str, qr\<lparr>bit_idx := bit_idx qr + (count_bits mode (version qr) + payload_bits mode (length str))\<rparr>)"
proof -
  have mode: "text_mode mode" by (rule valid_text_mode[OF assms(2)])
  note cb = nCountBits_text_mode[OF mode, of "version qr"]
  have c: "0 < count_bits mode (version qr)" "count_bits mode (version qr) \<le> 16"
    using count_bits_range[OF mode] by blast+
  let ?q = "qr\<lparr>bit_idx := bit_idx qr + count_bits mode (version qr)\<rparr>"
  note rd = extract_field_reads[OF assms(1) c assms(3)]
  consider "mode = MODE_AlphaNumeric" | "mode = MODE_EightBit" | "mode = MODE_Numeric" using mode by blast
  then show ?thesis
  proof cases
    case 1
    let ?ks = "map (\<lambda>c. the (map_of alphanum_rev c)) str"
    have v: "\<forall>c\<in>set str. map_of alphanum_rev c \<noteq> None" using assms(2) 1 by (simp add: valid_text_def)
    have "map ((!) alphanum) ?ks = str" "\<forall>k\<in>set ?ks. k < 45"
      using v by (auto simp: map_idI alphanum_rev_Some)
    then have "fst (extractAlphanum_chars (length str) ?q) = str"
      using extractAlphanum_chars_reads[of ?q ?ks bs] rd(2) 1 by (simp add: payload_def)
    then have "extractAlphanum_chars (length str) ?q =
        (str, qr\<lparr>bit_idx := bit_idx qr + (count_bits mode (version qr) + payload_bits mode (length str))\<rparr>)"
      using 1 by (intro prod_eqI) (simp_all add: frame_simps payload_bits_def add.assoc)
    then show ?thesis using 1 cb rd(1) by (simp add: extract_segment_def extractAlphanum_def)
  next
    case 2
    have "fst (extract8bit_chars (length str) ?q) = str"
      using extract8bit_chars_reads[of ?q str bs] rd(2) 2 assms(2) by (simp add: payload_def valid_text_def)
    then have "extract8bit_chars (length str) ?q =
        (str, qr\<lparr>bit_idx := bit_idx qr + (count_bits mode (version qr) + payload_bits mode (length str))\<rparr>)"
      using 2 by (intro prod_eqI) (simp_all add: frame_simps payload_bits_def add.assoc)
    then show ?thesis using 2 cb rd(1) by (simp add: extract_segment_def extract8bit_def)
  next
    case 3
    let ?ds = "map (\<lambda>c. unat c - 48) str"
    have v: "\<forall>c\<in>set str. 48 \<le> unat c \<and> unat c \<le> 57" using assms(2) 3 by (simp add: valid_text_def)
    have "map (\<lambda>d. of_nat (48 + d)) ?ds = str" "\<forall>d\<in>set ?ds. d < 10"
      using v by (auto simp: map_idI simp del: of_nat_add)
    then have "fst (extractNumeric_chars (length str) ?q) = str"
      using extractNumeric_chars_reads[of ?q ?ds bs] rd(2) 3 by (simp add: payload_def)
    then have "extractNumeric_chars (length str) ?q =
        (str, qr\<lparr>bit_idx := bit_idx qr + (count_bits mode (version qr) + payload_bits mode (length str))\<rparr>)"
      using 3 by (intro prod_eqI) (simp_all add: frame_simps payload_bits_def add.assoc)
    then show ?thesis using 3 cb rd(1) by (simp add: extract_segment_def extractNumeric_def)
  qed
qed

lemma bit_stream_append: "bit_stream (a @ b) = bit_stream a @ bit_stream b"
proof (rule nth_equalityI)
  fix j assume "j < length (bit_stream (a @ b))"
  then have j: "j < 8 * length a + 8 * length b" by simp
  show "bit_stream (a @ b) ! j = (bit_stream a @ bit_stream b) ! j"
  proof (cases "j < 8 * length a")
    case True
    then show ?thesis using j by (simp add: nth_append div_less_iff_less_mult)
  next
    case False
    then obtain i where "j = 8 * length a + i" "i < 8 * length b"
      using j by (metis add_less_cancel_left le_add_diff_inverse not_less)
    then show ?thesis by (simp add: nth_append)
  qed
qed simp

lemma take_bit_stream_take:
  "m \<le> 8 * n \<Longrightarrow> n \<le> length a \<Longrightarrow> take m (bit_stream (take n a)) = take m (bit_stream a)"
  using bit_stream_append[of "take n a" "drop n a"] by (simp add: min_def)

lemma take_bit_stream_append:
  "m \<le> 8 * length a \<Longrightarrow> take m (bit_stream (a @ b)) = take m (bit_stream a)"
  by (simp add: bit_stream_append)

lemma extractData_reads:
  assumes "byte_list w" and "valid_text mode str" and "length str < 2 ^ count_bits mode (version qr)"
    and "bytes qr = w" and "length (segment_bits (version qr) mode str) \<le> 8 * length w"
    and "4 < 8 * length w"
    and "take (length (segment_bits (version qr) mode str) + r) (bit_stream w) =
           segment_bits (version qr) mode str @ replicate r False"
    and "r = min 4 (8 * length w - length (segment_bits (version qr) mode str))"
  shows "\<exists>q. extractData qr = Inr q \<and> data_text q = str"
proof -
  have mode: "text_mode mode" by (rule valid_text_mode[OF assms(2)])
  define B where "B = length (segment_bits (version qr) mode str)"
  define a where "a = w @ replicate 4 (0::nat)"
  let ?seg = "to_bits (count_bits mode (version qr)) (length str) @ payload mode str"
  let ?k = "count_bits mode (version qr) + payload_bits mode (length str)"
  have B: "B = 4 + ?k" by (simp add: B_def length_segment_bits[OF mode])
  have Br: "B + r \<le> 8 * length w" using assms(5,8) by (simp add: B_def)
  let ?q0 = "qr\<lparr>bytes := a, data_text := [], bit_idx := 0\<rparr>"
  have "byte_list a" using assms(1) by (auto simp: a_def byte_list_def)
  moreover have "take (B + r) (bit_stream a) = to_bits 4 mode @ ?seg @ replicate r False"
    using take_bit_stream_append[OF Br, of "replicate 4 0"] assms(7) by (simp add: a_def B_def segment_bits_def)
  moreover have "length (to_bits 4 mode @ ?seg @ replicate r False) = B + r"
    using B mode by simp
  ultimately have h0: "holds ?q0 (to_bits 4 mode @ ?seg @ replicate r False)"
    using Br unfolding holds_def by (simp only: qr.simps) (simp add: a_def)
  have m: "mode < 2 ^ 4" "mode \<noteq> MODE_Terminator" using mode by auto
  let ?q1 = "?q0\<lparr>bit_idx := bit_idx ?q0 + 4\<rparr>"
  have e0: "extract_field ?q0 4 = (mode, ?q1)" and h1: "holds ?q1 (?seg @ replicate r False)"
    using extract_field_reads[OF h0 _ _ m(1)] by simp_all
  let ?q2 = "?q1\<lparr>bit_idx := bit_idx ?q1 + ?k\<rparr>"
  have e1: "extract_segment mode ?q1 = Inr (str, ?q2)"
    using extract_segment_reads[of ?q1 mode str "replicate r False"] h1 assms(2,3) by simp
  let ?q3 = "?q2\<lparr>data_text := str\<rparr>"
  have start: "extract_segments (int (8 * length w)) ?q0 = extract_segments (int (8 * length w)) ?q3"
    using assms(6) e0 e1 m(2) by (subst extract_segments.simps) simp
  have stop: "\<exists>q. extract_segments (int (8 * length w)) ?q3 = Inr q \<and> data_text q = str"
  proof (cases "int B < int (8 * length w) - 4")
    case True
    then have r: "r = 4" using assms(5,8) by (simp add: B_def)
    have z: "to_bits 4 0 = replicate 4 False" by (simp add: to_bits_def numeral_eq_Suc)
    have "holds ?q3 (to_bits 4 0 @ [])"
    proof -
      have "drop B (take (B + r) (bit_stream a)) = replicate r False"
        using \<open>take (B + r) (bit_stream a) = _\<close> B mode by simp
      then have "take r (drop B (bit_stream a)) = replicate r False" by (simp add: drop_take)
      then show ?thesis
        using \<open>byte_list a\<close> Br B r unfolding holds_def z by (simp add: a_def add.commute)
    qed
    from extract_field_reads(1)[OF this] show ?thesis
      using True B by (subst extract_segments.simps) simp
  next
    case False
    then show ?thesis using B by (subst extract_segments.simps) simp
  qed
  show ?thesis
    using stop start assms(4) by (simp add: extractData_def a_def mult.commute)
qed

lemma padded_text_reads:
  assumes "valid_level (version qr) l" and "valid_text mode str"
    and "getDataCapacity (version qr) l mode = Inr cap" and "length str \<le> cap"
    and "n_data_codewords qr = n_codewords ! version qr - n_ec_codewords ! version qr ! l"
    and "data qr = replicate (n_data_codewords qr) 0" and "bit_idx qr = 0"
  obtains qr1 qr2 d i where "addTextImplementation qr mode str = Inr qr1"
    and "addTextImplementation qr1 MODE_Terminator [] = Inr qr2"
    and "appendPadding qr2 = qr\<lparr>data := d, bit_idx := i\<rparr>"
    and "n_data_codewords qr \<le> length d" and "\<forall>b\<in>set d. b < 256"
    and "\<And>qr3. version qr3 = version qr \<Longrightarrow> bytes qr3 = take (n_data_codewords qr) d \<Longrightarrow>
           \<exists>qr4. extractData qr3 = Inr qr4 \<and> data_text qr4 = str"
proof -
  let ?n = "n_data_codewords qr" and ?seg = "segment_bits (version qr) mode str"
  have mode: "text_mode mode" by (rule valid_text_mode[OF assms(2)])
  have fit: "length ?seg \<le> 8 * ?n"
    using capacity_exact[OF mode assms(1,3), of "length str"] assms(4,5)
    by (simp add: length_segment_bits[OF mode] add.assoc)
  have cnt: "length str < 2 ^ count_bits mode (version qr)"
    by (rule count_field_holds_length[OF mode assms(1,3,4)])
  have n8: "8 \<le> ?n"
    using valid_level_row[OF assms(1)] assms(5) by (simp add: table_row_ok_def sizes_ok_def Let_def)
  have w0: "writer_ok (data qr) (bit_idx qr)"
    using n8 assms(6,7) by (auto simp: writer_ok_def byte_list_def div_less_iff_less_mult)
  obtain q1 where q1: "addTextImplementation qr mode str = Inr q1" "writes qr ?seg q1"
    using addText_writes[OF w0 assms(2) cnt] fit assms(7) by auto
  obtain q2 where q2: "addTextImplementation q1 MODE_Terminator [] = Inr q2" "writes q1 (replicate 4 False) q2"
    using addText_terminator_writes[OF writes_ok[OF q1(2)]] by blast
  have w: "writes qr (?seg @ replicate 4 False) q2" by (rule writes_trans[OF q1(2) q2(2)])
  define d where "d = data (appendPadding q2)"
  have idx: "bit_idx q2 = length ?seg + 4" using writes_frame(3)[OF w] assms(7) by simp
  have fr: "appendPadding q2 = qr\<lparr>data := d, bit_idx := bit_idx q2\<rparr>"
    using w unfolding d_def by (auto simp: appendPadding_def writes_def Let_def)
  note keep = appendPadding_keeps[OF writes_ok[OF w]]
  have len: "?n \<le> length d"
    using keep(3) w assms(6) idx unfolding d_def by (auto simp: writes_def)
  have bl: "byte_list d" using keep(2) idx unfolding d_def by simp
  have st: "take (length ?seg + 4) (bit_stream d) = ?seg @ replicate 4 False"
    using keep(1) w assms(7) idx unfolding d_def by (auto simp: writes_def)
  let ?w = "take ?n d"
  define r where "r = min 4 (8 * length ?w - length ?seg)"
  have Lw: "length ?w = ?n" using len by simp
  have r: "length ?seg + r \<le> 8 * ?n" "r \<le> 4" using fit Lw unfolding r_def by auto
  have "take (length ?seg + r) (bit_stream ?w) = take (length ?seg + r) (take (length ?seg + 4) (bit_stream d))"
    using take_bit_stream_take[OF r(1) len] r(2) by (simp add: min_def)
  also have "\<dots> = ?seg @ replicate r False" using r(2) unfolding st by (simp add: min_def)
  finally have stw: "take (length ?seg + r) (bit_stream ?w) = ?seg @ replicate r False" .
  have blw: "byte_list ?w" using bl by (auto simp: byte_list_def dest: in_set_takeD)
  have "\<exists>qr4. extractData qr3 = Inr qr4 \<and> data_text qr4 = str"
    if "version qr3 = version qr" "bytes qr3 = ?w" for qr3
    using extractData_reads[OF blw assms(2), of qr3 r] cnt that fit Lw n8 stw by (simp add: r_def)
  then show thesis using that[OF q1(1) q2(1) fr len] bl by (simp add: byte_list_def)
qed

text \<open>
  C6: Every text whose characters the mode can encode and whose length is at most the
  capacity of the version and level is written, terminated and padded without an exception,
  and \<open>extractData\<close> reads the same text back from the data words.
\<close>

theorem text_roundtrip:
  assumes "valid_level (version qr) l" and "valid_text mode str"
    and "getDataCapacity (version qr) l mode = Inr cap" and "length str \<le> cap"
    and "n_data_codewords qr = n_codewords ! version qr - n_ec_codewords ! version qr ! l"
    and "data qr = replicate (n_data_codewords qr) 0" and "bit_idx qr = 0"
  shows "\<exists>qr1 qr2. addTextImplementation qr mode str = Inr qr1 \<and>
    addTextImplementation qr1 MODE_Terminator [] = Inr qr2 \<and>
    (let words = take (n_data_codewords qr) (data (appendPadding qr2))
     in length words = n_data_codewords qr \<and> (\<forall>b\<in>set words. b < 256) \<and>
        (\<forall>qr3. version qr3 = version qr \<and> bytes qr3 = words \<longrightarrow>
           (\<exists>qr4. extractData qr3 = Inr qr4 \<and> data_text qr4 = str)))"
proof -
  obtain qr1 qr2 d i where r: "addTextImplementation qr mode str = Inr qr1"
    "addTextImplementation qr1 MODE_Terminator [] = Inr qr2"
    "appendPadding qr2 = qr\<lparr>data := d, bit_idx := i\<rparr>" "n_data_codewords qr \<le> length d" "\<forall>b\<in>set d. b < 256"
    "\<And>qr3. version qr3 = version qr \<Longrightarrow> bytes qr3 = take (n_data_codewords qr) d \<Longrightarrow>
       \<exists>qr4. extractData qr3 = Inr qr4 \<and> data_text qr4 = str"
    using padded_text_reads[OF assms] by metis
  then show ?thesis by (auto simp: Let_def dest: in_set_takeD)
qed

theorem text_roundtrip_witness:
  "\<exists>qr1. addTextImplementation (new_qr\<lparr>version := 1, n_data_codewords := 9, data := replicate 9 0\<rparr>)
     MODE_AlphaNumeric (lit ''AC-42'') = Inr qr1"
proof -
  have "map_of alphanum_rev c \<noteq> None" if "c \<in> set (lit ''AC-42'')" for c
    using that by (auto simp: alphanum_rev_def)
  then have "valid_text MODE_AlphaNumeric (lit ''AC-42'')" by (simp add: valid_text_def)
  moreover have "valid_level 1 EC_LEVEL_H" by (simp add: valid_level_def)
  moreover have "getDataCapacity 1 EC_LEVEL_H MODE_AlphaNumeric = Inr 10"
    by (simp add: getDataCapacity_def nCountBits_def n_codewords_def n_ec_codewords_def)
  ultimately show ?thesis
    using text_roundtrip[of "new_qr\<lparr>version := 1, n_data_codewords := 9, data := replicate 9 0\<rparr>"
        EC_LEVEL_H MODE_AlphaNumeric "lit ''AC-42''" 10]
    by (auto simp: new_qr_def n_codewords_def n_ec_codewords_def)
qed

text \<open>
  C7: A text of allowed characters is rejected with the exception for long texts exactly
  when it is longer than \<open>getDataCapacity\<close> says.
\<close>

theorem too_long_iff_over_capacity:
  assumes "valid_level (version qr) l" and "valid_text mode str"
    and "getDataCapacity (version qr) l mode = Inr cap"
    and "n_data_codewords qr = n_codewords ! version qr - n_ec_codewords ! version qr ! l"
    and "data qr \<noteq> []" and "bit_idx qr = 0"
  shows "if length str \<le> cap then \<exists>qr'. addTextImplementation qr mode str = Inr qr'
         else addTextImplementation qr mode str = Inl Text_Too_Long"
proof -
  have mode: "text_mode mode" by (rule valid_text_mode[OF assms(2)])
  obtain q where q: "moves qr (4 + (count_bits mode (version qr) + payload_bits mode (length str))) q"
    "addTextImplementation qr mode str =
      (if 8 * n_data_codewords q < bit_idx q then Inl Text_Too_Long else Inr q)"
    using addText_moves[OF _ assms(2), of qr] assms(5,6) by auto
  show ?thesis
    using q capacity_exact[OF mode assms(1,3), of "length str"] assms(4,6) moves_frame[OF q(1)] by auto
qed

theorem too_long_iff_over_capacity_witness:
  "addTextImplementation (new_qr\<lparr>version := 1, n_data_codewords := 9, data := replicate 9 0\<rparr>)
     MODE_EightBit (lit ''12345678'') = Inl Text_Too_Long"
proof -
  have "valid_text MODE_EightBit (lit ''12345678'')" by (simp add: valid_text_def)
  moreover have "valid_level 1 EC_LEVEL_H" by (simp add: valid_level_def)
  moreover have "getDataCapacity 1 EC_LEVEL_H MODE_EightBit = Inr 7"
    by (simp add: getDataCapacity_def nCountBits_def n_codewords_def n_ec_codewords_def)
  ultimately show ?thesis
    using too_long_iff_over_capacity[of "new_qr\<lparr>version := 1, n_data_codewords := 9, data := replicate 9 0\<rparr>"
        EC_LEVEL_H MODE_EightBit "lit ''12345678''" 7]
    by (simp add: new_qr_def n_codewords_def n_ec_codewords_def split: if_splits)
qed

end
