(* ===== verification/QrBlocks.thy ===== *)
theory QrBlocks
  imports QrBits "HOL-Library.Multiset"
begin

text \<open>
  The error correction blocks of a QR symbol (qrcodedecode.js): \<open>setBlocks\<close> lays the code words
  of a version and level out in interleaved blocks, \<open>addErrorCorrection\<close> computes the parity
  words of each block and stores all words at their places, and \<open>correctErrors\<close> collects the
  blocks from received code words, corrects them and joins their data. The theorems show that
  the layout uses every word exactly once and that up to half of the parity words of every
  block may be damaged without losing data.
\<close>

section \<open>Layout\<close>

definition push_index :: "nat \<Rightarrow> nat list list \<times> nat \<Rightarrow> nat list list \<times> nat" where
  "push_index b s = (let (bi, w) = s in (bi[b := bi ! b @ [w]], w + 1))"

definition push_round :: "nat \<Rightarrow> nat \<Rightarrow> nat list list \<times> nat \<Rightarrow> nat list list \<times> nat" where
  "push_round n_blocks i = fold push_index [0..<n_blocks]"

definition setBlocks :: "qr \<Rightarrow> qr" where
  "setBlocks qr =
     (let nc = n_codewords ! version qr;
          ne = n_ec_codewords ! version qr ! error_correction_level qr;
          nd = nc - ne;
          e = ec_blocks ! version qr ! error_correction_level qr;
          n_blocks_first = e ! 0;
          n_blocks_second = (if length e = 1 then 0 else e ! 1);
          n_blocks = n_blocks_first + n_blocks_second;
          n_block_words_first = nd div n_blocks;
          n_block_words_second = (if length e = 1 then 0 else n_block_words_first + 1);
          ecw = ne div n_blocks;
          s0 = (replicate n_blocks [], 0);
          s1 = fold (push_round n_blocks) [0..<n_block_words_first] s0;
          s2 = fold push_index [n_blocks_first..<n_blocks] s1;
          s3 = fold (push_round n_blocks) [0..<ecw] s2
      in qr\<lparr>n_data_codewords := nd, n_block_ec_words := ecw,
            block_data_lengths := replicate n_blocks_first n_block_words_first @
              replicate n_blocks_second n_block_words_second,
            block_indices := fst s3\<rparr>)"

text \<open>
  Every step hands out the next index, so the indices in all blocks together are the numbers
  below the counter, each exactly once.
\<close>

definition pushed :: "nat \<Rightarrow> nat list list \<times> nat \<Rightarrow> bool" where
  "pushed n_blocks s \<longleftrightarrow> length (fst s) = n_blocks \<and> mset (concat (fst s)) = mset [0..<snd s]"

lemma mset_concat_update:
  "b < length xs \<Longrightarrow> mset (concat (xs[b := xs ! b @ [w]])) = add_mset w (mset (concat xs))"
proof (induction xs arbitrary: b)
  case (Cons x xs)
  then show ?case by (cases b) auto
qed simp

lemma push_index_pushed: "b < n \<Longrightarrow> pushed n s \<Longrightarrow> pushed n (push_index b s)"
  by (auto simp: pushed_def push_index_def split_def mset_concat_update)

lemma fold_push_index_pushed:
  "\<forall>b\<in>set bs. b < n \<Longrightarrow> pushed n s \<Longrightarrow> pushed n (fold push_index bs s)"
  by (induction bs arbitrary: s) (simp_all add: push_index_pushed)

lemma push_rounds_pushed: "pushed n s \<Longrightarrow> pushed n (fold (push_round n) is s)"
  by (induction "is" arbitrary: s) (simp_all add: push_round_def fold_push_index_pushed)

lemma snd_fold_push_index [simp]: "snd (fold push_index bs s) = snd s + length bs"
  by (induction bs arbitrary: s) (auto simp: push_index_def split_def)

lemma length_fst_push_index [simp]: "length (fst (push_index b s)) = length (fst s)"
  by (simp add: push_index_def split_def)

lemma length_fst_fold_push_index [simp]: "length (fst (fold push_index bs s)) = length (fst s)"
  by (induction bs arbitrary: s) auto

lemma length_fst_push_rounds [simp]: "length (fst (fold (push_round n) is s)) = length (fst s)"
  by (induction "is" arbitrary: s) (auto simp: push_round_def)

lemma snd_push_rounds [simp]: "snd (fold (push_round n) is s) = snd s + length is * n"
  by (induction "is" arbitrary: s) (auto simp: push_round_def)

lemma block_length_push_index:
  "c < length (fst s) \<Longrightarrow> distinct bs \<Longrightarrow>
     length (fst (fold push_index bs s) ! c) = length (fst s ! c) + (if c \<in> set bs then 1 else 0)"
proof (induction bs arbitrary: s)
  case (Cons b bs)
  have "length (fst (push_index b s) ! c) = length (fst s ! c) + (if c = b then 1 else 0)"
    using Cons.prems by (simp add: push_index_def split_def)
  then show ?case using Cons by auto
qed simp

lemma block_length_push_rounds:
  "c < length (fst s) \<Longrightarrow> c < n \<Longrightarrow>
     length (fst (fold (push_round n) is s) ! c) = length (fst s ! c) + length is"
  by (induction "is" arbitrary: s) (simp_all add: push_round_def block_length_push_index)

text \<open>What \<open>setBlocks\<close> has set up, for the operations that use it.\<close>

definition blocks_ok :: "qr \<Rightarrow> bool" where
  "blocks_ok qr \<longleftrightarrow>
     mset (concat (block_indices qr)) = mset [0..<n_codewords ! version qr] \<and>
     length (block_indices qr) = length (block_data_lengths qr) \<and>
     (\<forall>b<length (block_indices qr). length (block_indices qr ! b) =
        block_data_lengths qr ! b + n_block_ec_words qr) \<and>
     (\<forall>b<length (block_indices qr). length (block_indices qr ! b) \<le> 255) \<and>
     sum_list (block_data_lengths qr) = n_data_codewords qr \<and>
     2 \<le> n_block_ec_words qr \<and> n_block_ec_words qr \<le> 30 \<and>
     n_data_codewords qr = n_codewords ! version qr -
       n_ec_codewords ! version qr ! error_correction_level qr"

lemma setBlocks_frame [frame_simps]:
  "version (setBlocks qr) = version qr"
  "error_correction_level (setBlocks qr) = error_correction_level qr"
  "data (setBlocks qr) = data qr" "bytes (setBlocks qr) = bytes qr"
  "codewords (setBlocks qr) = codewords qr" "bit_idx (setBlocks qr) = bit_idx qr"
  "mask_no (setBlocks qr) = mask_no qr" "n_modules (setBlocks qr) = n_modules qr"
  "functional_pattern (setBlocks qr) = functional_pattern qr"
  "pixels (setBlocks qr) = pixels qr" "module_size (setBlocks qr) = module_size qr"
  by (simp_all add: setBlocks_def Let_def)

lemma setBlocks_ok:
  assumes "valid_level (version qr) (error_correction_level qr)"
  shows "blocks_ok (setBlocks qr)"
proof -
  define nc ne e where "nc = n_codewords ! version qr"
    and "ne = n_ec_codewords ! version qr ! error_correction_level qr"
    and "e = ec_blocks ! version qr ! error_correction_level qr"
  define nf ns wf ecw where "nf = e ! 0" and "ns = (if length e = 1 then 0 else e ! 1)"
    and "wf = (nc - ne) div (nf + ns)" and "ecw = ne div (nf + ns)"
  define nb where "nb = nf + ns"
  have sz: "sizes_ok (version qr) nc ne e"
    using valid_level_row[OF assms] by (simp add: table_row_ok_def nc_def ne_def e_def)
  have "length e = 1 \<or> length e = 2" using sz by (simp add: sizes_ok_def Let_def)
  then have nb: "sum_list e = nb"
    by (auto simp: nb_def nf_def ns_def length_Suc_conv numeral_eq_Suc)
  note sz = sz[unfolded sizes_ok_def Let_def nb]
  have w': "wf = (nc - ne) div nb" "ecw = ne div nb" by (simp_all add: wf_def ecw_def nb_def)
  have le: "ne < nc" using sz by blast
  have ec: "nb * ecw = ne" using sz mult_div_mod_eq[of nb ne] by (simp add: w')
  have md: "(nc - ne) mod nb = ns" using sz by (simp add: ns_def)
  have r: "7 \<le> ecw" "ecw \<le> 30" "wf + 1 + ecw \<le> 255" using sz unfolding w' by blast+
  have nd: "nb * wf + ns = nc - ne"
    using md mult_div_mod_eq[of nb "nc - ne"] by (simp add: wf_def nb_def)
  let ?s1 = "fold (push_round nb) [0..<wf] (replicate nb [], 0)"
  let ?s2 = "fold push_index [nf..<nb] ?s1"
  let ?s3 = "fold (push_round nb) [0..<ecw] ?s2"
  have q: "setBlocks qr = qr\<lparr>n_data_codewords := nc - ne, n_block_ec_words := ecw,
      block_data_lengths := replicate nf wf @ replicate ns (if length e = 1 then 0 else wf + 1),
      block_indices := fst ?s3\<rparr>"
    unfolding setBlocks_def Let_def nc_def ne_def e_def nf_def ns_def wf_def ecw_def nb_def ..
  have p: "pushed nb ?s3"
    by (intro push_rounds_pushed fold_push_index_pushed) (auto simp: pushed_def concat_replicate_trivial)
  have w: "snd ?s3 = nc" using nd ec le by (simp add: nb_def algebra_simps)
  have len: "length (fst ?s3 ! b) = wf + (if nf \<le> b then 1 else 0) + ecw" if "b < nb" for b
    using that by (simp add: block_length_push_rounds block_length_push_index)
  have ns1: "length e = 1 \<Longrightarrow> ns = 0" by (simp add: ns_def)
  have bdl: "(replicate nf wf @ replicate ns (if length e = 1 then 0 else wf + 1)) ! b =
      wf + (if nf \<le> b then 1 else 0)" if "b < nb" for b
    using that ns1 by (auto simp: nth_append nb_def)
  have lb: "length (fst ?s3) = nb" by simp
  have sum: "sum_list (replicate nf wf @ replicate ns (if length e = 1 then 0 else wf + 1)) = nc - ne"
    using nd ns1 by (cases "length e = 1") (simp_all add: sum_list_replicate nb_def algebra_simps)
  define S L where "S = fst ?s3"
    and "L = replicate nf wf @ replicate ns (if length e = 1 then 0 else wf + 1)"
  have S: "mset (concat S) = mset [0..<nc]" "length S = nb" "length L = nb"
    "\<forall>b<nb. length (S ! b) = L ! b + ecw" "\<forall>b<nb. length (S ! b) \<le> 255" "sum_list L = nc - ne"
    using p w lb len bdl r sum unfolding S_def[symmetric] L_def[symmetric] pushed_def
    by (simp_all add: L_def nb_def)
  show ?thesis
    unfolding blocks_ok_def q S_def[symmetric] L_def[symmetric]
    using S r by (simp add: nc_def ne_def)
qed

section \<open>Error correction\<close>

text \<open>
  A word read past the end of an array is undefined, which the arithmetic of the blocks
  treats as 0; the arrays here are long enough for this not to happen.
\<close>

definition word_at :: "nat list \<Rightarrow> nat \<Rightarrow> nat" where
  "word_at a i = (if i < length a then a ! i else 0)"

definition put_words :: "nat list \<Rightarrow> nat \<Rightarrow> nat list \<Rightarrow> nat \<Rightarrow> nat list \<Rightarrow> nat list" where
  "put_words idx off vals m a = fold (\<lambda>i a. js_set 0 a (idx ! (off + i)) (word_at vals i)) [0..<m] a"

definition encode_block :: "qr \<Rightarrow> nat \<Rightarrow> reed_solomon \<times> nat list \<times> nat \<Rightarrow> reed_solomon \<times> nat list \<times> nat" where
  "encode_block qr b s =
     (let (rs, a, n) = s;
          m = block_data_lengths qr ! b;
          words_in = js_slice (data qr) (int n) (int (n + m));
          a1 = put_words (block_indices qr ! b) 0 words_in m a;
          (rs1, words_out) = encode rs (map of_nat words_in);
          a2 = put_words (block_indices qr ! b) m (map unat words_out) (length words_out) a1
      in (rs1, a2, n + m))"

text \<open>
  The Reed-Solomon code computes with bytes. A data word above 255, which the writer leaves
  behind only for a character above 255, has no logarithm in the tables and would turn the
  parity words into undefined values.
\<close>

definition addErrorCorrection :: "qr \<Rightarrow> qr_error + qr" where
  "addErrorCorrection qr =
     (if list_all (\<lambda>w. w < 256) (take (n_data_codewords qr) (data qr)) then
        (let (rs, a, n) = fold (encode_block qr) [0..<length (block_data_lengths qr)]
                            (new_ReedSolomon (n_block_ec_words qr), [], 0)
         in Inr (qr\<lparr>bytes := a\<rparr>))
      else Inl Not_A_Number)"

fun correct_blocks :: "nat list \<Rightarrow> nat list list \<Rightarrow> reed_solomon \<Rightarrow> nat option list \<times> nat list
    \<Rightarrow> qr_error + nat option list \<times> nat list" where
  "correct_blocks cw [] rs acc = Inr acc"
| "correct_blocks cw (idx # blocks) rs (errs, out) =
     (let (rs, words_out) = decode rs (map (\<lambda>i. of_nat (word_at cw i)) idx)
      in if \<not> corrected rs then Inl (Unable_To_Correct (uncorrected_reason rs))
         else correct_blocks cw blocks rs (errs @ [n_errors rs], out @ map unat words_out))"

text \<open>The comparisons of the grade are made with half of an odd number where \<open>ecw\<close> is odd.\<close>

definition max_errors :: "nat option list \<Rightarrow> nat" where
  "max_errors errs = fold (\<lambda>e m. case e of None \<Rightarrow> m | Some k \<Rightarrow> if k > m then k else m) errs 0"

definition gradeErrors :: "nat \<Rightarrow> nat option list \<Rightarrow> nat" where
  "gradeErrors ecw errs =
     (let m = 2 * int (max_errors errs); e = int ecw
      in if m > e - 2 then 0 else if m > e - 4 then 1 else if m > e - 6 then 2
         else if m > e - 8 then 3 else 4)"

definition qr_correctErrors :: "qr \<Rightarrow> qr_error + qr" where
  "qr_correctErrors qr =
     bind_ok (correct_blocks (codewords qr) (block_indices qr)
                (new_ReedSolomon (n_block_ec_words qr)) ([], [])) (\<lambda>(errs, out).
       Inr (qr\<lparr>error_counts := errs, bytes := out,
               error_grade := gradeErrors (n_block_ec_words qr) errs\<rparr>))"

lemma byte_list_unat [simp]: "byte_list (map unat (ws :: byte list))"
proof -
  have "unat w < 256" for w :: byte using unsigned_less[of w] by simp
  then show ?thesis by (auto simp: byte_list_def)
qed

lemma put_words_Suc:
  "put_words idx off vals (Suc m) a = js_set 0 (put_words idx off vals m a) (idx ! (off + m)) (word_at vals m)"
  by (simp add: put_words_def)

lemma put_words_0 [simp]: "put_words idx off vals 0 a = a"
  by (simp add: put_words_def)

lemma length_put_words_ge: "length a \<le> length (put_words idx off vals m a)"
  by (induction m) (auto simp: put_words_Suc)

lemma length_put_words_le:
  "\<forall>i<m. idx ! (off + i) < N \<Longrightarrow> length a \<le> N \<Longrightarrow> length (put_words idx off vals m a) \<le> N"
  by (induction m) (auto simp: put_words_Suc Suc_le_eq)

lemma put_words_covers: "i < m \<Longrightarrow> idx ! (off + i) < length (put_words idx off vals m a)"
  by (induction m) (auto simp: put_words_Suc less_Suc_eq)

lemma put_words_other:
  "p < length a \<Longrightarrow> \<forall>i<m. idx ! (off + i) \<noteq> p \<Longrightarrow> put_words idx off vals m a ! p = a ! p"
proof (induction m)
  case (Suc m)
  have "p < length (put_words idx off vals m a)"
    using Suc.prems(1) length_put_words_ge[of a idx off vals m] by linarith
  moreover have "p \<noteq> idx ! (off + m)" using Suc.prems(2) by blast
  ultimately show ?case using Suc by (simp add: put_words_Suc)
qed simp

lemma put_words_same:
  "distinct idx \<Longrightarrow> off + m \<le> length idx \<Longrightarrow> i < m \<Longrightarrow>
     put_words idx off vals m a ! (idx ! (off + i)) = word_at vals i"
proof (induction m)
  case (Suc m)
  show ?case
  proof (cases "i = m")
    case False
    then have "i < m" using Suc.prems by simp
    then show ?thesis
      using Suc put_words_covers[of i m idx off vals a] by (simp add: put_words_Suc nth_eq_iff_index_eq)
  qed (simp add: put_words_Suc)
qed simp

lemma put_words_bytes:
  "byte_list a \<Longrightarrow> byte_list vals \<Longrightarrow> byte_list (put_words idx off vals m a)"
proof (induction m)
  case (Suc m)
  have "word_at vals m < 256" using Suc.prems(2) by (simp add: word_at_def byte_list_def)
  then show ?case unfolding put_words_Suc using Suc by (intro byte_list_js_set) auto
qed simp

section \<open>The words of a block\<close>

definition block_start :: "qr \<Rightarrow> nat \<Rightarrow> nat" where
  "block_start qr b = sum_list (take b (block_data_lengths qr))"

definition block_msg :: "qr \<Rightarrow> nat \<Rightarrow> byte list" where
  "block_msg qr b = map of_nat (take (block_data_lengths qr ! b) (drop (block_start qr b) (data qr)))"

definition block_word :: "qr \<Rightarrow> nat \<Rightarrow> byte list" where
  "block_word qr b = block_msg qr b @ snd (encode (new_ReedSolomon (n_block_ec_words qr)) (block_msg qr b))"

lemma encode_parity:
  "rs_ok n rs \<Longrightarrow> snd (encode rs msg) = snd (encode (new_ReedSolomon n) msg)"
  by (auto simp: encode_def rs_ok_def new_ReedSolomon_def Let_def)

text \<open>Conditions under which the blocks of \<open>qr\<close> are encoded.\<close>

definition encodable :: "qr \<Rightarrow> bool" where
  "encodable qr \<longleftrightarrow> blocks_ok qr \<and> n_data_codewords qr \<le> length (data qr) \<and>
     (\<forall>w\<in>set (take (n_data_codewords qr) (data qr)). w < 256)"

lemma block_start_Suc:
  "b < length (block_data_lengths qr) \<Longrightarrow> block_start qr (Suc b) = block_start qr b + block_data_lengths qr ! b"
  by (simp add: block_start_def take_Suc_conv_app_nth)

lemma block_start_le:
  assumes "encodable qr" "b < length (block_data_lengths qr)"
  shows "block_start qr b + block_data_lengths qr ! b \<le> length (data qr)"
    "block_start qr b + block_data_lengths qr ! b \<le> n_data_codewords qr"
proof -
  have "sum_list (take (Suc b) (block_data_lengths qr)) \<le> sum_list (block_data_lengths qr)"
    by (metis append_take_drop_id le_add1 sum_list_append)
  then show "block_start qr b + block_data_lengths qr ! b \<le> n_data_codewords qr"
    using assms block_start_Suc[of b qr] by (simp add: encodable_def blocks_ok_def block_start_def)
  then show "block_start qr b + block_data_lengths qr ! b \<le> length (data qr)"
    using assms by (simp add: encodable_def)
qed

lemma length_block_msg:
  assumes "encodable qr" "b < length (block_data_lengths qr)"
  shows "length (block_msg qr b) = block_data_lengths qr ! b"
  using block_start_le[OF assms] by (simp add: block_msg_def)

lemma block_words_in:
  assumes "encodable qr" "b < length (block_data_lengths qr)"
  defines "ws \<equiv> take (block_data_lengths qr ! b) (drop (block_start qr b) (data qr))"
  shows "js_slice (data qr) (int (block_start qr b)) (int (block_start qr b + block_data_lengths qr ! b)) = ws"
    and "byte_list ws" and "map unat (block_msg qr b) = ws" and "length ws = block_data_lengths qr ! b"
proof -
  note le = block_start_le[OF assms(1,2)]
  show "js_slice (data qr) (int (block_start qr b)) (int (block_start qr b + block_data_lengths qr ! b)) = ws"
    unfolding ws_def by (rule js_slice_range[OF le(1)])
  have "set ws \<subseteq> set (take (n_data_codewords qr) (data qr))"
  proof
    fix x assume "x \<in> set ws"
    then obtain i where "i < block_data_lengths qr ! b" "x = data qr ! (block_start qr b + i)"
        "block_start qr b + i < length (data qr)"
      using le(1) unfolding ws_def by (auto simp: in_set_conv_nth)
    moreover have "block_start qr b + i < n_data_codewords qr" using calculation le(2) by linarith
    ultimately show "x \<in> set (take (n_data_codewords qr) (data qr))"
      by (auto simp: in_set_conv_nth)
  qed
  then show bl: "byte_list ws" using assms(1) by (auto simp: encodable_def byte_list_def)
  show "map unat (block_msg qr b) = ws"
    using bl unfolding block_msg_def ws_def[symmetric]
    by (auto simp: byte_list_def unat_of_nat intro!: map_idI)
  show "length ws = block_data_lengths qr ! b" using le by (simp add: ws_def)
qed

lemma length_block_word:
  assumes "encodable qr" "b < length (block_data_lengths qr)"
  shows "length (block_word qr b) = block_data_lengths qr ! b + n_block_ec_words qr"
    and "length (block_word qr b) = length (block_indices qr ! b)"
  using assms length_block_msg[OF assms]
  by (simp_all add: block_word_def length_parity[of "n_block_ec_words qr"] encodable_def blocks_ok_def)


section \<open>Encoding the blocks\<close>

definition at_places :: "nat list \<Rightarrow> nat list \<Rightarrow> byte list \<Rightarrow> bool" where
  "at_places a idx c \<longleftrightarrow> length idx = length c \<and>
     (\<forall>i<length c. idx ! i < length a \<and> a ! (idx ! i) = unat (c ! i))"

definition encoded_upto :: "qr \<Rightarrow> nat \<Rightarrow> reed_solomon \<times> nat list \<times> nat \<Rightarrow> bool" where
  "encoded_upto qr k s = (case s of (rs, a, n) \<Rightarrow>
     rs_ok (n_block_ec_words qr) rs \<and> n = block_start qr k \<and> byte_list a \<and>
     length a \<le> n_codewords ! version qr \<and>
     (\<forall>b<k. at_places a (block_indices qr ! b) (block_word qr b)))"

lemma concat_nth_distinct:
  assumes "distinct (concat xss)" "b < length xss" "c < length xss" "b \<noteq> c"
    and "x \<in> set (xss ! b)" "y \<in> set (xss ! c)"
  shows "x \<noteq> y"
  using assms
proof (induction xss arbitrary: b c)
  case (Cons xs xss)
  have in_rest: "z \<in> set (concat xss)" if "d < length xss" "z \<in> set (xss ! d)" for d z
    using that by auto
  have dis: "z \<in> set xs \<Longrightarrow> z \<notin> set (concat xss)" for z using Cons.prems(1) by auto
  show ?case
  proof (cases b)
    case 0
    then obtain c' where "c = Suc c'" using Cons.prems(4) by (cases c) auto
    then have "x \<in> set xs" "y \<in> set (concat xss)" using 0 Cons.prems in_rest[of c' y] by auto
    then show ?thesis using dis by blast
  next
    case (Suc b')
    show ?thesis
    proof (cases c)
      case 0
      then have "y \<in> set xs" "x \<in> set (concat xss)" using Suc Cons.prems in_rest[of b' x] by auto
      then show ?thesis using dis by blast
    next
      case (Suc c')
      then show ?thesis using Cons.IH[of b' c'] Cons.prems \<open>b = Suc b'\<close> by auto
    qed
  qed
qed simp

lemma blocks_ok_places:
  assumes "blocks_ok qr"
  shows "distinct (concat (block_indices qr))"
    and "set (concat (block_indices qr)) = {..<n_codewords ! version qr}"
proof -
  have m: "mset (concat (block_indices qr)) = mset [0..<n_codewords ! version qr]"
    using assms by (simp add: blocks_ok_def)
  show "distinct (concat (block_indices qr))" using mset_eq_imp_distinct_iff[OF m] by simp
  show "set (concat (block_indices qr)) = {..<n_codewords ! version qr}"
    using mset_eq_setD[OF m] by (simp add: atLeast0LessThan del: set_concat)
qed

lemma encode_block_step:
  assumes enc: "encodable qr" and b: "b < length (block_data_lengths qr)"
    and s: "encoded_upto qr b s"
  shows "encoded_upto qr (Suc b) (encode_block qr b s)"
proof -
  obtain rs a n where srn: "s = (rs, a, n)" by (cases s)
  have ok: "blocks_ok qr" using enc by (simp add: encodable_def)
  let ?e = "n_block_ec_words qr" and ?N = "n_codewords ! version qr" and ?idx = "block_indices qr ! b"
  define m where "m = block_data_lengths qr ! b"
  note wi = block_words_in[OF enc b, folded m_def]
  define ws where "ws = take m (drop (block_start qr b) (data qr))"
  define p where "p = map unat (snd (encode rs (block_msg qr b)))"
  have lw: "length ws = m" using wi(4) by (simp only: ws_def)
  have rs: "rs_ok ?e rs" and n: "n = block_start qr b" and bl: "byte_list a" and la: "length a \<le> ?N"
    and old: "\<forall>c<b. at_places a (block_indices qr ! c) (block_word qr c)"
    using s srn by (auto simp: encoded_upto_def)
  have par: "p = map unat (snd (encode (new_ReedSolomon ?e) (block_msg qr b)))"
    unfolding p_def using encode_parity[OF rs] by simp
  have lp: "length p = ?e" unfolding p_def by (simp add: length_parity[OF rs])
  define a1 a2 where "a1 = put_words ?idx 0 ws m a" and "a2 = put_words ?idx m p ?e a1"
  have msg: "map of_nat ws = block_msg qr b" by (simp add: ws_def block_msg_def m_def)
  have step: "encode_block qr b s = (fst (encode rs (block_msg qr b)), a2, n + m)"
    using wi(1) msg lp unfolding encode_block_def srn n
    by (simp add: Let_def split_def m_def[symmetric] ws_def[symmetric] a1_def a2_def p_def)
  have bi: "b < length (block_indices qr)" and li: "length ?idx = m + ?e"
    using ok b by (auto simp: blocks_ok_def m_def)
  have sub: "set ?idx \<subseteq> {..<?N}" using blocks_ok_places(2)[OF ok] bi by auto
  have di: "distinct ?idx" using blocks_ok_places(1)[OF ok] bi by (auto simp: distinct_concat_iff)
  have idx: "i < m + ?e \<Longrightarrow> ?idx ! i \<in> set ?idx" for i using li by simp
  have la2: "length a2 \<le> ?N"
    unfolding a2_def a1_def by (intro length_put_words_le) (use la idx sub in \<open>auto simp: subset_iff\<close>)
  have bl2: "byte_list a2"
    unfolding a2_def a1_def p_def ws_def by (intro put_words_bytes bl wi(2) byte_list_unat)
  have new: "at_places a2 ?idx (block_word qr b)"
  proof -
  have "?idx ! i < length a2 \<and> a2 ! (?idx ! i) = unat (block_word qr b ! i)"
    if i: "i < length (block_word qr b)" for i
  proof -
    from i have i': "i < m + ?e" using length_block_word[OF enc b] by (simp add: m_def)
    have w: "unat (block_word qr b ! i) = (ws @ p) ! i"
    proof -
      have "map unat (block_word qr b) = ws @ p"
        using wi(3) par unfolding block_word_def ws_def by simp
      then show ?thesis using i by (metis nth_map)
    qed
    show ?thesis
    proof (cases "i < m")
      case True
      have c: "?idx ! i < length a1" using put_words_covers[of i m ?idx 0 ws a] True by (simp add: a1_def)
      have "a2 ! (?idx ! i) = a1 ! (?idx ! i)" unfolding a2_def
        using c di li True by (intro put_words_other) (auto simp: nth_eq_iff_index_eq)
      also have "\<dots> = ws ! i" 
        using put_words_same[OF di, of 0 m i ws a] True li lw by (simp add: a1_def word_at_def)
      finally show ?thesis
        using c length_put_words_ge[of a1 ?idx m p ?e] w True lw by (simp add: a2_def nth_append)
    next
      case False
      then obtain j where j: "i = m + j" "j < ?e" using i' by (metis add_less_cancel_left le_Suc_ex not_less)
      show ?thesis
        using put_words_same[OF di, of m ?e j p a1] put_words_covers[of j ?e ?idx m p a1] j li lp w lw
        by (simp add: a2_def word_at_def nth_append)
    qed
  qed
  then show ?thesis using length_block_word[OF enc b] by (simp add: at_places_def)
  qed
  have keep: "at_places a2 (block_indices qr ! c) (block_word qr c)" if c: "c < b" for c
  proof -
    have o: "at_places a (block_indices qr ! c) (block_word qr c)" using old c by blast
    have ci: "c < length (block_indices qr)" using c bi by simp
    have "a2 ! x = a ! x \<and> x < length a2" if p: "x \<in> set (block_indices qr ! c)" "x < length a" for x
    proof -
      have ne: "\<forall>i<m + ?e. ?idx ! i \<noteq> x"
        using concat_nth_distinct[OF blocks_ok_places(1)[OF ok] bi ci _ idx p(1)] c by auto
      have l1: "x < length a1" using p(2) length_put_words_ge[of a ?idx 0 ws m] by (simp add: a1_def)
      have "a2 ! x = a1 ! x" unfolding a2_def by (rule put_words_other[OF l1]) (use ne in auto)
      moreover have "a1 ! x = a ! x" unfolding a1_def by (rule put_words_other[OF p(2)]) (use ne in auto)
      ultimately show ?thesis using l1 length_put_words_ge[of a1 ?idx m p ?e] by (simp add: a2_def)
    qed
    then show ?thesis using o by (auto simp: at_places_def)
  qed
  show ?thesis
    unfolding step encoded_upto_def
  proof (simp only: prod.case, intro conjI allI impI)
    show "n + m = block_start qr (Suc b)" using n b by (simp add: block_start_Suc m_def)
    show "at_places a2 (block_indices qr ! c) (block_word qr c)" if "c < Suc b" for c
      using that new keep by (cases "c = b") simp_all
  qed (use rs_ok_encode[OF rs] bl2 la2 in simp_all)
qed

lemma encode_blocks_run:
  assumes "encodable qr" and "k \<le> length (block_data_lengths qr)"
  shows "encoded_upto qr k (fold (encode_block qr) [0..<k] (new_ReedSolomon (n_block_ec_words qr), [], 0))"
  using assms(2)
proof (induction k)
  case 0
  then show ?case by (simp add: encoded_upto_def block_start_def byte_list_def)
next
  case (Suc k)
  then show ?case using encode_block_step[OF assms(1), of k] by simp
qed

lemma addErrorCorrection_ok:
  assumes "encodable qr"
  obtains a where "addErrorCorrection qr = Inr (qr\<lparr>bytes := a\<rparr>)" and "byte_list a"
    and "length a = n_codewords ! version qr"
    and "\<And>b. b < length (block_indices qr) \<Longrightarrow> at_places a (block_indices qr ! b) (block_word qr b)"
proof -
  let ?L = "length (block_data_lengths qr)"
  obtain rs a n where r: "fold (encode_block qr) [0..<?L] (new_ReedSolomon (n_block_ec_words qr), [], 0) = (rs, a, n)"
    by (metis prod_cases3)
  have e: "encoded_upto qr ?L (rs, a, n)" using encode_blocks_run[OF assms order_refl] by (simp only: r)
  have ok: "blocks_ok qr" using assms by (simp add: encodable_def)
  have pl: "at_places a (block_indices qr ! b) (block_word qr b)" if "b < length (block_indices qr)" for b
    using e that ok by (simp add: encoded_upto_def blocks_ok_def)
  have "p < length a" if p: "p < n_codewords ! version qr" for p
  proof -
    have "p \<in> set (concat (block_indices qr))" using blocks_ok_places(2)[OF ok] p by blast
    then obtain idx where "idx \<in> set (block_indices qr)" "p \<in> set idx" by auto
    then obtain b where "b < length (block_indices qr)" "p \<in> set (block_indices qr ! b)"
      by (metis in_set_conv_nth)
    then show ?thesis using pl[of b] by (auto simp: at_places_def in_set_conv_nth)
  qed
  then have "n_codewords ! version qr \<le> length a" by (meson not_le_imp_less less_irrefl)
  then have la: "length a = n_codewords ! version qr" using e by (simp add: encoded_upto_def)
  have "list_all (\<lambda>w. w < 256) (take (n_data_codewords qr) (data qr))"
    using assms by (simp add: encodable_def list_all_iff)
  then have "addErrorCorrection qr = Inr (qr\<lparr>bytes := a\<rparr>)"
    by (simp add: addErrorCorrection_def r)
  then show thesis using that e la pl by (simp add: encoded_upto_def)
qed

section \<open>Correcting the blocks\<close>

lemma concat_slices:
  "k \<le> length L \<Longrightarrow> sum_list L \<le> length xs \<Longrightarrow>
     concat (map (\<lambda>b. take (L ! b) (drop (sum_list (take b L)) xs)) [0..<k]) = take (sum_list (take k L)) xs"
proof (induction k)
  case (Suc k)
  then show ?case by (simp add: take_Suc_conv_app_nth take_add)
qed simp

lemma concat_block_msgs:
  assumes "encodable qr"
  shows "concat (map (\<lambda>b. map unat (block_msg qr b)) [0..<length (block_data_lengths qr)]) =
    take (n_data_codewords qr) (data qr)"
proof -
  let ?L = "block_data_lengths qr"
  have nd: "sum_list ?L = n_data_codewords qr" "sum_list ?L \<le> length (data qr)"
    using assms by (auto simp: encodable_def blocks_ok_def)
  have m: "map (\<lambda>b. map unat (block_msg qr b)) [0..<length ?L] =
      map (\<lambda>b. take (?L ! b) (drop (sum_list (take b ?L)) (data qr))) [0..<length ?L]"
    using block_words_in(3)[OF assms] by (simp add: block_start_def)
  show ?thesis unfolding m using concat_slices[of "length ?L" ?L "data qr"] nd by simp
qed

lemma error_positions_filter:
  assumes "at_places a idx c" and "set idx \<subseteq> {..<length cw}" and "\<forall>w\<in>set cw. w < 256"
    and "length idx \<le> 255"
  shows "card (error_positions c (map (\<lambda>i. of_nat (word_at cw i)) idx)) =
    length (filter (\<lambda>p. cw ! p \<noteq> a ! p) idx)"
proof -
  have "c ! i \<noteq> of_nat (word_at cw (idx ! i)) \<longleftrightarrow> cw ! (idx ! i) \<noteq> a ! (idx ! i)" if i: "i < length idx" for i
  proof -
    have "cw ! (idx ! i) < 256" "idx ! i < length cw" using assms(2,3) i by (auto simp: subset_iff)
    then have "unat (of_nat (word_at cw (idx ! i)) :: byte) = cw ! (idx ! i)"
      by (simp add: word_at_def unat_of_nat)
    moreover have "a ! (idx ! i) = unat (c ! i)" using assms(1) i by (simp add: at_places_def)
    ultimately show ?thesis by (metis word_unat_eq_iff)
  qed
  note iff = this
  let ?r = "map (\<lambda>i. of_nat (word_at cw i)) idx :: byte list"
  have "error_positions c ?r = {i. i < length ?r \<and> c ! i \<noteq> ?r ! i}"
    using assms(1,4) unfolding error_positions_def at_places_def by simp
  also have "\<dots> = {i. i < length idx \<and> cw ! (idx ! i) \<noteq> a ! (idx ! i)}"
    by (rule Collect_cong) (use iff nth_map[of _ idx "\<lambda>i. of_nat (word_at cw i) :: byte"] in \<open>metis length_map\<close>)
  finally have "error_positions c ?r = {i. i < length idx \<and> cw ! (idx ! i) \<noteq> a ! (idx ! i)}" .
  then show ?thesis by (simp add: length_filter_conv_card)
qed

lemma correct_blocks_run:
  assumes enc: "encodable qr" and cw: "n_codewords ! version qr \<le> length cw" "\<forall>w\<in>set cw. w < 256"
    and places: "\<And>b. b < length (block_indices qr) \<Longrightarrow> at_places a (block_indices qr ! b) (block_word qr b)"
    and few: "\<And>b. b < length (block_indices qr) \<Longrightarrow>
       2 * length (filter (\<lambda>p. cw ! p \<noteq> a ! p) (block_indices qr ! b)) \<le> n_block_ec_words qr"
    and rs: "rs_ok (n_block_ec_words qr) rs"
    and k: "k \<le> length (block_indices qr)"
  shows "\<exists>errs'. correct_blocks cw (drop (length (block_indices qr) - k) (block_indices qr)) rs (errs, out) =
    Inr (errs', out @ concat (map (\<lambda>b. map unat (block_msg qr b))
      [length (block_indices qr) - k..<length (block_indices qr)]))"
  using rs k
proof (induction k arbitrary: rs errs out)
  case 0
  then show ?case by simp
next
  case (Suc k)
  let ?B = "length (block_indices qr)" and ?e = "n_block_ec_words qr"
  define b where "b = ?B - Suc k"
  have b: "b < ?B" "Suc b = ?B - k" using Suc.prems(2) by (auto simp: b_def)
  have ok: "blocks_ok qr" using enc by (simp add: encodable_def)
  have bl: "b < length (block_data_lengths qr)" using b ok by (simp add: blocks_ok_def)
  let ?r = "map (\<lambda>i. of_nat (word_at cw i)) (block_indices qr ! b) :: byte list"
  let ?c = "block_word qr b"
  have sub: "set (block_indices qr ! b) \<subseteq> {..<length cw}"
  proof -
    have "set (block_indices qr ! b) \<subseteq> set (concat (block_indices qr))" using nth_mem[OF b(1)] by auto
    then show ?thesis using cw(1) unfolding blocks_ok_places(2)[OF ok] by auto
  qed
  have len: "length ?c = length ?r" "length ?r \<le> 255" "?e \<le> length ?r"
    using length_block_word[OF enc bl] ok b by (auto simp: blocks_ok_def)
  have e: "2 \<le> ?e" "?e < 511" using ok by (auto simp: blocks_ok_def)
  have cd: "code_word ?e ?c" unfolding block_word_def by (rule encode_code_word) (use e in auto)
  have pos: "2 * card (error_positions ?c ?r) \<le> ?e"
    using error_positions_filter[OF places[OF b(1)] sub cw(2)] len few[OF b(1)] by simp
  obtain rs' out' where dec: "decode rs ?r = (rs', out')" by force
  have "out' = block_msg qr b" "corrected rs'"
    using decode_corrects(1,2)[OF Suc.prems(1) e cd len pos] dec len length_block_msg[OF enc bl] 
      length_block_word(1)[OF enc bl]
    by (simp_all add: block_word_def)
  moreover have "rs_ok ?e rs'" using rs_ok_decode[OF Suc.prems(1), of ?r] dec by simp
  moreover have "drop b (block_indices qr) = block_indices qr ! b # drop (Suc b) (block_indices qr)"
    using b(1) by (simp add: Cons_nth_drop_Suc)
  moreover have "[b..<?B] = b # [Suc b..<?B]" using b(1) by (simp add: upt_conv_Cons)
  ultimately show ?case
    using Suc.IH[of rs' "errs @ [n_errors rs']" "out @ map unat out'"] Suc.prems(2) dec b
    by (simp add: b_def[symmetric])
qed

lemma qr_correctErrors_restores:
  assumes enc: "encodable qr" and "addErrorCorrection qr = Inr qr1"
    and cw: "length (bytes qr1) \<le> length cw" "\<forall>w\<in>set cw. w < 256"
    and few: "\<forall>idx\<in>set (block_indices qr).
      2 * length (filter (\<lambda>p. cw ! p \<noteq> bytes qr1 ! p) idx) \<le> n_block_ec_words qr"
    and q: "codewords q = cw" "block_indices q = block_indices qr" "n_block_ec_words q = n_block_ec_words qr"
  shows "\<exists>errs. qr_correctErrors q =
    Inr (q\<lparr>error_counts := errs, bytes := take (n_data_codewords qr) (data qr),
      error_grade := gradeErrors (n_block_ec_words qr) errs\<rparr>)"
proof -
  obtain a where a: "addErrorCorrection qr = Inr (qr\<lparr>bytes := a\<rparr>)" "length a = n_codewords ! version qr"
    "\<And>b. b < length (block_indices qr) \<Longrightarrow> at_places a (block_indices qr ! b) (block_word qr b)"
    using addErrorCorrection_ok[OF enc] by blast
  have byt: "bytes qr1 = a" using a(1) assms(2) by auto
  have few': "2 * length (filter (\<lambda>p. cw ! p \<noteq> a ! p) (block_indices qr ! b)) \<le> n_block_ec_words qr"
    if "b < length (block_indices qr)" for b
    using few that unfolding byt by simp
  have ok: "length (block_indices qr) = length (block_data_lengths qr)"
    using enc by (simp add: encodable_def blocks_ok_def)
  have "n_codewords ! version qr \<le> length cw" using cw(1) a(2) unfolding byt by simp
  from correct_blocks_run[OF enc this cw(2) a(3) few' rs_ok_new order_refl, of "[]" "[]"]
  obtain errs where "correct_blocks cw (block_indices qr) (new_ReedSolomon (n_block_ec_words qr)) ([], []) =
      Inr (errs, take (n_data_codewords qr) (data qr))"
    using concat_block_msgs[OF enc] ok by auto
  then show ?thesis using q by (auto simp: qr_correctErrors_def)
qed

section \<open>Properties\<close>

text \<open>
  C8: For every version from 1 to 40 and every level, \<open>setBlocks\<close> distributes the code words of
  the symbol over the blocks: every index below the number of code words is in exactly one
  block and only once, each block has its data words plus the same number of parity words, and
  the data words of the blocks add up to the data words of the symbol.
\<close>

theorem setBlocks_partition:
  assumes "valid_level (version qr) (error_correction_level qr)"
  defines "q \<equiv> setBlocks qr"
  shows "distinct (concat (block_indices q)) \<and>
    set (concat (block_indices q)) = {..<n_codewords ! version qr} \<and>
    map length (block_indices q) = map (\<lambda>m. m + n_block_ec_words q) (block_data_lengths q) \<and>
    sum_list (block_data_lengths q) = n_data_codewords q"
proof -
  have ok: "blocks_ok q" using setBlocks_ok[OF assms(1)] by (simp add: q_def)
  have "version q = version qr" by (simp add: q_def frame_simps)
  then show ?thesis
    using blocks_ok_places[OF ok] ok by (auto simp: blocks_ok_def intro: nth_equalityI)
qed

theorem setBlocks_partition_witness:
  "distinct (concat (block_indices (setBlocks (new_qr\<lparr>version := 5, error_correction_level := EC_LEVEL_Q\<rparr>))))"
  by (rule setBlocks_partition[THEN conjunct1]) (simp add: valid_level_def new_qr_def)

text \<open>
  C9: Let \<open>addErrorCorrection\<close> encode data words that are bytes, and let the code words be damaged
  in such a way that in no block more than half as many words differ as the block has parity
  words. Then \<open>correctErrors\<close> throws nothing and restores the data words of the symbol.
\<close>

theorem blocks_correct_damage:
  assumes "valid_level (version qr) (error_correction_level qr)"
    and "n_data_codewords (setBlocks qr) \<le> length (data qr)"
    and "\<forall>w\<in>set (data qr). w < 256"
    and "addErrorCorrection (setBlocks qr) = Inr sent"
    and "length (bytes sent) \<le> length received_words" and "\<forall>w\<in>set received_words. w < 256"
    and "\<forall>idx\<in>set (block_indices sent).
      2 * length (filter (\<lambda>p. received_words ! p \<noteq> bytes sent ! p) idx) \<le> n_block_ec_words sent"
  shows "\<exists>q. qr_correctErrors (sent\<lparr>codewords := received_words\<rparr>) = Inr q \<and>
    bytes q = take (n_data_codewords sent) (data qr)"
proof -
  let ?q = "setBlocks qr"
  have enc: "encodable ?q"
    using setBlocks_ok[OF assms(1)] assms(2,3) by (auto simp: encodable_def frame_simps dest: in_set_takeD)
  obtain a where a: "sent = ?q\<lparr>bytes := a\<rparr>" using addErrorCorrection_ok[OF enc] assms(4) by force
  have "\<exists>errs. qr_correctErrors (sent\<lparr>codewords := received_words\<rparr>) =
    Inr (sent\<lparr>codewords := received_words, error_counts := errs,
      bytes := take (n_data_codewords ?q) (data ?q), error_grade := gradeErrors (n_block_ec_words ?q) errs\<rparr>)"
    using qr_correctErrors_restores[OF enc assms(4-6), of "sent\<lparr>codewords := received_words\<rparr>"] assms(7) a
    by simp
  then show ?thesis using a by (auto simp: frame_simps)
qed

theorem blocks_correct_damage_witness:
  "\<exists>sent q. addErrorCorrection (setBlocks (new_qr\<lparr>version := 1, data := replicate 16 7\<rparr>)) = Inr sent \<and>
     qr_correctErrors (sent\<lparr>codewords := (bytes sent)[3 := 9]\<rparr>) = Inr q \<and> bytes q = replicate 16 7"
proof -
  let ?qr = "new_qr\<lparr>version := 1, data := replicate 16 7\<rparr>"
  have v: "valid_level (version ?qr) (error_correction_level ?qr)" by (simp add: valid_level_def new_qr_def)
  have nd: "n_data_codewords (setBlocks ?qr) = 16"
    by (simp add: setBlocks_def Let_def new_qr_def n_codewords_def n_ec_codewords_def)
  have enc: "encodable (setBlocks ?qr)"
    using setBlocks_ok[OF v] nd by (auto simp: encodable_def frame_simps new_qr_def dest: in_set_takeD)
  obtain a where a: "addErrorCorrection (setBlocks ?qr) = Inr ((setBlocks ?qr)\<lparr>bytes := a\<rparr>)" "byte_list a"
    using addErrorCorrection_ok[OF enc] by blast
  let ?sent = "(setBlocks ?qr)\<lparr>bytes := a\<rparr>"
  have ok: "blocks_ok (setBlocks ?qr)" using enc by (simp add: encodable_def)
  have ec: "n_block_ec_words (setBlocks ?qr) = 10"
    by (simp add: setBlocks_def Let_def new_qr_def n_ec_codewords_def ec_blocks_def)
  have few: "length (filter (\<lambda>p. a[3 := 9] ! p \<noteq> a ! p) idx) \<le> 1"
    if "idx \<in> set (block_indices (setBlocks ?qr))" for idx
  proof -
    have "distinct idx" using blocks_ok_places(1)[OF ok] that by (auto simp: distinct_concat_iff)
    moreover have "set (filter (\<lambda>p. a[3 := 9] ! p \<noteq> a ! p) idx) \<subseteq> {3}" by auto (metis nth_list_update_neq)
    ultimately have "card (set (filter (\<lambda>p. a[3 := 9] ! p \<noteq> a ! p) idx)) \<le> 1"
      using card_mono[of "{3 :: nat}"] by fastforce
    then show ?thesis using distinct_card[OF distinct_filter[OF \<open>distinct idx\<close>]] by metis
  qed
  have "\<exists>q. qr_correctErrors (?sent\<lparr>codewords := (bytes ?sent)[3 := 9]\<rparr>) = Inr q \<and>
      bytes q = take (n_data_codewords ?sent) (data ?qr)"
  proof (rule blocks_correct_damage[OF v _ _ a(1)])
    show "\<forall>w\<in>set ((bytes ?sent)[3 := 9]). w < 256"
      using a(2) set_update_subset_insert[of a 3 9] by (auto simp: byte_list_def)
    show "\<forall>idx\<in>set (block_indices ?sent).
      2 * length (filter (\<lambda>p. (bytes ?sent)[3 := 9] ! p \<noteq> bytes ?sent ! p) idx) \<le> n_block_ec_words ?sent"
      using few ec by fastforce
  qed (use nd in \<open>simp_all add: new_qr_def\<close>)
  then show ?thesis using a(1) nd by (auto simp: new_qr_def)
qed

end
