(* ===== verification/QrMatrix.thy ===== *)
theory QrMatrix
  imports QrBlocks
begin

text \<open>
  The module matrix of a QR symbol (qrcodedecode.js): \<open>setFunctionalPattern\<close> marks the modules
  of the fixed patterns, \<open>encodeFunctionalPatterns\<close> draws them, \<open>encodeData\<close> writes the code
  words into the other modules along the zigzag of column pairs, under one of the eight masks,
  and \<open>extractCodewords\<close> reads them back. The theorems show that the two walks agree, that
  drawing never touches a data module, and that every version has room for its code words.
\<close>

section \<open>Matrices of modules\<close>

text \<open>A matrix is addressed by column, then row. An entry outside it is undefined, which is light.\<close>

definition get_px :: "bool list list \<Rightarrow> nat \<Rightarrow> nat \<Rightarrow> bool" where
  "get_px p x y = (if x < length p \<and> y < length (p ! x) then p ! x ! y else False)"

definition set_px :: "nat \<Rightarrow> nat \<Rightarrow> bool \<Rightarrow> bool list list \<Rightarrow> bool list list" where
  "set_px x y b p = p[x := (p ! x)[y := b]]"

definition blank :: "nat \<Rightarrow> bool list list" where
  "blank n = replicate n (replicate n False)"

definition square :: "nat \<Rightarrow> bool list list \<Rightarrow> bool" where
  "square n p \<longleftrightarrow> length p = n \<and> (\<forall>x<n. length (p ! x) = n)"

definition set_all :: "(nat \<times> nat) list \<Rightarrow> bool list list \<Rightarrow> bool list list" where
  "set_all xys p = fold (\<lambda>(x, y). set_px x y True) xys p"

lemma square_blank [simp]: "square n (blank n)"
  by (simp add: square_def blank_def)

lemma get_blank [simp]: "get_px (blank n) x y = False"
  by (cases "x < n") (auto simp: get_px_def blank_def)

lemma square_set_px: "square n p \<Longrightarrow> square n (set_px x y b p)"
proof -
  have "length (p[x := (p ! x)[y := b]] ! k) = length (p ! k)" for k
    by (cases "k = x"; cases "x < length p") (simp_all add: list_update_beyond)
  then show "square n p \<Longrightarrow> square n (set_px x y b p)" by (simp add: square_def set_px_def)
qed

lemma get_set_px:
  "square n p \<Longrightarrow> x < n \<Longrightarrow> y < n \<Longrightarrow>
     get_px (set_px x y b p) u v = (if u = x \<and> v = y then b else get_px p u v)"
  by (auto simp: get_px_def set_px_def square_def nth_list_update)

lemma square_set_all [simp]: "square n p \<Longrightarrow> square n (set_all xys p)"
  unfolding set_all_def by (induction xys arbitrary: p) (auto simp: square_set_px)

lemma get_set_all:
  assumes "square n p" and "\<forall>(x, y)\<in>set xys. x < n \<and> y < n"
  shows "get_px (set_all xys p) u v \<longleftrightarrow> (u, v) \<in> set xys \<or> get_px p u v"
  using assms unfolding set_all_def
proof (induction xys arbitrary: p)
  case (Cons xy xys)
  then show ?case by (cases xy) (auto simp: get_set_px square_set_px)
qed simp

lemma set_all_append: "set_all (as @ bs) p = set_all bs (set_all as p)"
  by (simp add: set_all_def)

section \<open>The functional pattern\<close>

definition markSquare :: "nat \<Rightarrow> nat \<Rightarrow> nat \<Rightarrow> nat \<Rightarrow> bool list list \<Rightarrow> bool list list" where
  "markSquare x y w h p = fold (\<lambda>i. fold (\<lambda>j. set_px i j True) [y..<y + h]) [x..<x + w] p"

definition alignment_corner :: "nat \<Rightarrow> nat \<Rightarrow> nat \<Rightarrow> bool" where
  "alignment_corner n i j \<longleftrightarrow> (i = 0 \<and> j = 0) \<or> (i = 0 \<and> j = n - 1) \<or> (i = n - 1 \<and> j = 0)"

definition alignment_places :: "nat \<Rightarrow> (nat \<times> nat) list" where
  "alignment_places ver =
     (let ap = alignment_patterns ! ver; n = length ap
      in concat (map (\<lambda>i. concat (map (\<lambda>j.
           if alignment_corner n i j then [] else [(ap ! i - 2, ap ! j - 2)]) [0..<n])) [0..<n]))"

definition markAlignment :: "nat \<Rightarrow> bool list list \<Rightarrow> bool list list" where
  "markAlignment ver p = fold (\<lambda>(x, y). markSquare x y 5 5) (alignment_places ver) p"

definition setFunctionalPattern :: "qr \<Rightarrow> qr" where
  "setFunctionalPattern qr =
     (let n = n_modules qr;
          p = blank n;
          p = markSquare 0 0 9 9 p;
          p = markSquare (n - 8) 0 8 9 p;
          p = markSquare 0 (n - 8) 9 8 p;
          p = markSquare 8 6 (n - 8 - 8) 1 p;
          p = markSquare 6 8 1 (n - 8 - 8) p;
          p = markAlignment (version qr) p;
          p = (if 7 \<le> version qr then
                 markSquare (n - 11) 0 3 6 (markSquare 0 (n - 11) 6 3 p)
               else p)
      in qr\<lparr>functional_pattern := p\<rparr>)"

text \<open>A rectangle is given by its corner, width and height.\<close>

type_synonym rect = "nat \<times> nat \<times> nat \<times> nat"

definition rect_modules :: "rect \<Rightarrow> (nat \<times> nat) list" where
  "rect_modules r = (case r of (x, y, w, h) \<Rightarrow> concat (map (\<lambda>i. map (\<lambda>j. (i, j)) [y..<y + h]) [x..<x + w]))"

definition functional_rects :: "nat \<Rightarrow> rect list" where
  "functional_rects ver =
     (let n = nModulesFromVersion ver
      in [(0, 0, 9, 9), (n - 8, 0, 8, 9), (0, n - 8, 9, 8), (8, 6, n - 16, 1), (6, 8, 1, n - 16)] @
         map (\<lambda>(x, y). (x, y, 5, 5)) (alignment_places ver) @
         (if 7 \<le> ver then [(0, n - 11, 6, 3), (n - 11, 0, 3, 6)] else []))"

definition is_functional :: "nat \<Rightarrow> nat \<Rightarrow> nat \<Rightarrow> bool" where
  "is_functional ver x y \<longleftrightarrow> (\<exists>(a, b, w, h)\<in>set (functional_rects ver). a \<le> x \<and> x < a + w \<and> b \<le> y \<and> y < b + h)"

lemma fold_set_all:
  "(\<And>i p. F i p = set_all (G i) p) \<Longrightarrow> fold F is p = set_all (concat (map G is)) p"
  by (induction "is" arbitrary: p) (simp_all add: set_all_append, simp add: set_all_def)

lemma markSquare_set_all: "markSquare x y w h p = set_all (rect_modules (x, y, w, h)) p"
proof -
  have "fold (\<lambda>j. set_px i j True) [y..<y + h] p = set_all (map (\<lambda>j. (i, j)) [y..<y + h]) p" for i p
    by (simp add: set_all_def fold_map comp_def)
  then show ?thesis unfolding markSquare_def rect_modules_def prod.case by (intro fold_set_all)
qed

lemma set_rect_modules: "(u, v) \<in> set (rect_modules (x, y, w, h)) \<longleftrightarrow> x \<le> u \<and> u < x + w \<and> y \<le> v \<and> v < y + h"
  by (auto simp: rect_modules_def intro!: bexI[of _ u])

lemma markAlignment_set_all:
  "markAlignment ver p = set_all (concat (map (\<lambda>(x, y). rect_modules (x, y, 5, 5)) (alignment_places ver))) p"
  unfolding markAlignment_def by (rule fold_set_all) (auto simp: markSquare_set_all)

lemma setFunctionalPattern_set_all:
  assumes "n_modules qr = nModulesFromVersion (version qr)"
  shows "functional_pattern (setFunctionalPattern qr) =
    set_all (concat (map rect_modules (functional_rects (version qr)))) (blank (n_modules qr))"
  unfolding setFunctionalPattern_def functional_rects_def Let_def assms markSquare_set_all markAlignment_set_all
  by (simp add: set_all_append case_prod_beta' comp_def) (simp add: set_all_def)

section \<open>The walk over the data modules\<close>

text \<open>
  Both \<open>encodeData\<close> and \<open>extractCodewords\<close> visit the columns in pairs from right to left, alternately
  from bottom to top and from top to bottom, and step over the column of the vertical timing
  pattern.
\<close>

definition pair_modules :: "nat \<Rightarrow> nat \<Rightarrow> bool \<Rightarrow> (nat \<times> nat) list" where
  "pair_modules n j up =
     concat (map (\<lambda>count. let i = (if up then n - 1 - count else count) in [(j, i), (j - 1, i)]) [0..<n])"

function scan_from :: "nat \<Rightarrow> nat \<Rightarrow> bool \<Rightarrow> (nat \<times> nat) list" where
  "scan_from n j up =
     (if j = 0 then []
      else let j = (if j = 6 then 5 else j) in pair_modules n j up @ scan_from n (j - 2) (\<not> up))"
  by pat_completeness auto
termination by (relation "measure (\<lambda>(n, j, up). j)") auto

declare scan_from.simps [simp del]

definition scan :: "nat \<Rightarrow> (nat \<times> nat) list" where
  "scan n = scan_from n (n - 1) True"

definition mask_value :: "nat \<Rightarrow> nat \<Rightarrow> nat \<Rightarrow> nat" where
  "mask_value qm j i =
     (if qm = 0 then (i + j) mod 2
      else if qm = 1 then i mod 2
      else if qm = 2 then j mod 3
      else if qm = 3 then (i + j) mod 3
      else if qm = 4 then (i div 2 + j div 3) mod 2
      else if qm = 5 then (i * j) mod 2 + (i * j) mod 3
      else if qm = 6 then ((i * j) mod 2 + (i * j) mod 3) mod 2
      else ((i + j) mod 2 + (i * j) mod 3) mod 2)"

definition setMasked :: "nat \<Rightarrow> nat \<Rightarrow> nat \<Rightarrow> bool \<Rightarrow> bool list list \<Rightarrow> bool list list" where
  "setMasked qm j i f p = set_px j i (if mask_value qm j i = 0 then \<not> f else f) p"

text \<open>The state of the writing loop: pixels, byte index, bit qm and bits written of the byte.\<close>

definition write_module :: "qr \<Rightarrow> nat \<Rightarrow> nat \<times> nat \<Rightarrow> bool list list \<times> nat \<times> nat \<times> nat \<Rightarrow>
    bool list list \<times> nat \<times> nat \<times> nat" where
  "write_module qr qrmask xy s =
     (case (xy, s) of ((x, y), (p, n, msk, written)) \<Rightarrow>
        if get_px (functional_pattern qr) x y then s
        else (let p = setMasked qrmask x y (word_at (bytes qr) n AND msk \<noteq> 0) p;
                  msk = drop_bit 1 msk;
                  written = written + 1
              in if written = 8 then (p, n + 1, 2 ^ 7, 0) else (p, n, msk, written)))"

definition encodeData :: "nat \<Rightarrow> qr \<Rightarrow> qr" where
  "encodeData qrmask qr =
     qr\<lparr>pixels := fst (fold (write_module qr qrmask) (scan (n_modules qr)) (pixels qr, 0, 2 ^ 7, 0))\<rparr>"

text \<open>
  The reader asks the image whether a module is dark. Its factor is halved down to one half of
  1, which counts as smaller than 1.
\<close>

definition getUnmasked :: "nat \<Rightarrow> (nat \<Rightarrow> nat \<Rightarrow> bool) \<Rightarrow> nat \<Rightarrow> nat \<Rightarrow> bool" where
  "getUnmasked qm isDark j i = (if mask_value qm j i = 0 then \<not> isDark j i else isDark j i)"

definition read_module :: "qr \<Rightarrow> (nat \<Rightarrow> nat \<Rightarrow> bool) \<Rightarrow> nat \<times> nat \<Rightarrow> nat list \<times> nat \<times> nat \<Rightarrow>
    nat list \<times> nat \<times> nat" where
  "read_module qr isDark xy s =
     (case (xy, s) of ((x, y), (cw, currentByte, factor)) \<Rightarrow>
        if get_px (functional_pattern qr) x y then s
        else (let currentByte = (if getUnmasked (mask_no qr) isDark x y then currentByte + factor else currentByte);
                  factor = factor div 2
              in if factor < 1 then (cw @ [currentByte], 0, 128) else (cw, currentByte, factor)))"

definition extractCodewords :: "(nat \<Rightarrow> nat \<Rightarrow> bool) \<Rightarrow> qr \<Rightarrow> qr" where
  "extractCodewords isDark qr =
     qr\<lparr>codewords := fst (fold (read_module qr isDark) (scan (n_modules qr)) ([], 0, 128))\<rparr>"

section \<open>The two walks agree\<close>

definition free_modules :: "qr \<Rightarrow> (nat \<times> nat) list" where
  "free_modules qr = filter (\<lambda>(x, y). \<not> get_px (functional_pattern qr) x y) (scan (n_modules qr))"

lemma fold_skip: "fold (\<lambda>x s. if P x then s else f x s) xs s = fold f (filter (\<lambda>x. \<not> P x) xs) s"
  by (induction xs arbitrary: s) auto

text \<open>One bit is written into, or read from, each free module.\<close>

definition write_bit :: "qr \<Rightarrow> nat \<Rightarrow> nat \<times> nat \<Rightarrow> bool list list \<times> nat \<times> nat \<times> nat \<Rightarrow>
    bool list list \<times> nat \<times> nat \<times> nat" where
  "write_bit qr qrmask xy s =
     (case (xy, s) of ((x, y), (p, n, msk, written)) \<Rightarrow>
        (let p = setMasked qrmask x y (word_at (bytes qr) n AND msk \<noteq> 0) p
         in if written + 1 = 8 then (p, n + 1, 2 ^ 7, 0) else (p, n, drop_bit 1 msk, written + 1)))"

lemma encodeData_free:
  "pixels (encodeData qrmask qr) = fst (fold (write_bit qr qrmask) (free_modules qr) (pixels qr, 0, 2 ^ 7, 0))"
proof -
  have "write_module qr qrmask = (\<lambda>xy s. if get_px (functional_pattern qr) (fst xy) (snd xy) then s
      else write_bit qr qrmask xy s)"
    by (auto simp: write_module_def write_bit_def fun_eq_iff Let_def split: prod.splits)
  then show ?thesis by (simp add: encodeData_def free_modules_def fold_skip case_prod_beta')
qed

definition data_bit :: "nat list \<Rightarrow> nat \<Rightarrow> bool" where
  "data_bit a k = bit (word_at a (k div 8)) (7 - k mod 8)"

lemma and_exp_iff: "(w :: nat) AND 2 ^ m \<noteq> 0 \<longleftrightarrow> bit w m"
  by (simp add: and_exp_eq_0_iff_not_bit)

lemma write_bits_run:
  assumes "square n p" and "distinct xys" and "\<forall>(x, y)\<in>set xys. x < n \<and> y < n"
  shows "\<exists>p'. fold (write_bit qr qrmask) xys (p, k div 8, 2 ^ (7 - k mod 8), k mod 8) =
      (p', (k + length xys) div 8, 2 ^ (7 - (k + length xys) mod 8), (k + length xys) mod 8) \<and> square n p' \<and>
    (\<forall>u v. (u, v) \<notin> set xys \<longrightarrow> get_px p' u v = get_px p u v) \<and>
    (\<forall>i<length xys. get_px p' (fst (xys ! i)) (snd (xys ! i)) =
       (if mask_value qrmask (fst (xys ! i)) (snd (xys ! i)) = 0 then \<not> data_bit (bytes qr) (k + i)
        else data_bit (bytes qr) (k + i)))"
  using assms
proof (induction xys arbitrary: p k)
  case Nil
  then show ?case by auto
next
  case (Cons xy xys)
  obtain x y where xy: "xy = (x, y)" "x < n" "y < n" using Cons.prems(3) by (cases xy) auto
  define p1 where "p1 = setMasked qrmask x y (data_bit (bytes qr) k) p"
  have step: "write_bit qr qrmask xy (p, k div 8, 2 ^ (7 - k mod 8), k mod 8) =
      (p1, Suc k div 8, 2 ^ (7 - Suc k mod 8), Suc k mod 8)"
  proof (cases "k mod 8 = 7")
    case True
    then have "Suc k div 8 = k div 8 + 1" "Suc k mod 8 = 0" by (simp_all add: div_Suc mod_Suc)
    then show ?thesis using True
      unfolding write_bit_def xy(1) prod.case and_exp_iff p1_def data_bit_def Let_def by simp
  next
    case False
    moreover from False have "Suc k div 8 = k div 8" "Suc k mod 8 = Suc (k mod 8)"
      by (simp_all add: div_Suc mod_Suc)
    moreover have "7 - k mod 8 = Suc (7 - Suc (k mod 8))"
      using False mod_less_divisor[of 8 k] by linarith
    ultimately have "Suc k div 8 = k div 8" "Suc k mod 8 = Suc (k mod 8)" "7 - k mod 8 = Suc (7 - Suc (k mod 8))"
      by blast+
    then show ?thesis using False
      unfolding write_bit_def xy(1) prod.case and_exp_iff p1_def data_bit_def Let_def
      by (simp add: drop_bit_Suc)
  qed
  have sq: "square n p1" using Cons.prems(1) by (simp add: p1_def setMasked_def square_set_px)
  obtain p' where IH: "fold (write_bit qr qrmask) xys (p1, Suc k div 8, 2 ^ (7 - Suc k mod 8), Suc k mod 8) =
      (p', (Suc k + length xys) div 8, 2 ^ (7 - (Suc k + length xys) mod 8), (Suc k + length xys) mod 8)"
    "square n p'" "\<forall>u v. (u, v) \<notin> set xys \<longrightarrow> get_px p' u v = get_px p1 u v"
    "\<forall>i<length xys. get_px p' (fst (xys ! i)) (snd (xys ! i)) =
       (if mask_value qrmask (fst (xys ! i)) (snd (xys ! i)) = 0 then \<not> data_bit (bytes qr) (Suc k + i)
        else data_bit (bytes qr) (Suc k + i))"
    using Cons.IH[OF sq, of "Suc k"] Cons.prems(2,3) by auto
  have px: "get_px p1 u v = (if u = x \<and> v = y then (if mask_value qrmask x y = 0 then \<not> data_bit (bytes qr) k
      else data_bit (bytes qr) k) else get_px p u v)" for u v
    unfolding p1_def setMasked_def by (rule get_set_px[OF Cons.prems(1) xy(2,3)])
  have rest: "get_px p' (fst ((xy # xys) ! i)) (snd ((xy # xys) ! i)) =
       (if mask_value qrmask (fst ((xy # xys) ! i)) (snd ((xy # xys) ! i)) = 0 then \<not> data_bit (bytes qr) (k + i)
        else data_bit (bytes qr) (k + i))" if "i < length (xy # xys)" for i
  proof (cases i)
    case 0
    have "(x, y) \<notin> set xys" using Cons.prems(2) xy by simp
    then show ?thesis using 0 xy IH(3) px by simp
  next
    case (Suc m)
    then show ?thesis using IH(4) that by simp
  qed
  have other: "get_px p' u v = get_px p u v" if "(u, v) \<notin> set (xy # xys)" for u v
    using that IH(3) px xy by auto
  show ?case
    using IH(1,2) rest other step by (intro exI[of _ p']) simp
qed

section \<open>Reading back\<close>

definition read_bit :: "(nat \<times> nat \<Rightarrow> bool) \<Rightarrow> nat \<times> nat \<Rightarrow> nat list \<times> nat \<times> nat \<Rightarrow> nat list \<times> nat \<times> nat" where
  "read_bit u xy s =
     (case s of (cw, currentByte, factor) \<Rightarrow>
        (let currentByte = (if u xy then currentByte + factor else currentByte)
         in if factor div 2 < 1 then (cw @ [currentByte], 0, 128) else (cw, currentByte, factor div 2)))"

lemma extractCodewords_free:
  "codewords (extractCodewords isDark qr) =
     fst (fold (read_bit (\<lambda>(x, y). getUnmasked (mask_no qr) isDark x y)) (free_modules qr) ([], 0, 128))"
proof -
  have "read_module qr isDark = (\<lambda>xy s. if get_px (functional_pattern qr) (fst xy) (snd xy) then s
      else read_bit (\<lambda>(x, y). getUnmasked (mask_no qr) isDark x y) xy s)"
    by (auto simp: read_module_def read_bit_def fun_eq_iff Let_def split: prod.splits)
  then show ?thesis by (simp add: extractCodewords_def free_modules_def fold_skip case_prod_beta')
qed

text \<open>The value of the first \<open>m\<close> bits of byte \<open>q\<close> of a stream of bits.\<close>

definition partial_byte :: "(nat \<Rightarrow> bool) \<Rightarrow> nat \<Rightarrow> nat \<Rightarrow> nat" where
  "partial_byte f q m = (\<Sum>i<m. of_bool (f (8 * q + i)) * 2 ^ (7 - i))"

lemma partial_byte_0 [simp]: "partial_byte f q 0 = 0"
  by (simp add: partial_byte_def)

lemma partial_byte_word:
  assumes "\<And>i. i < 8 \<Longrightarrow> f (8 * q + i) = bit w (7 - i)" and "w < 256"
  shows "partial_byte f q 8 = w"
proof -
  have "w = take_bit 8 w" using assms(2) by (simp add: take_bit_nat_eq_self)
  also have "\<dots> = (\<Sum>k<8. of_bool (bit w k) * 2 ^ k)"
    by (simp add: take_bit_sum push_bit_eq_mult atLeast0LessThan)
  also have "\<dots> = (\<Sum>i<8. of_bool (bit w (7 - i)) * 2 ^ (7 - i))"
    by (subst sum.nat_diff_reindex[symmetric]) simp
  also have "\<dots> = partial_byte f q 8" unfolding partial_byte_def by (rule sum.cong) (simp_all add: assms(1))
  finally show ?thesis by simp
qed

lemma read_bits_run:
  assumes "\<forall>i<length xys. u (xys ! i) = f (k + i)"
  shows "fold (read_bit u) xys
      (map (\<lambda>q. partial_byte f q 8) [0..<k div 8], partial_byte f (k div 8) (k mod 8), 2 ^ (7 - k mod 8)) =
    (map (\<lambda>q. partial_byte f q 8) [0..<(k + length xys) div 8],
     partial_byte f ((k + length xys) div 8) ((k + length xys) mod 8), 2 ^ (7 - (k + length xys) mod 8))"
  using assms
proof (induction xys arbitrary: k)
  case (Cons xy xys)
  have u: "u xy = f k" using Cons.prems by force
  have k8: "8 * (k div 8) + k mod 8 = k" by simp
  have nxt: "partial_byte f (k div 8) (Suc (k mod 8)) =
      (if u xy then partial_byte f (k div 8) (k mod 8) + 2 ^ (7 - k mod 8) else partial_byte f (k div 8) (k mod 8))"
    unfolding partial_byte_def u by (simp add: k8)
  have step: "read_bit u xy (map (\<lambda>q. partial_byte f q 8) [0..<k div 8], partial_byte f (k div 8) (k mod 8), 2 ^ (7 - k mod 8)) =
     (map (\<lambda>q. partial_byte f q 8) [0..<Suc k div 8], partial_byte f (Suc k div 8) (Suc k mod 8), 2 ^ (7 - Suc k mod 8))"
  proof (cases "k mod 8 = 7")
    case True
    then have e: "Suc k div 8 = Suc (k div 8)" "Suc k mod 8 = 0" by (simp_all add: div_Suc mod_Suc)
    have b8: "partial_byte f (k div 8) 8 =
      (if u xy then partial_byte f (k div 8) (k mod 8) + 2 ^ (7 - k mod 8) else partial_byte f (k div 8) (k mod 8))"
      using nxt unfolding True by (simp only: Suc_numeral add_num_simps)
    show ?thesis unfolding e read_bit_def prod.case Let_def True b8[symmetric, unfolded True]
      by (simp add: b8[unfolded True])
  next
    case False
    then have e: "Suc k div 8 = k div 8" "Suc k mod 8 = Suc (k mod 8)" by (simp_all add: div_Suc mod_Suc)
    have d: "7 - k mod 8 = Suc (7 - Suc (k mod 8))" using False mod_less_divisor[of 8 k] by linarith
    then have "(2 :: nat) ^ (7 - k mod 8) div 2 = 2 ^ (7 - Suc (k mod 8))" "\<not> (2 :: nat) ^ (7 - k mod 8) div 2 < 1"
      by simp_all
    then show ?thesis using nxt unfolding e read_bit_def by (simp add: Let_def)
  qed
  have "u (xys ! i) = f (Suc k + i)" if "i < length xys" for i
    using Cons.prems[rule_format, of "Suc i"] that by simp
  then show ?case using Cons.IH[of "Suc k"] step by simp
qed simp

section \<open>The order of the walk\<close>

lemma set_zigzag: "set (concat (map (\<lambda>c. [(j, g c), (k, g c)]) xs)) = {j, k} \<times> (g ` set xs)"
  by (induction xs) auto

lemma pair_modules_alt:
  "pair_modules n j up = concat (map (\<lambda>c. [(j, (if up then n - 1 - c else c)), (j - 1, (if up then n - 1 - c else c))]) [0..<n])"
  by (simp only: pair_modules_def Let_def)

lemma set_pair_modules: "0 < n \<Longrightarrow> set (pair_modules n j up) = {(x, y). (x = j \<or> x = j - 1) \<and> y < n}"
proof -
  assume n: "0 < n"
  have "(\<lambda>c. if up then n - 1 - c else c) ` set [0..<n] = {0..<n}"
  proof (cases up)
    case True
    have "y \<in> (\<lambda>c. n - 1 - c) ` {0..<n}" if "y < n" for y
      by (rule image_eqI[of _ _ "n - 1 - y"]) (use that in auto)
    then show ?thesis using True n by auto
  qed simp
  then have "set (pair_modules n j up) = {j, j - 1} \<times> {0..<n}" unfolding pair_modules_alt set_zigzag by (simp only:)
  moreover have "{j, j - 1} \<times> {0..<n} = {(x, y). (x = j \<or> x = j - 1) \<and> y < n}" by (rule set_eqI) force
  ultimately show ?thesis by (rule trans)
qed

lemma distinct_zigzag:
  "j \<noteq> k \<Longrightarrow> distinct (map g xs) \<Longrightarrow> distinct (concat (map (\<lambda>c. [(j, g c), (k, g c)]) xs))"
proof (induction xs)
  case (Cons c xs)
  have "(i, g c) \<notin> set (concat (map (\<lambda>c. [(j, g c), (k, g c)]) xs))" for i
    unfolding set_zigzag using Cons.prems(2) by auto
  then show ?case using Cons by simp
qed simp

lemma distinct_pair_modules: "0 < j \<Longrightarrow> distinct (pair_modules n j up)"
  unfolding pair_modules_alt
  by (rule distinct_zigzag) (auto simp: distinct_map inj_on_def)

lemma scan_from_odd:
  assumes "0 < n" and "odd j" and "j \<le> 5"
  shows "distinct (scan_from n j up)" and "set (scan_from n j up) = {(x, y). x \<le> j \<and> y < n}"
proof -
  have 1: "distinct (scan_from n 1 b) \<and> set (scan_from n 1 b) = {(x, y). x \<le> 1 \<and> y < n}" for b
    using assms(1) distinct_pair_modules[of 1]
    by (subst (1 2) scan_from.simps) (auto simp: set_pair_modules scan_from.simps[of n 0])
  have 3: "distinct (scan_from n 3 b) \<and> set (scan_from n 3 b) = {(x, y). x \<le> 3 \<and> y < n}" for b
    using assms(1) distinct_pair_modules[of 3] 1[of "\<not> b"]
    by (subst (1 2) scan_from.simps) (auto simp: set_pair_modules)
  have 5: "distinct (scan_from n 5 b) \<and> set (scan_from n 5 b) = {(x, y). x \<le> 5 \<and> y < n}" for b
    using assms(1) distinct_pair_modules[of 5] 3[of "\<not> b"]
    by (subst (1 2) scan_from.simps) (auto simp: set_pair_modules)
  have "j = 1 \<or> j = 3 \<or> j = 5" using assms(2,3) by presburger
  then show "distinct (scan_from n j up)" "set (scan_from n j up) = {(x, y). x \<le> j \<and> y < n}"
    using 1 3 5 by auto
qed

lemma scan_from_even:
  assumes "0 < n" and "even j" and "6 \<le> j"
  shows "distinct (scan_from n j up) \<and> set (scan_from n j up) = {(x, y). x \<le> j \<and> x \<noteq> 6 \<and> y < n}"
  using assms
proof (induction n j up rule: scan_from.induct)
  case (1 n j up)
  show ?case
  proof (cases "j = 6")
    case True
    have "scan_from n 6 up = scan_from n 5 up" by (subst (1 2) scan_from.simps) simp
    moreover have "x \<le> 6 \<and> x \<noteq> 6 \<longleftrightarrow> x \<le> 5" for x :: nat by linarith
    ultimately show ?thesis using True scan_from_odd[OF 1(2), of 5 up] by (simp flip: conj_assoc)
  next
    case False
    then have j: "8 \<le> j" using 1(3,4) by presburger
    have IH: "distinct (scan_from n (j - 2) (\<not> up))"
      "set (scan_from n (j - 2) (\<not> up)) = {(x, y). x \<le> j - 2 \<and> x \<noteq> 6 \<and> y < n}"
      using 1(1)[of j] 1(2,3) j False by auto
    have "scan_from n j up = pair_modules n j up @ scan_from n (j - 2) (\<not> up)"
      using False j by (subst scan_from.simps) (simp add: Let_def)
    moreover have "x \<le> j \<and> x \<noteq> 6 \<longleftrightarrow> (x = j \<or> x = j - 1) \<or> x \<le> j - 2 \<and> x \<noteq> 6" for x
      using j by presburger
    moreover have "\<not> (x = j \<or> x = j - 1) \<or> \<not> x \<le> j - 2" for x using j by presburger
    ultimately show ?thesis
      using IH distinct_pair_modules[of j n up] set_pair_modules[OF 1(2), of j up] j by auto
  qed
qed

lemma scan_modules:
  "n = nModulesFromVersion v \<Longrightarrow> distinct (scan n) \<and> set (scan n) = {(x, y). x < n \<and> x \<noteq> 6 \<and> y < n}"
proof -
  assume n: "n = nModulesFromVersion v"
  then have e: "0 < n" "even (n - 1)" "6 \<le> n - 1" by (simp_all add: nModulesFromVersion_def)
  moreover have "x \<le> n - 1 \<longleftrightarrow> x < n" for x using e(1) by linarith
  ultimately show ?thesis using scan_from_even[OF e, of True] by (simp add: scan_def conj_ac)
qed

section \<open>Room for the code words\<close>

text \<open>
  The part of an alignment pattern on the first row or column of patterns that lies outside
  the timing pattern is two strips of ten modules; the other patterns count in full.
\<close>

definition alignment_cover :: "nat list \<Rightarrow> nat \<Rightarrow> nat \<Rightarrow> rect list" where
  "alignment_cover ap i j =
     (if alignment_corner (length ap) i j then []
      else if i = 0 then [(4, ap ! j - 2, 2, 5), (7, ap ! j - 2, 2, 5)]
      else if j = 0 then [(ap ! i - 2, 4, 5, 2), (ap ! i - 2, 7, 5, 2)]
      else [(ap ! i - 2, ap ! j - 2, 5, 5)])"

definition functional_cover :: "nat \<Rightarrow> rect list" where
  "functional_cover ver =
     (let n = nModulesFromVersion ver; ap = alignment_patterns ! ver; k = length ap
      in [(0, 0, 9, 9), (n - 8, 0, 8, 9), (0, n - 8, 9, 8), (9, 6, n - 17, 1), (6, 9, 1, n - 17)] @
         concat (map (\<lambda>i. concat (map (alignment_cover ap i) [0..<k])) [0..<k]) @
         (if 7 \<le> ver then [(0, n - 11, 6, 3), (n - 11, 0, 3, 6)] else []))"

definition rect_area :: "rect \<Rightarrow> nat" where
  "rect_area r = (case r of (x, y, w, h) \<Rightarrow> w * h)"

definition alignment_area :: "nat \<Rightarrow> nat" where
  "alignment_area k = sum_list (map (\<lambda>i. sum_list (map (\<lambda>j.
     if alignment_corner k i j then 0 else if i = 0 \<or> j = 0 then 20 else 25) [0..<k])) [0..<k])"

definition alignment_row_ok :: "nat \<Rightarrow> nat \<Rightarrow> nat \<Rightarrow> nat list \<Rightarrow> bool" where
  "alignment_row_ok v nc rem ap =
     (let n = 17 + 4 * v
      in list_all (\<lambda>c. 6 \<le> c \<and> c + 3 \<le> n) ap \<and>
         (case ap of [] \<Rightarrow> True | c # cs \<Rightarrow> c = 6 \<and> list_all (\<lambda>c. 11 \<le> c \<and> c + 11 \<le> n) (butlast cs)) \<and>
         n * n = 8 * nc + rem + 225 + 2 * (n - 17) + alignment_area (length ap) + (if 7 \<le> v then 36 else 0))"

lemma alignment_areas:
  "alignment_area 0 = 0" "alignment_area 2 = 25" "alignment_area 3 = 140" "alignment_area 4 = 305"
  "alignment_area 5 = 520" "alignment_area 6 = 785" "alignment_area 7 = 1100"
  by (simp_all add: alignment_area_def alignment_corner_def upt_conv_Cons)

lemma alignment_areas_Suc:
  "alignment_area (Suc (Suc 0)) = 25"
  "alignment_area (Suc (Suc (Suc 0))) = 140"
  "alignment_area (Suc (Suc (Suc (Suc 0)))) = 305"
  "alignment_area (Suc (Suc (Suc (Suc (Suc 0))))) = 520"
  "alignment_area (Suc (Suc (Suc (Suc (Suc (Suc 0)))))) = 785"
  "alignment_area (Suc (Suc (Suc (Suc (Suc (Suc (Suc 0))))))) = 1100"
  "alignment_area 0 = 0"
  using alignment_areas by (simp_all add: numeral_eq_Suc)

definition alignment_rows :: "(nat \<times> nat \<times> nat \<times> nat list) list" where
  "alignment_rows = zip [1, 2, 3, 4, 5, 6, 7, 8, 9, 10, 11, 12, 13, 14, 15, 16, 17, 18, 19, 20, 21,
     22, 23, 24, 25, 26, 27, 28, 29, 30, 31, 32, 33, 34, 35, 36, 37, 38, 39, 40]
     (zip (tl n_codewords) (zip (tl n_remainder_bits) (tl alignment_patterns)))"

lemma alignment_rows_ok: "list_all (\<lambda>(v, nc, rem, ap). alignment_row_ok v nc rem ap) alignment_rows"
  unfolding alignment_rows_def n_codewords_def n_remainder_bits_def alignment_patterns_def list.sel
  by (simp add: alignment_row_ok_def Let_def alignment_areas_Suc)


lemma alignment_row:
  assumes "1 \<le> v" "v \<le> 40"
  shows "alignment_row_ok v (n_codewords ! v) (n_remainder_bits ! v) (alignment_patterns ! v)"
proof -
  have len: "length n_remainder_bits = 41" by (simp add: n_remainder_bits_def)
  have v1: "v - 1 < 40" using assms by simp
  have "alignment_rows ! (v - 1) = (v, n_codewords ! v, n_remainder_bits ! v, alignment_patterns ! v)"
    using assms unfolding alignment_rows_def versions_upt by (simp add: length_tables len nth_tl)
  moreover have "length alignment_rows = 40" by (simp add: alignment_rows_def length_tables len)
  ultimately show ?thesis using alignment_rows_ok v1 unfolding list_all_length by fastforce
qed

lemma alignment_entries:
  assumes "1 \<le> v" "v \<le> 40" "i < length (alignment_patterns ! v)"
  shows "6 \<le> alignment_patterns ! v ! i" "alignment_patterns ! v ! i + 3 \<le> nModulesFromVersion v"
    "i = 0 \<Longrightarrow> alignment_patterns ! v ! i = 6"
    "0 < i \<Longrightarrow> i < length (alignment_patterns ! v) - 1 \<Longrightarrow>
       11 \<le> alignment_patterns ! v ! i \<and> alignment_patterns ! v ! i + 11 \<le> nModulesFromVersion v"
proof -
  let ?ap = "alignment_patterns ! v"
  note r = alignment_row[OF assms(1,2), unfolded alignment_row_ok_def Let_def]
  show "6 \<le> ?ap ! i" "?ap ! i + 3 \<le> nModulesFromVersion v"
    using r assms(3) by (auto simp: list_all_length nModulesFromVersion_def)
  obtain cs where cs: "?ap = 6 # cs" "list_all (\<lambda>c. 11 \<le> c \<and> c + 11 \<le> 17 + 4 * v) (butlast cs)"
    using r assms(3) by (cases ?ap) auto
  show "i = 0 \<Longrightarrow> ?ap ! i = 6" using cs by simp
  assume i: "0 < i" "i < length ?ap - 1"
  then have "?ap ! i = butlast cs ! (i - 1)" "i - 1 < length (butlast cs)"
    using cs(1) by (auto simp: nth_butlast nth_Cons')
  then show "11 \<le> ?ap ! i \<and> ?ap ! i + 11 \<le> nModulesFromVersion v"
    using cs(2) by (simp only: list_all_length nModulesFromVersion_def)
qed

lemma alignment_places_iff:
  "(x, y) \<in> set (alignment_places v) \<longleftrightarrow>
     (let ap = alignment_patterns ! v in \<exists>i j. i < length ap \<and> j < length ap \<and>
        \<not> alignment_corner (length ap) i j \<and> x = ap ! i - 2 \<and> y = ap ! j - 2)"
proof -
  define n where "n = length (alignment_patterns ! v)"
  define F where "F = (\<lambda>i j. if alignment_corner n i j then [] else [(alignment_patterns ! v ! i - 2, alignment_patterns ! v ! j - 2)])"
  have F: "(x, y) \<in> set (F i j) \<longleftrightarrow> \<not> alignment_corner n i j \<and> x = alignment_patterns ! v ! i - 2 \<and> y = alignment_patterns ! v ! j - 2" for i j
    by (simp add: F_def)
  have "alignment_places v = concat (map (\<lambda>i. concat (map (F i) [0..<n])) [0..<n])"
    by (simp only: alignment_places_def Let_def F_def n_def)
  then have "(x, y) \<in> set (alignment_places v) \<longleftrightarrow> (\<exists>i\<in>{0..<n}. \<exists>j\<in>{0..<n}. (x, y) \<in> set (F i j))" by simp
  then show ?thesis unfolding F Let_def n_def Bex_def atLeastLessThan_iff by blast
qed

lemma functional_rects_inside:
  assumes "1 \<le> v" "v \<le> 40" "(a, b, w, h) \<in> set (functional_rects v)"
  shows "a + w \<le> nModulesFromVersion v \<and> b + h \<le> nModulesFromVersion v"
proof -
  have al: "a + 5 \<le> nModulesFromVersion v \<and> b + 5 \<le> nModulesFromVersion v"
    if ab: "(a, b) \<in> set (alignment_places v)" for a b
  proof -
    obtain i j where "i < length (alignment_patterns ! v)" "j < length (alignment_patterns ! v)"
      "a = alignment_patterns ! v ! i - 2" "b = alignment_patterns ! v ! j - 2"
      using ab by (auto simp: alignment_places_iff Let_def)
    then show ?thesis using alignment_entries(1,2)[OF assms(1,2), of i] alignment_entries(1,2)[OF assms(1,2), of j]
      by linarith
  qed
  have n: "21 \<le> nModulesFromVersion v" using assms(1) by (simp add: nModulesFromVersion_def)
  let ?n = "nModulesFromVersion v"
  have "(a, b, w, h) \<in> set [(0, 0, 9, 9), (?n - 8, 0, 8, 9), (0, ?n - 8, 9, 8), (8, 6, ?n - 16, 1),
        (6, 8, 1, ?n - 16), (0, ?n - 11, 6, 3), (?n - 11, 0, 3, 6)] \<or>
      ((a, b) \<in> set (alignment_places v) \<and> w = 5 \<and> h = 5)"
    using assms(3) by (auto simp: functional_rects_def Let_def split: if_splits)
  then show ?thesis
  proof
    assume "(a, b) \<in> set (alignment_places v) \<and> w = 5 \<and> h = 5"
    then show ?thesis using al[of a b] by simp
  next
    assume "(a, b, w, h) \<in> set [(0, 0, 9, 9), (?n - 8, 0, 8, 9), (0, ?n - 8, 9, 8), (8, 6, ?n - 16, 1),
        (6, 8, 1, ?n - 16), (0, ?n - 11, 6, 3), (?n - 11, 0, 3, 6)]"
    then show ?thesis using n by (simp, elim disjE) simp_all
  qed
qed

lemma is_functional_iff:
  "is_functional v x y \<longleftrightarrow> (x, y) \<in> set (concat (map rect_modules (functional_rects v)))"
proof -
  have "(x, y) \<in> set (rect_modules r) \<longleftrightarrow> (case r of (a, b, w, h) \<Rightarrow> a \<le> x \<and> x < a + w \<and> b \<le> y \<and> y < b + h)" for r
    by (cases r) (simp add: set_rect_modules)
  then show ?thesis by (simp add: is_functional_def)
qed

lemma get_functional_pattern:
  assumes "1 \<le> version qr" "version qr \<le> 40" "n_modules qr = nModulesFromVersion (version qr)"
  shows "get_px (functional_pattern (setFunctionalPattern qr)) x y \<longleftrightarrow> is_functional (version qr) x y"
proof -
  have "\<forall>(x, y)\<in>set (concat (map rect_modules (functional_rects (version qr)))). x < n_modules qr \<and> y < n_modules qr"
  proof (clarify, intro conjI)
    fix x y assume "(x, y) \<in> set (concat (map rect_modules (functional_rects (version qr))))"
    then obtain a b w h where r: "(a, b, w, h) \<in> set (functional_rects (version qr))"
        "(x, y) \<in> set (rect_modules (a, b, w, h))" by auto
    then show "x < n_modules qr" "y < n_modules qr"
      using functional_rects_inside[OF assms(1,2) r(1)] assms(3) by (auto simp: set_rect_modules)
  qed
  then show ?thesis
    unfolding setFunctionalPattern_set_all[OF assms(3)] is_functional_iff
    by (subst get_set_all[of "n_modules qr"]) simp_all
qed

lemma length_rect_modules: "length (rect_modules r) = rect_area r"
  by (cases r) (simp add: rect_modules_def rect_area_def length_concat comp_def sum_list_triv)

lemma alignment_covered:
  assumes v: "1 \<le> v" "v \<le> 40" and ij: "i < length (alignment_patterns ! v)" "j < length (alignment_patterns ! v)"
    and c: "\<not> alignment_corner (length (alignment_patterns ! v)) i j"
    and xy: "(x, y) \<in> set (rect_modules (alignment_patterns ! v ! i - 2, alignment_patterns ! v ! j - 2, 5, 5))"
  shows "(\<exists>r\<in>set (alignment_cover (alignment_patterns ! v) i j). (x, y) \<in> set (rect_modules r)) \<or>
    (x, y) \<in> set (rect_modules (9, 6, nModulesFromVersion v - 17, 1)) \<or>
    (x, y) \<in> set (rect_modules (6, 9, 1, nModulesFromVersion v - 17))"
proof -
  let ?ap = "alignment_patterns ! v" and ?n = "nModulesFromVersion v"
  have x: "?ap ! i - 2 \<le> x" "x < ?ap ! i - 2 + 5" and y: "?ap ! j - 2 \<le> y" "y < ?ap ! j - 2 + 5"
    using xy by (simp_all add: set_rect_modules)
  consider "i = 0" | "i \<noteq> 0" "j = 0" | "i \<noteq> 0" "j \<noteq> 0" by blast
  then show ?thesis
  proof cases
    case 1
    have j: "0 < j" "j < length ?ap - 1" using c ij 1 by (auto simp: alignment_corner_def)
    have a: "?ap ! i = 6" using alignment_entries(3)[OF v ij(1) 1] .
    have b: "11 \<le> ?ap ! j" "?ap ! j + 11 \<le> ?n" using alignment_entries(4)[OF v ij(2) j] by auto
    have "x = 4 \<or> x = 5 \<or> x = 6 \<or> x = 7 \<or> x = 8" using x a by auto
    then show ?thesis using 1 c x y a b by (auto simp: alignment_cover_def set_rect_modules)
  next
    case 2
    have i: "0 < i" "i < length ?ap - 1" using c ij 2 by (auto simp: alignment_corner_def)
    have a: "?ap ! j = 6" using alignment_entries(3)[OF v ij(2) 2(2)] .
    have b: "11 \<le> ?ap ! i" "?ap ! i + 11 \<le> ?n" using alignment_entries(4)[OF v ij(1) i] by auto
    have "y = 4 \<or> y = 5 \<or> y = 6 \<or> y = 7 \<or> y = 8" using y a by auto
    then show ?thesis using 2 c x y a b by (auto simp: alignment_cover_def set_rect_modules)
  next
    case 3
    then show ?thesis using c xy by (simp add: alignment_cover_def)
  qed
qed


lemma functional_covered:
  assumes v: "1 \<le> v" "v \<le> 40" and f: "is_functional v x y"
  shows "(x, y) \<in> set (concat (map rect_modules (functional_cover v)))"
proof -
  let ?ap = "alignment_patterns ! v" and ?n = "nModulesFromVersion v"
  let ?mid = "concat (map (\<lambda>i. concat (map (alignment_cover ?ap i) [0..<length ?ap])) [0..<length ?ap])"
  obtain r where r: "r \<in> set (functional_rects v)" "(x, y) \<in> set (rect_modules r)"
    using f by (auto simp: is_functional_iff)
  have cover: "functional_cover v = [(0, 0, 9, 9), (?n - 8, 0, 8, 9), (0, ?n - 8, 9, 8), (9, 6, ?n - 17, 1), (6, 9, 1, ?n - 17)] @
      ?mid @ (if 7 \<le> v then [(0, ?n - 11, 6, 3), (?n - 11, 0, 3, 6)] else [])"
    by (simp only: functional_cover_def Let_def)
  have sub: "r \<in> set (functional_cover v) \<Longrightarrow> (x, y) \<in> set (rect_modules r) \<Longrightarrow> ?thesis" for r by auto
  define V where "V = (if 7 \<le> v then [(0, ?n - 11, 6, 3), (?n - 11, 0, 3, 6)] else [] :: rect list)"
  define X where "X = {(0, 0, 9, 9), (?n - 8, 0, 8, 9), (0, ?n - 8, 9, 8)} \<union> set V"
  have rects: "functional_rects v = [(0, 0, 9, 9), (?n - 8, 0, 8, 9), (0, ?n - 8, 9, 8), (8, 6, ?n - 16, 1), (6, 8, 1, ?n - 16)] @
      map (\<lambda>(x, y). (x, y, 5, 5)) (alignment_places v) @ V"
    by (simp only: functional_rects_def Let_def V_def)
  have "r \<in> X \<or> r = (8, 6, ?n - 16, 1) \<or> r = (6, 8, 1, ?n - 16) \<or>
      r \<in> (\<lambda>(x, y). (x, y, 5, 5)) ` set (alignment_places v)"
    using r(1) unfolding rects X_def by (simp only: set_append set_map list.set Un_iff insert_iff empty_iff) argo
  moreover have "X \<subseteq> set (functional_cover v)"
    unfolding cover V_def[symmetric] X_def by (simp only: set_append list.set) auto
  ultimately have which: "r \<in> set (functional_cover v) \<or> r = (8, 6, ?n - 16, 1) \<or> r = (6, 8, 1, ?n - 16) \<or>
      r \<in> (\<lambda>(x, y). (x, y, 5, 5)) ` set (alignment_places v)" by blast
  have m: "(0, 0, 9, 9) \<in> set (functional_cover v)" "(9, 6, ?n - 17, 1) \<in> set (functional_cover v)"
    "(6, 9, 1, ?n - 17) \<in> set (functional_cover v)" unfolding cover by simp_all
  have n: "21 \<le> ?n" using v by (simp add: nModulesFromVersion_def)
  consider "r \<in> set (functional_cover v)" | "r = (8, 6, ?n - 16, 1)" | "r = (6, 8, 1, ?n - 16)"
    | a b where "(a, b) \<in> set (alignment_places v)" "r = (a, b, 5, 5)"
    using which by (elim disjE imageE) auto
  then show ?thesis
  proof cases
    case 1
    then show ?thesis using sub r(2) by blast
  next
    case 2
    then have "(x, y) \<in> set (rect_modules (0, 0, 9, 9)) \<or> (x, y) \<in> set (rect_modules (9, 6, ?n - 17, 1))"
      using r(2) n by (auto simp: set_rect_modules)
    then show ?thesis using sub m by blast
  next
    case 3
    then have "(x, y) \<in> set (rect_modules (0, 0, 9, 9)) \<or> (x, y) \<in> set (rect_modules (6, 9, 1, ?n - 17))"
      using r(2) n by (auto simp: set_rect_modules)
    then show ?thesis using sub m by blast
  next
    case (4 a b)
    then obtain i j where ij: "i < length ?ap" "j < length ?ap" "\<not> alignment_corner (length ?ap) i j"
        "a = ?ap ! i - 2" "b = ?ap ! j - 2"
      by (auto simp: alignment_places_iff Let_def)
    have mid: "q \<in> set (alignment_cover ?ap i j) \<Longrightarrow> q \<in> set (functional_cover v)" for q
      unfolding cover using ij(1,2) by force
    show ?thesis
      using alignment_covered[OF v ij(1-3), of x y] r(2) 4(2) ij(4,5) mid sub m by blast
  qed
qed

lemma functional_cover_area:
  assumes "1 \<le> v" "v \<le> 40"
  shows "sum_list (map rect_area (functional_cover v)) =
    225 + 2 * (nModulesFromVersion v - 17) + alignment_area (length (alignment_patterns ! v)) + (if 7 \<le> v then 36 else 0)"
proof -
  let ?ap = "alignment_patterns ! v" and ?n = "nModulesFromVersion v"
  have c: "sum_list (map rect_area (alignment_cover ?ap i j)) =
      (if alignment_corner (length ?ap) i j then 0 else if i = 0 \<or> j = 0 then 20 else 25)" for i j
    by (simp add: alignment_cover_def rect_area_def)
  have s: "sum_list (map f (concat xss)) = sum_list (map (\<lambda>xs. sum_list (map f xs)) xss)" for f :: "rect \<Rightarrow> nat" and xss
    by (induction xss) auto
  have "sum_list (map rect_area (concat (map (\<lambda>i. concat (map (alignment_cover ?ap i) [0..<length ?ap])) [0..<length ?ap]))) =
      alignment_area (length ?ap)"
    unfolding alignment_area_def by (simp add: s comp_def c)
  then show ?thesis
    unfolding functional_cover_def Let_def by (simp add: rect_area_def)
qed

definition free_set :: "nat \<Rightarrow> (nat \<times> nat) set" where
  "free_set v = {(x, y). x < nModulesFromVersion v \<and> y < nModulesFromVersion v \<and> \<not> is_functional v x y}"

lemma finite_free_set: "finite (free_set v)"
  by (rule finite_subset[of _ "{0..<nModulesFromVersion v} \<times> {0..<nModulesFromVersion v}"]) (auto simp: free_set_def)

text \<open>Every version has room for its code words and the remainder bits of the table.\<close>

lemma card_free_set:
  assumes "1 \<le> v" "v \<le> 40"
  shows "8 * n_codewords ! v + n_remainder_bits ! v \<le> card (free_set v)"
proof -
  let ?n = "nModulesFromVersion v" and ?C = "concat (map rect_modules (functional_cover v))"
  have all: "card ({0..<?n} \<times> {0..<?n}) = ?n * ?n" by simp
  have "{0..<?n} \<times> {0..<?n} \<subseteq> free_set v \<union> set ?C"
    using functional_covered[OF assms] by (auto simp: free_set_def)
  then have "?n * ?n \<le> card (free_set v \<union> set ?C)"
    unfolding all[symmetric] by (intro card_mono) (simp_all add: finite_free_set)
  also have "\<dots> \<le> card (free_set v) + length ?C"
    using card_Un_le[of "free_set v" "set ?C"] card_length[of ?C] by linarith
  also have "length ?C = sum_list (map rect_area (functional_cover v))"
    by (simp add: length_concat comp_def length_rect_modules)
  finally show ?thesis
    using alignment_row[OF assms] functional_cover_area[OF assms]
    by (simp add: alignment_row_ok_def nModulesFromVersion_def Let_def)
qed

section \<open>Writing and reading the code words\<close>

lemma word_at_bits:
  assumes "\<forall>w\<in>set a. w < 256"
  shows "partial_byte (data_bit a) q 8 = word_at a q"
proof (rule partial_byte_word)
  show "data_bit a (8 * q + i) = bit (word_at a q) (7 - i)" if "i < 8" for i
    using that by (simp add: data_bit_def)
  show "word_at a q < 256" using assms by (simp add: word_at_def)
qed

lemma map_word_at: "map (word_at a) [0..<n] = take n a @ replicate (n - length a) 0"
proof (rule nth_equalityI)
  fix i assume i: "i < length (map (word_at a) [0..<n])"
  show "map (word_at a) [0..<n] ! i = (take n a @ replicate (n - length a) 0) ! i"
    using i by (cases "i < length a") (auto simp: word_at_def nth_append)
qed simp

text \<open>The matrix an encoder works on, with its functional pattern in place.\<close>

definition matrix_ready :: "qr \<Rightarrow> bool" where
  "matrix_ready qr \<longleftrightarrow> 1 \<le> version qr \<and> version qr \<le> 40 \<and> n_modules qr = nModulesFromVersion (version qr) \<and>
     square (n_modules qr) (pixels qr) \<and>
     functional_pattern qr = functional_pattern (setFunctionalPattern qr)"

lemma matrix_readyD:
  assumes "matrix_ready qr"
  shows "get_px (functional_pattern qr) x y \<longleftrightarrow> is_functional (version qr) x y"
    and "distinct (free_modules qr)" and "set (free_modules qr) = free_set (version qr)"
proof -
  have v: "1 \<le> version qr" "version qr \<le> 40" "n_modules qr = nModulesFromVersion (version qr)"
    using assms by (simp_all add: matrix_ready_def)
  show px: "get_px (functional_pattern qr) x y \<longleftrightarrow> is_functional (version qr) x y" for x y
    using assms get_functional_pattern[OF v] by (simp add: matrix_ready_def)
  have sc: "distinct (scan (n_modules qr))" "set (scan (n_modules qr)) =
      {(x, y). x < n_modules qr \<and> x \<noteq> 6 \<and> y < n_modules qr}"
    using scan_modules[OF v(3)] by blast+
  show "distinct (free_modules qr)" using sc(1) by (simp add: free_modules_def)
  have six: "is_functional (version qr) 6 y" if "y < nModulesFromVersion (version qr)" for y
  proof -
    let ?n = "nModulesFromVersion (version qr)"
    have m: "(0, 0, 9, 9) \<in> set (functional_rects (version qr))"
      "(0, ?n - 8, 9, 8) \<in> set (functional_rects (version qr))"
      "(6, 8, 1, ?n - 16) \<in> set (functional_rects (version qr))"
      by (simp_all add: functional_rects_def Let_def)
    have n: "21 \<le> ?n" using v(1) by (simp add: nModulesFromVersion_def)
    consider "y < 9" | "8 \<le> y" "y < 8 + (?n - 16)" | "?n - 8 \<le> y" using n that by linarith
    then show ?thesis
    proof cases
      case 1
      show ?thesis unfolding is_functional_def by (rule bexI[OF _ m(1)]) (use 1 in simp)
    next
      case 2
      show ?thesis unfolding is_functional_def by (rule bexI[OF _ m(3)]) (use 2 in simp)
    next
      case 3
      show ?thesis unfolding is_functional_def by (rule bexI[OF _ m(2)]) (use 3 that n in simp)
    qed
  qed
  have "x \<noteq> 6" if "x < nModulesFromVersion (version qr)" "y < nModulesFromVersion (version qr)"
      "\<not> is_functional (version qr) x y" for x y
    using six that by blast
  then show "set (free_modules qr) = free_set (version qr)"
    using sc(2) px v(3) unfolding free_modules_def free_set_def by auto
qed

lemma encodeData_pixels:
  assumes "matrix_ready qr"
  shows "square (n_modules qr) (pixels (encodeData m qr))"
    and "is_functional (version qr) x y \<Longrightarrow> get_px (pixels (encodeData m qr)) x y = get_px (pixels qr) x y"
    and "i < length (free_modules qr) \<Longrightarrow> free_modules qr ! i = (x, y) \<Longrightarrow>
      get_px (pixels (encodeData m qr)) x y =
        (if mask_value m x y = 0 then \<not> data_bit (bytes qr) i else data_bit (bytes qr) i)"
proof -
  have sq: "square (n_modules qr) (pixels qr)" using assms unfolding matrix_ready_def by blast
  note fm = matrix_readyD[OF assms]
  have inside: "\<forall>(x, y)\<in>set (free_modules qr). x < n_modules qr \<and> y < n_modules qr"
    using assms unfolding fm(3) by (auto simp: free_set_def matrix_ready_def)
  obtain p' where p: "fold (write_bit qr m) (free_modules qr) (pixels qr, 0, 2 ^ 7, 0) =
      (p', length (free_modules qr) div 8, 2 ^ (7 - length (free_modules qr) mod 8), length (free_modules qr) mod 8)"
    "square (n_modules qr) p'"
    "\<forall>u v. (u, v) \<notin> set (free_modules qr) \<longrightarrow> get_px p' u v = get_px (pixels qr) u v"
    "\<forall>i<length (free_modules qr). get_px p' (fst (free_modules qr ! i)) (snd (free_modules qr ! i)) =
       (if mask_value m (fst (free_modules qr ! i)) (snd (free_modules qr ! i)) = 0 then \<not> data_bit (bytes qr) i
        else data_bit (bytes qr) i)"
    using write_bits_run[OF sq fm(2) inside, of qr m 0] by (simp only: add_0 div_0 mod_0 diff_zero) blast
  have px: "pixels (encodeData m qr) = p'" unfolding encodeData_free p(1) by simp
  show "square (n_modules qr) (pixels (encodeData m qr))" using px p(2) by simp
  show "is_functional (version qr) x y \<Longrightarrow> get_px (pixels (encodeData m qr)) x y = get_px (pixels qr) x y"
    using px p(3) fm(3) by (simp add: free_set_def)
  show "i < length (free_modules qr) \<Longrightarrow> free_modules qr ! i = (x, y) \<Longrightarrow>
      get_px (pixels (encodeData m qr)) x y =
        (if mask_value m x y = 0 then \<not> data_bit (bytes qr) i else data_bit (bytes qr) i)"
    using px p(4) by force
qed

lemma extract_after_encode:
  assumes "matrix_ready qr" and "\<forall>w\<in>set (bytes qr). w < 256" and "length (bytes qr) = n_codewords ! version qr"
    and same: "functional_pattern qr2 = functional_pattern qr" "n_modules qr2 = n_modules qr" "mask_no qr2 = m"
    and dark: "\<And>x y. (x, y) \<in> set (free_modules qr) \<Longrightarrow> isDark x y = get_px (pixels (encodeData m qr)) x y"
  shows "\<exists>rest. codewords (extractCodewords isDark qr2) = bytes qr @ rest \<and> (\<forall>w\<in>set rest. w = 0)"
proof -
  have fm: "free_modules qr2 = free_modules qr" using same by (simp add: free_modules_def)
  let ?F = "free_modules qr"
  have u: "(\<lambda>(x, y). getUnmasked m isDark x y) (?F ! i) = data_bit (bytes qr) (0 + i)" if "i < length ?F" for i
  proof -
    obtain x y where xy: "?F ! i = (x, y)" by fastforce
    then have "(x, y) \<in> set ?F" using that by (metis nth_mem)
    then show ?thesis using encodeData_pixels(3)[OF assms(1) that xy, of m] dark xy
      by (simp add: getUnmasked_def)
  qed
  have "fold (read_bit (\<lambda>(x, y). getUnmasked m isDark x y)) ?F
      (map (\<lambda>q. partial_byte (data_bit (bytes qr)) q 8) [0..<0 div 8], partial_byte (data_bit (bytes qr)) (0 div 8) (0 mod 8), 2 ^ (7 - 0 mod 8)) =
    (map (\<lambda>q. partial_byte (data_bit (bytes qr)) q 8) [0..<(0 + length ?F) div 8],
     partial_byte (data_bit (bytes qr)) ((0 + length ?F) div 8) ((0 + length ?F) mod 8), 2 ^ (7 - (0 + length ?F) mod 8))"
    by (rule read_bits_run) (use u in blast)
  then have "codewords (extractCodewords isDark qr2) = map (\<lambda>q. partial_byte (data_bit (bytes qr)) q 8) [0..<length ?F div 8]"
    unfolding extractCodewords_free fm same(3) by simp
  then have c: "codewords (extractCodewords isDark qr2) = map (word_at (bytes qr)) [0..<length ?F div 8]"
    using word_at_bits[OF assms(2)] by simp
  have v: "1 \<le> version qr" "version qr \<le> 40" using assms(1) by (simp_all add: matrix_ready_def)
  have "length ?F = card (free_set (version qr))"
    using matrix_readyD(2,3)[OF assms(1)] distinct_card by metis
  then have "length (bytes qr) \<le> length ?F div 8" using card_free_set[OF v] assms(3) by linarith
  then show ?thesis unfolding c map_word_at by (intro exI[of _ "replicate (length ?F div 8 - length (bytes qr)) 0"]) simp
qed

text \<open>
  C12: Every version has room for its code words, and they survive the matrix: writing the code
  words of a symbol under any mask and reading the modules back under the same mask gives the
  same words, followed only by zero words of the remainder.
\<close>

theorem codewords_roundtrip:
  assumes "1 \<le> version qr" "version qr \<le> 40" "n_modules qr = nModulesFromVersion (version qr)"
    and "square (n_modules qr) (pixels qr)"
    and "\<forall>w\<in>set (bytes qr). w < 256" and "length (bytes qr) = n_codewords ! version qr"
    and "drawn = encodeData m (setFunctionalPattern qr)"
  shows "\<exists>rest. codewords (extractCodewords (get_px (pixels drawn)) (drawn\<lparr>mask_no := m\<rparr>)) = bytes qr @ rest \<and>
    (\<forall>w\<in>set rest. w = 0)"
proof -
  let ?q = "setFunctionalPattern qr"
  have fr: "version ?q = version qr" "n_modules ?q = n_modules qr" "pixels ?q = pixels qr" "bytes ?q = bytes qr"
    by (simp_all add: setFunctionalPattern_def Let_def)
  have "setFunctionalPattern ?q = ?q" by (simp add: setFunctionalPattern_def Let_def)
  then have r: "matrix_ready ?q" using assms(1-4) fr by (simp add: matrix_ready_def)
  show ?thesis
    using extract_after_encode[OF r, of "drawn\<lparr>mask_no := m\<rparr>" m "get_px (pixels drawn)"] assms(5,6) fr
    by (simp add: assms(7) encodeData_def)
qed

theorem codewords_roundtrip_witness:
  "\<exists>rest. codewords (extractCodewords
     (get_px (pixels (encodeData 3 (setFunctionalPattern (new_qr\<lparr>version := 1, n_modules := 21,
        pixels := blank 21, bytes := replicate 26 77\<rparr>)))))
     (encodeData 3 (setFunctionalPattern (new_qr\<lparr>version := 1, n_modules := 21,
        pixels := blank 21, bytes := replicate 26 77\<rparr>))\<lparr>mask_no := 3\<rparr>)) = replicate 26 77 @ rest"
  using codewords_roundtrip[of "new_qr\<lparr>version := 1, n_modules := 21, pixels := blank 21, bytes := replicate 26 77\<rparr>",
      OF _ _ _ _ _ _ refl, of 3]
  by (simp add: new_qr_def nModulesFromVersion_def n_codewords_def) blast

end
