(* ===== verification/QrSymbol.thy ===== *)
theory QrSymbol
  imports QrMatrix
begin

text \<open>
  A whole QR symbol (qrcodedecode.js): \<open>encodeFunctionalPatterns\<close> draws the fixed patterns,
  \<open>calculatePenalty\<close> and \<open>encodeBestMask\<close> choose the mask, \<open>encodeInit\<close>, \<open>encodeAddText\<close> and
  \<open>encode\<close> run the encoder, and \<open>decode_inside\<close> is the decoder behind the detection of version,
  level and mask. The main theorem composes the components: every text that fits is decoded
  from the drawn symbol, also when up to half of the parity words of each block were misread.
\<close>

section \<open>Fixed patterns\<close>

definition encodeFinderPattern :: "nat \<Rightarrow> nat \<Rightarrow> bool list list \<Rightarrow> bool list list" where
  "encodeFinderPattern x y p =
     fold (\<lambda>i. fold (\<lambda>j. set_px (x + i) (y + j) True) [2..<5]) [2..<5]
       (fold (\<lambda>i p. set_px x (y + 6 - i) True (set_px (x + 6 - i) (y + 6) True
          (set_px (x + 6) (y + i) True (set_px (x + i) y True p)))) [0..<6] p)"

text \<open>
  The drawing loops of version and format information test the lowest bit of a number that is
  halved after every module. Halving gives fractions, of which the bitwise test takes the
  integral part, so step \<open>k\<close> tests bit \<open>k\<close>.
\<close>

definition draw_bits :: "nat \<Rightarrow> (nat \<times> nat) list \<Rightarrow> bool list list \<Rightarrow> bool list list" where
  "draw_bits pattern xys p =
     snd (fold (\<lambda>(x, y) (pat, p). (pat div 2, if odd pat then set_px x y True p else p)) xys (pattern, p))"

definition version_topright :: "nat \<Rightarrow> (nat \<times> nat) list" where
  "version_topright n = concat (map (\<lambda>y. map (\<lambda>x. (x, y)) [n - 11..<n - 11 + 3]) [0..<6])"

definition encodeVersionTopright :: "nat \<Rightarrow> nat \<Rightarrow> bool list list \<Rightarrow> bool list list" where
  "encodeVersionTopright ver n = draw_bits (version_info ! ver) (version_topright n)"

definition version_bottomleft :: "nat \<Rightarrow> (nat \<times> nat) list" where
  "version_bottomleft n = concat (map (\<lambda>x. map (\<lambda>y. (x, y)) [n - 11..<n - 11 + 3]) [0..<6])"

definition encodeVersionBottomleft :: "nat \<Rightarrow> nat \<Rightarrow> bool list list \<Rightarrow> bool list list" where
  "encodeVersionBottomleft ver n = draw_bits (version_info ! ver) (version_bottomleft n)"

fun every_second :: "nat list \<Rightarrow> nat list" where
  "every_second (i # _ # is) = i # every_second is"
| "every_second is = is"

definition encodeTimingPattern :: "nat \<Rightarrow> bool \<Rightarrow> bool list list \<Rightarrow> bool list list" where
  "encodeTimingPattern n horizontal =
     fold (\<lambda>i. if horizontal then set_px i 6 True else set_px 6 i True) (every_second [8..<n - 8])"

definition encodeOneAlignmentPattern :: "nat \<Rightarrow> nat \<Rightarrow> bool list list \<Rightarrow> bool list list" where
  "encodeOneAlignmentPattern x y p =
     set_px (x + 2) (y + 2) True
       (fold (\<lambda>i p. set_px x (y + 4 - i) True (set_px (x + 4 - i) (y + 4) True
          (set_px (x + 4) (y + i) True (set_px (x + i) y True p)))) [0..<4] p)"

definition encodeAlignmentPatterns :: "nat \<Rightarrow> bool list list \<Rightarrow> bool list list" where
  "encodeAlignmentPatterns ver = fold (\<lambda>(x, y). encodeOneAlignmentPattern x y) (alignment_places ver)"

text \<open>The modules of the two copies of the format information, in drawing order.\<close>

definition format_nw :: "(nat \<times> nat) list" where
  "format_nw = map (\<lambda>y. (8, y)) [0..<6] @ [(8, 7), (8, 8), (7, 8)] @ map (\<lambda>x. (x, 8)) (rev [0..<6])"

definition encodeFormatNW :: "nat \<Rightarrow> bool list list \<Rightarrow> bool list list" where
  "encodeFormatNW code = draw_bits code format_nw"

definition format_nesw :: "nat \<Rightarrow> (nat \<times> nat) list" where
  "format_nesw n = map (\<lambda>x. (x, 8)) (rev [n - 8..<n]) @ map (\<lambda>y. (8, y)) [n - 7..<n - 1]"

definition encodeFormatNESW :: "nat \<Rightarrow> nat \<Rightarrow> bool list list \<Rightarrow> bool list list" where
  "encodeFormatNESW n code = draw_bits code (format_nesw n)"

definition encodeFunctionalPatterns :: "nat \<Rightarrow> qr \<Rightarrow> qr" where
  "encodeFunctionalPatterns qrmask qr =
     (let n = n_modules qr; ver = version qr;
          p = pixels qr;
          p = encodeFinderPattern 0 0 p;
          p = encodeFinderPattern 0 (n - 7) p;
          p = encodeFinderPattern (n - 7) 0 p;
          p = (if 7 \<le> ver then encodeVersionBottomleft ver n (encodeVersionTopright ver n p) else p);
          p = encodeTimingPattern n True p;
          p = encodeTimingPattern n False p;
          p = (if 1 < ver then encodeAlignmentPatterns ver p else p);
          code = format_info ! (qrmask + 8 * error_correction_level qr);
          p = encodeFormatNW code p;
          p = encodeFormatNESW n code p
      in qr\<lparr>pixels := p\<rparr>)"

section \<open>Penalties\<close>

text \<open>Run lengths of dark and light modules along row or column \<open>i\<close>, as the loop counts them.\<close>

definition adjacent_step :: "bool \<Rightarrow> nat \<times> nat \<times> nat \<Rightarrow> nat \<times> nat \<times> nat" where
  "adjacent_step dark s =
     (case s of (p, n_dark, n_light) \<Rightarrow>
        if dark then ((if n_light > 5 then p + (3 + n_light - 5) else p), n_dark + 1, 0)
        else ((if n_dark > 5 then p + (3 + n_dark - 5) else p), 0, n_light + 1))"

definition adjacent_line :: "bool list \<Rightarrow> nat" where
  "adjacent_line line =
     (case fold adjacent_step line (0, 0, 0) of (p, n_dark, n_light) \<Rightarrow>
        (let p = (if n_light > 5 then p + (3 + n_light - 5) else p)
         in if n_dark > 5 then p + (3 + n_dark - 5) else p))"

definition penaltyAdjacent :: "nat \<Rightarrow> bool list list \<Rightarrow> nat" where
  "penaltyAdjacent n px =
     sum_list (map (\<lambda>i. adjacent_line (map (\<lambda>j. get_px px j i) [0..<n])
                      + adjacent_line (map (\<lambda>j. get_px px i j) [0..<n])) [0..<n])"

definition penaltyBlocks :: "nat \<Rightarrow> bool list list \<Rightarrow> nat" where
  "penaltyBlocks n px =
     sum_list (map (\<lambda>i. sum_list (map (\<lambda>j.
       (let b = (of_bool (get_px px i j) + of_bool (get_px px (i + 1) j)
                  + of_bool (get_px px i (j + 1)) + of_bool (get_px px (i + 1) (j + 1)) :: nat)
        in if b = 0 \<or> b = 4 then 3 else 0)) [0..<n - 1])) [0..<n - 1])"

text \<open>One module is shifted into the 15-bit window; the penalty of the window is added.\<close>

definition darkLight_step :: "nat \<Rightarrow> (nat \<Rightarrow> bool) \<Rightarrow> nat \<Rightarrow> nat \<times> nat \<Rightarrow> nat \<times> nat" where
  "darkLight_step n line j s =
     (case s of (p, pat) \<Rightarrow>
        (let bad = push_bit 4 (128 - 1 - 2 - 32);
             badmask1 = 2048 - 1;
             badmask2 = push_bit 4 badmask1;
             pat = push_bit 1 pat AND (32768 - 1);
             pat = (if line j then pat + 1 else pat)
         in if 7 + 4 \<le> j then
              (if pat AND badmask1 = bad then (p + 40, pat)
               else if j + 4 + 7 < n \<and> pat AND badmask2 = bad then (p + 40, pat) else (p, pat))
            else (p, pat)))"

definition penaltyDarkLight :: "nat \<Rightarrow> bool list list \<Rightarrow> nat" where
  "penaltyDarkLight n px =
     sum_list (map (\<lambda>i. fst (fold (darkLight_step n (\<lambda>j. get_px px j i)) [0..<n - 1] (0, 0))
                      + fst (fold (darkLight_step n (\<lambda>j. get_px px i j)) [0..<n - 1] (0, 0))) [0..<n - 1])"

text \<open>
  The share of dark modules is measured in steps of 5 percent from one half, in exact
  arithmetic; the floating point quotient of the source can differ in its last place.
\<close>

definition penaltyDark :: "nat \<Rightarrow> bool list list \<Rightarrow> nat" where
  "penaltyDark n px =
     (let dark = sum_list (map (\<lambda>i. sum_list (map (\<lambda>j. of_bool (get_px px i j)) [0..<n - 1])) [0..<n - 1])
      in 10 * (nat (10 * \<bar>2 * int dark - int (n * n)\<bar>) div (n * n)))"

definition calculatePenalty :: "qr \<Rightarrow> nat" where
  "calculatePenalty qr =
     (let n = n_modules qr; px = pixels qr
      in penaltyAdjacent n px + penaltyBlocks n px + penaltyDarkLight n px + penaltyDark n px)"

section \<open>The best mask\<close>

definition clear_pixels :: "qr \<Rightarrow> qr" where
  "clear_pixels qr = qr\<lparr>pixels := blank (n_modules qr)\<rparr>"

definition draw_masked :: "nat \<Rightarrow> qr \<Rightarrow> qr" where
  "draw_masked m qr = encodeData m (encodeFunctionalPatterns m (clear_pixels qr))"

definition try_mask :: "nat \<Rightarrow> qr \<times> nat \<times> nat \<Rightarrow> qr \<times> nat \<times> nat" where
  "try_mask m s =
     (case s of (qr, best_mask, best_penalty) \<Rightarrow>
        (let qr = draw_masked m qr; penalty = calculatePenalty qr
         in if penalty < best_penalty then (qr, m, penalty) else (qr, best_mask, best_penalty)))"

definition encodeBestMask :: "qr \<Rightarrow> qr" where
  "encodeBestMask qr =
     (let (qr, best_mask, best_penalty) = fold try_mask [0..<8] (setFunctionalPattern qr, 0, 999999);
          qr = qr\<lparr>mask_no := best_mask\<rparr>
      in if mask_no qr \<noteq> 7 then draw_masked (mask_no qr) qr else qr)"

section \<open>Encoder and decoder\<close>

text \<open>
  \<open>encodeInit\<close> also sizes and clears the image; here the image is the pixel array that
  \<open>encodeToPixarray\<close> builds, with four light modules on each side and one pixel per module.
\<close>

definition encodeInit :: "nat \<Rightarrow> nat \<Rightarrow> nat \<Rightarrow> qr \<Rightarrow> qr" where
  "encodeInit ver level d qr =
     (let qr = qr\<lparr>version := ver, error_correction_level := level, module_size := d,
                  n_modules := nModulesFromVersion ver, bit_idx := 0\<rparr>;
          qr = setBlocks qr
      in qr\<lparr>data := replicate (n_data_codewords qr) 0, pixels := replicate (n_modules qr) []\<rparr>)"

definition pix_setDark :: "nat \<Rightarrow> nat \<Rightarrow> nat \<Rightarrow> bool list list \<Rightarrow> bool list list" where
  "pix_setDark n_total x y arr = (if n_total - 1 < x then arr else set_px x y True arr)"

definition pixelsToImage :: "qr \<Rightarrow> bool list list \<Rightarrow> bool list list" where
  "pixelsToImage qr arr =
     fold (\<lambda>i. fold (\<lambda>j arr.
       if get_px (pixels qr) i j then pix_setDark (n_modules qr + 4 + 4) (4 + i) (4 + j) arr else arr)
       [0..<n_modules qr]) [0..<n_modules qr] arr"

definition encode_symbol :: "qr \<Rightarrow> qr_error + qr" where
  "encode_symbol qr =
     bind_ok (addTextImplementation qr MODE_Terminator []) (\<lambda>qr.
       bind_ok (addErrorCorrection (appendPadding qr)) (\<lambda>qr.
         Inr (encodeBestMask qr)))"

definition encodeToPixarray :: "nat \<Rightarrow> js_string \<Rightarrow> nat \<Rightarrow> nat \<Rightarrow> qr_error + qr \<times> bool list list" where
  "encodeToPixarray mode text ver level =
     bind_ok (addTextImplementation (encodeInit ver level 1 new_qr) mode text) (\<lambda>qr.
       bind_ok (encode_symbol qr) (\<lambda>qr.
         Inr (qr, pixelsToImage qr (blank (nModulesFromVersion ver + 4 + 4)))))"

text \<open>
  \<open>decodeInsideBordersWithMaxVersion\<close> behind \<open>findModuleSize\<close>, which has set version, level, mask
  and the number of modules; the image answers for the darkness of a module.
\<close>

definition decode_inside :: "(nat \<Rightarrow> nat \<Rightarrow> bool) \<Rightarrow> qr \<Rightarrow> qr_error + qr" where
  "decode_inside isDark qr =
     (let qr = extractCodewords isDark (setFunctionalPattern qr)
      in bind_ok (qr_correctErrors (setBlocks qr)) extractData)"

section \<open>Drawing stays inside the functional pattern\<close>

text \<open>
  \<open>drawn_in n S p q\<close>: the matrix \<open>q\<close> is square and differs from \<open>p\<close> only at modules in \<open>S\<close>.
\<close>

definition drawn_in :: "nat \<Rightarrow> (nat \<Rightarrow> nat \<Rightarrow> bool) \<Rightarrow> bool list list \<Rightarrow> bool list list \<Rightarrow> bool" where
  "drawn_in n S p q \<longleftrightarrow> square n q \<and> (\<forall>x y. get_px q x y \<noteq> get_px p x y \<longrightarrow> S x y)"

lemma drawn_in_refl: "square n p \<Longrightarrow> drawn_in n S p p"
  by (simp add: drawn_in_def)

lemma get_set_px_other: "(u, v) \<noteq> (x, y) \<Longrightarrow> get_px (set_px x y b p) u v = get_px p u v"
  by (cases "x < length p") (auto simp: get_px_def set_px_def nth_list_update list_update_beyond)

lemma drawn_in_set_px: "drawn_in n S p q \<Longrightarrow> S x y \<Longrightarrow> drawn_in n S p (set_px x y b q)"
  unfolding drawn_in_def using get_set_px_other square_set_px by (metis prod.inject)

lemma drawn_in_if: "(c \<Longrightarrow> drawn_in n S p q) \<Longrightarrow> (\<not> c \<Longrightarrow> drawn_in n S p r) \<Longrightarrow> drawn_in n S p (if c then q else r)"
  by (cases c) simp_all

lemma drawn_in_fold:
  "drawn_in n S p q \<Longrightarrow> (\<And>i q. i \<in> set is \<Longrightarrow> drawn_in n S p q \<Longrightarrow> drawn_in n S p (F i q)) \<Longrightarrow>
     drawn_in n S p (fold F is q)"
  by (induction "is" arbitrary: q) simp_all

lemma drawn_in_draw_bits:
  "drawn_in n S p q \<Longrightarrow> (\<And>x y. (x, y) \<in> set xys \<Longrightarrow> S x y) \<Longrightarrow> drawn_in n S p (draw_bits pattern xys q)"
proof (induction xys arbitrary: pattern q)
  case (Cons xy xys)
  obtain x y where xy: "xy = (x, y)" by force
  have "draw_bits pattern (xy # xys) q = draw_bits (pattern div 2) xys (if odd pattern then set_px x y True q else q)"
    by (simp add: draw_bits_def xy)
  moreover have "drawn_in n S p (if odd pattern then set_px x y True q else q)"
    using Cons.prems xy by (intro drawn_in_if drawn_in_set_px) auto
  ultimately show ?case using Cons by simp
qed (simp add: draw_bits_def)

lemma in_rect_functional:
  "(a, b, w, h) \<in> set (functional_rects v) \<Longrightarrow> a \<le> x \<Longrightarrow> x < a + w \<Longrightarrow> b \<le> y \<Longrightarrow> y < b + h \<Longrightarrow> is_functional v x y"
  unfolding is_functional_def by (rule bexI[of _ "(a, b, w, h)"]) auto

lemma fixed_rects:
  "(0, 0, 9, 9) \<in> set (functional_rects v)"
  "(nModulesFromVersion v - 8, 0, 8, 9) \<in> set (functional_rects v)"
  "(0, nModulesFromVersion v - 8, 9, 8) \<in> set (functional_rects v)"
  "(8, 6, nModulesFromVersion v - 16, 1) \<in> set (functional_rects v)"
  "(6, 8, 1, nModulesFromVersion v - 16) \<in> set (functional_rects v)"
  "7 \<le> v \<Longrightarrow> (0, nModulesFromVersion v - 11, 6, 3) \<in> set (functional_rects v)"
  "7 \<le> v \<Longrightarrow> (nModulesFromVersion v - 11, 0, 3, 6) \<in> set (functional_rects v)"
  by (simp_all add: functional_rects_def Let_def)

lemma fixed_functional:
  assumes "n = nModulesFromVersion v"
  shows "x < 9 \<Longrightarrow> y < 9 \<Longrightarrow> is_functional v x y"
    "n - 8 \<le> x \<Longrightarrow> x < n \<Longrightarrow> y < 9 \<Longrightarrow> is_functional v x y"
    "x < 9 \<Longrightarrow> n - 8 \<le> y \<Longrightarrow> y < n \<Longrightarrow> is_functional v x y"
    "8 \<le> x \<Longrightarrow> x < n - 8 \<Longrightarrow> is_functional v x 6"
    "8 \<le> y \<Longrightarrow> y < n - 8 \<Longrightarrow> is_functional v 6 y"
    "7 \<le> v \<Longrightarrow> x < 6 \<Longrightarrow> n - 11 \<le> y \<Longrightarrow> y < n - 8 \<Longrightarrow> is_functional v x y"
    "7 \<le> v \<Longrightarrow> n - 11 \<le> x \<Longrightarrow> x < n - 8 \<Longrightarrow> y < 6 \<Longrightarrow> is_functional v x y"
proof -
  have n: "17 \<le> n" using assms by (simp add: nModulesFromVersion_def)
  note r = fixed_rects[where v = v, folded assms]
  show "x < 9 \<Longrightarrow> y < 9 \<Longrightarrow> is_functional v x y" by (rule in_rect_functional[OF r(1)]) auto
  show "n - 8 \<le> x \<Longrightarrow> x < n \<Longrightarrow> y < 9 \<Longrightarrow> is_functional v x y" by (rule in_rect_functional[OF r(2)]) (use n in auto)
  show "x < 9 \<Longrightarrow> n - 8 \<le> y \<Longrightarrow> y < n \<Longrightarrow> is_functional v x y" by (rule in_rect_functional[OF r(3)]) (use n in auto)
  show "8 \<le> x \<Longrightarrow> x < n - 8 \<Longrightarrow> is_functional v x 6" by (rule in_rect_functional[OF r(4)]) (use n in auto)
  show "8 \<le> y \<Longrightarrow> y < n - 8 \<Longrightarrow> is_functional v 6 y" by (rule in_rect_functional[OF r(5)]) (use n in auto)
  show "7 \<le> v \<Longrightarrow> x < 6 \<Longrightarrow> n - 11 \<le> y \<Longrightarrow> y < n - 8 \<Longrightarrow> is_functional v x y"
    by (rule in_rect_functional[OF r(6)]) (use n in auto)
  show "7 \<le> v \<Longrightarrow> n - 11 \<le> x \<Longrightarrow> x < n - 8 \<Longrightarrow> y < 6 \<Longrightarrow> is_functional v x y"
    by (rule in_rect_functional[OF r(7)]) (use n in auto)
qed

lemma alignment_functional:
  "(a, b) \<in> set (alignment_places v) \<Longrightarrow> a \<le> x \<Longrightarrow> x < a + 5 \<Longrightarrow> b \<le> y \<Longrightarrow> y < b + 5 \<Longrightarrow> is_functional v x y"
  by (rule in_rect_functional[of a b 5 5]) (force simp: functional_rects_def Let_def)+

lemma drawn_in_finder:
  assumes "drawn_in n S p q" and "\<And>i j. i < 7 \<Longrightarrow> j < 7 \<Longrightarrow> S (x + i) (y + j)"
  shows "drawn_in n S p (encodeFinderPattern x y q)"
proof -
  have "S (x + i) y" "S (x + 6) (y + i)" "S (x + 6 - i) (y + 6)" "S x (y + 6 - i)" if "i < 6" for i
    using assms(2)[of i 0] assms(2)[of 6 i] assms(2)[of "6 - i" 6] assms(2)[of 0 "6 - i"] that by simp_all
  then show ?thesis
    unfolding encodeFinderPattern_def by (intro drawn_in_fold drawn_in_set_px assms) auto
qed

lemma drawn_in_alignment:
  assumes "drawn_in n S p q" and "\<And>i j. i < 5 \<Longrightarrow> j < 5 \<Longrightarrow> S (x + i) (y + j)"
  shows "drawn_in n S p (encodeOneAlignmentPattern x y q)"
proof -
  have "S (x + i) y" "S (x + 4) (y + i)" "S (x + 4 - i) (y + 4)" "S x (y + 4 - i)" if "i < 4" for i
    using assms(2)[of i 0] assms(2)[of 4 i] assms(2)[of "4 - i" 4] assms(2)[of 0 "4 - i"] that by simp_all
  then show ?thesis
    unfolding encodeOneAlignmentPattern_def by (intro drawn_in_fold drawn_in_set_px assms) auto
qed

lemma every_second_subset: "set (every_second is) \<subseteq> set is"
  by (induction "is" rule: every_second.induct) auto

lemma encodeFunctionalPatterns_inside:
  assumes "1 \<le> version qr" and "n_modules qr = nModulesFromVersion (version qr)" and "square (n_modules qr) (pixels qr)"
  shows "drawn_in (n_modules qr) (is_functional (version qr)) (pixels qr) (pixels (encodeFunctionalPatterns m qr))"
proof -
  define v n where "v = version qr" and "n = nModulesFromVersion v"
  have n: "21 \<le> n" using assms(1) by (simp add: n_def v_def nModulesFromVersion_def)
  note ff = fixed_functional[OF n_def]
  note D = drawn_in_def
  have finder: "is_functional v i j" "is_functional v i (n - 7 + j)" "is_functional v (n - 7 + i) j"
    if "i < 7" "j < 7" for i j
    by (rule ff(1) ff(2) ff(3); use that n in linarith)+
  have ver: "is_functional v x y" if "(x, y) \<in> set (version_topright n) \<union> set (version_bottomleft n)" "7 \<le> v" for x y
    using that n ff(6)[of x y] ff(7)[of x y] by (auto simp: version_topright_def version_bottomleft_def)
  have second: "8 \<le> i \<and> i < n - 8" if "i \<in> set (every_second [8..<n - 8])" for i
    using every_second_subset[of "[8..<n - 8]"] that by auto
  have timing: "is_functional v i 6" "is_functional v 6 i" if "i \<in> set (every_second [8..<n - 8])" for i
    using ff(4)[of i] ff(5)[of i] second[OF that] by blast+
  have fmt: "is_functional v x y" if "(x, y) \<in> set format_nw \<union> set (format_nesw n)" for x y
    using that n ff(1)[of x y] ff(2)[of x y] ff(3)[of x y] by (auto simp: format_nw_def format_nesw_def)
  have al: "drawn_in n (is_functional v) p (encodeAlignmentPatterns v q)" if "drawn_in n (is_functional v) p q" for p q
    unfolding encodeAlignmentPatterns_def
  proof (rule drawn_in_fold[OF that])
    fix xy q assume xy: "xy \<in> set (alignment_places v)" and q: "drawn_in n (is_functional v) p q"
    obtain a b where "xy = (a, b)" by (cases xy)
    then have ab: "xy = (a, b)" "(a, b) \<in> set (alignment_places v)" using xy by simp_all
    show "drawn_in n (is_functional v) p ((case xy of (x, y) \<Rightarrow> encodeOneAlignmentPattern x y) q)"
      unfolding ab prod.case by (rule drawn_in_alignment[OF q]) (auto intro: alignment_functional[OF ab(2)])
  qed
  have px: "pixels (qr\<lparr>pixels := q\<rparr>) = q" for q by simp
  have n': "n_modules qr = n" using assms(2) by (simp add: n_def v_def)
  show ?thesis
    unfolding encodeFunctionalPatterns_def Let_def v_def[symmetric] n' px
      encodeVersionTopright_def encodeVersionBottomleft_def encodeTimingPattern_def encodeFormatNW_def encodeFormatNESW_def
    using assms(3)[unfolded n']
    by (intro drawn_in_draw_bits drawn_in_if al drawn_in_fold drawn_in_set_px drawn_in_finder drawn_in_refl)
       (auto intro: finder ver timing fmt drawn_in_set_px)
qed

section \<open>The best mask\<close>

lemma setFunctionalPattern_frame [frame_simps]:
  "setFunctionalPattern qr = qr\<lparr>functional_pattern := functional_pattern (setFunctionalPattern qr)\<rparr>"
  by (simp add: setFunctionalPattern_def Let_def)

lemma encodeFunctionalPatterns_frame [frame_simps]:
  "encodeFunctionalPatterns m qr = qr\<lparr>pixels := pixels (encodeFunctionalPatterns m qr)\<rparr>"
  by (simp add: encodeFunctionalPatterns_def Let_def split del: if_split)

lemma encodeData_frame [frame_simps]: "encodeData m qr = qr\<lparr>pixels := pixels (encodeData m qr)\<rparr>"
  by (simp add: encodeData_def)

text \<open>What is drawn under a mask does not depend on the pixels or the mask of the object.\<close>

lemma draw_masked_frame: "draw_masked m qr = qr\<lparr>pixels := pixels (draw_masked m qr)\<rparr>"
  unfolding draw_masked_def by (subst encodeData_frame, subst encodeFunctionalPatterns_frame) (simp add: clear_pixels_def)

lemma draw_masked_pixels [simp]: "draw_masked m (qr\<lparr>pixels := p\<rparr>) = draw_masked m qr"
  by (simp add: draw_masked_def clear_pixels_def)

lemma write_module_mask [simp]: "write_module (qr\<lparr>mask_no := b\<rparr>) m = write_module qr m"
proof -
  have "functional_pattern (qr\<lparr>mask_no := b\<rparr>) = functional_pattern qr" "bytes (qr\<lparr>mask_no := b\<rparr>) = bytes qr"
    by simp_all
  then show ?thesis by (intro ext) (simp only: write_module_def)
qed

lemma encodeData_mask [simp]: "encodeData m (qr\<lparr>mask_no := b\<rparr>) = (encodeData m qr)\<lparr>mask_no := b\<rparr>"
  by (simp add: encodeData_def)

lemma encodeFunctionalPatterns_mask [simp]:
  "encodeFunctionalPatterns m (qr\<lparr>mask_no := b\<rparr>) = (encodeFunctionalPatterns m qr)\<lparr>mask_no := b\<rparr>"
  by (simp add: encodeFunctionalPatterns_def Let_def split del: if_split)

lemma draw_masked_mask [simp]: "draw_masked m (qr\<lparr>mask_no := b\<rparr>) = (draw_masked m qr)\<lparr>mask_no := b\<rparr>"
proof -
  have "clear_pixels (qr\<lparr>mask_no := b\<rparr>) = (clear_pixels qr)\<lparr>mask_no := b\<rparr>" by (simp add: clear_pixels_def)
  then show ?thesis by (simp add: draw_masked_def)
qed

definition mask_penalty :: "qr \<Rightarrow> nat \<Rightarrow> nat" where
  "mask_penalty qr m = calculatePenalty (draw_masked m (setFunctionalPattern qr))"

definition best_upto :: "qr \<Rightarrow> nat \<Rightarrow> nat \<Rightarrow> nat \<Rightarrow> bool" where
  "best_upto qr k b pen \<longleftrightarrow>
     (\<forall>m<k. pen \<le> mask_penalty qr m) \<and> pen \<le> 999999 \<and>
     (pen < 999999 \<longrightarrow> b < k \<and> mask_penalty qr b = pen \<and> (\<forall>m<b. pen < mask_penalty qr m)) \<and>
     (pen = 999999 \<longrightarrow> b = 0)"

lemma try_masks_run:
  "\<exists>p b pen. fold try_mask [0..<k] (setFunctionalPattern qr, 0, 999999) =
     ((setFunctionalPattern qr)\<lparr>pixels := p\<rparr>, b, pen) \<and> best_upto qr k b pen \<and>
     (0 < k \<longrightarrow> p = pixels (draw_masked (k - 1) (setFunctionalPattern qr)))"
proof (induction k)
  case 0
  show ?case by (auto simp: best_upto_def intro!: exI[of _ "pixels (setFunctionalPattern qr)"])
next
  case (Suc k)
  then obtain p b pen where IH: "fold try_mask [0..<k] (setFunctionalPattern qr, 0, 999999) =
     ((setFunctionalPattern qr)\<lparr>pixels := p\<rparr>, b, pen)" "best_upto qr k b pen" by blast
  let ?d = "draw_masked k (setFunctionalPattern qr)"
  have d: "?d = (setFunctionalPattern qr)\<lparr>pixels := pixels ?d\<rparr>" by (rule draw_masked_frame)
  have "fold try_mask [0..<Suc k] (setFunctionalPattern qr, 0, 999999) =
      (if mask_penalty qr k < pen then (?d, k, mask_penalty qr k) else (?d, b, pen))"
    using IH(1) by (simp add: try_mask_def mask_penalty_def Let_def)
  moreover have "mask_penalty qr k < pen \<Longrightarrow> best_upto qr (Suc k) k (mask_penalty qr k)"
    "\<not> mask_penalty qr k < pen \<Longrightarrow> best_upto qr (Suc k) b pen"
    using IH(2) by (auto simp: best_upto_def less_Suc_eq dest: order.strict_trans2)
  ultimately show ?case using d by (cases "mask_penalty qr k < pen") (auto intro!: exI)
qed

text \<open>
  The pixels left behind by the search are those of the last mask tried, so drawing again can
  be skipped exactly when that mask has won.
\<close>

lemma encodeBestMask_result:
  "\<exists>b. b < 8 \<and> encodeBestMask qr = (draw_masked b (setFunctionalPattern qr))\<lparr>mask_no := b\<rparr> \<and>
     (\<forall>m<8. min 999999 (mask_penalty qr b) \<le> mask_penalty qr m) \<and>
     (\<forall>m<b. min 999999 (mask_penalty qr b) < mask_penalty qr m)"
proof -
  obtain p b pen where r: "fold try_mask [0..<8] (setFunctionalPattern qr, 0, 999999) =
     ((setFunctionalPattern qr)\<lparr>pixels := p\<rparr>, b, pen)" "best_upto qr 8 b pen"
     "p = pixels (draw_masked 7 (setFunctionalPattern qr))"
    using try_masks_run[of 8 qr] by auto
  have b: "b < 8" using r(2) unfolding best_upto_def by (cases "pen < 999999") auto
  have "encodeBestMask qr = (draw_masked b (setFunctionalPattern qr))\<lparr>mask_no := b\<rparr>"
  proof (cases "b = 7")
    case True
    have "draw_masked 7 (setFunctionalPattern qr) = (setFunctionalPattern qr)\<lparr>pixels := p\<rparr>"
      using draw_masked_frame[of 7 "setFunctionalPattern qr"] r(3) by simp
    then show ?thesis using True r(1) by (simp add: encodeBestMask_def)
  next
    case False
    have "encodeBestMask qr = draw_masked b ((setFunctionalPattern qr)\<lparr>pixels := p, mask_no := b\<rparr>)"
      using False r(1) by (simp add: encodeBestMask_def)
    also have "(setFunctionalPattern qr)\<lparr>pixels := p, mask_no := b\<rparr> = (setFunctionalPattern qr)\<lparr>mask_no := b, pixels := p\<rparr>"
      by simp
    finally show ?thesis by (simp only: draw_masked_pixels draw_masked_mask)
  qed
  moreover have "\<forall>m<8. min 999999 (mask_penalty qr b) \<le> mask_penalty qr m"
    using r(2) unfolding best_upto_def by (cases "pen < 999999") auto
  moreover have "\<forall>m<b. min 999999 (mask_penalty qr b) < mask_penalty qr m"
    using r(2) unfolding best_upto_def by (cases "pen < 999999") auto
  ultimately show ?thesis using b by blast
qed

section \<open>Reading any image\<close>

lemma read_codewords_general:
  assumes "matrix_ready g" "functional_pattern qr = functional_pattern g" "n_modules qr = n_modules g"
  shows "length (codewords (extractCodewords isDark qr)) = card (free_set (version g)) div 8"
    and "\<forall>w\<in>set (codewords (extractCodewords isDark qr)). w < 256"
proof -
  let ?F = "free_modules qr" and ?u = "\<lambda>(x, y). getUnmasked (mask_no qr) isDark x y"
  define f where "f i = ?u (?F ! i)" for i
  have "fold (read_bit ?u) ?F
      (map (\<lambda>q. partial_byte f q 8) [0..<0 div 8], partial_byte f (0 div 8) (0 mod 8), 2 ^ (7 - 0 mod 8)) =
    (map (\<lambda>q. partial_byte f q 8) [0..<(0 + length ?F) div 8],
     partial_byte f ((0 + length ?F) div 8) ((0 + length ?F) mod 8), 2 ^ (7 - (0 + length ?F) mod 8))"
    by (rule read_bits_run) (simp add: f_def)
  then have c: "codewords (extractCodewords isDark qr) = map (\<lambda>q. partial_byte f q 8) [0..<length ?F div 8]"
    unfolding extractCodewords_free by simp
  have "?F = free_modules g" using assms(2,3) by (simp add: free_modules_def)
  then have "length ?F = card (free_set (version g))"
    using matrix_readyD(2,3)[OF assms(1)] distinct_card by metis
  then show "length (codewords (extractCodewords isDark qr)) = card (free_set (version g)) div 8" using c by simp
  have "partial_byte f q 8 \<le> (\<Sum>i<8. 2 ^ (7 - i))" for q
    unfolding partial_byte_def by (rule sum_mono) simp
  then have "partial_byte f q 8 < 256" for q
    by (rule order_le_less_trans) (simp add: numeral_eq_Suc)
  then show "\<forall>w\<in>set (codewords (extractCodewords isDark qr)). w < 256" using c by auto
qed

section \<open>The encoder runs\<close>

lemma setBlocks_same:
  assumes "version a = version b" "error_correction_level a = error_correction_level b"
  shows "block_indices (setBlocks a) = block_indices (setBlocks b)"
    and "n_block_ec_words (setBlocks a) = n_block_ec_words (setBlocks b)"
    and "n_data_codewords (setBlocks a) = n_data_codewords (setBlocks b)"
  using assms by (simp_all add: setBlocks_def Let_def)

lemma blocks_ok_cong:
  "blocks_ok (qr\<lparr>pixels := p\<rparr>) = blocks_ok qr" "blocks_ok (qr\<lparr>data := d\<rparr>) = blocks_ok qr"
  "blocks_ok (qr\<lparr>bit_idx := i\<rparr>) = blocks_ok qr"
  by (simp_all add: blocks_ok_def)

lemma encodeInit_fields:
  assumes "valid_level ver level"
  shows "version (encodeInit ver level k qr) = ver" "error_correction_level (encodeInit ver level k qr) = level"
    "n_modules (encodeInit ver level k qr) = nModulesFromVersion ver" "bit_idx (encodeInit ver level k qr) = 0"
    "blocks_ok (encodeInit ver level k qr)"
    "data (encodeInit ver level k qr) = replicate (n_data_codewords (encodeInit ver level k qr)) 0"
    "n_data_codewords (encodeInit ver level k qr) = n_codewords ! ver - n_ec_codewords ! ver ! level"
proof -
  let ?q = "setBlocks (qr\<lparr>version := ver, error_correction_level := level, module_size := k,
                  n_modules := nModulesFromVersion ver, bit_idx := 0\<rparr>)"
  have e: "encodeInit ver level k qr = ?q\<lparr>data := replicate (n_data_codewords ?q) 0,
      pixels := replicate (n_modules ?q) []\<rparr>"
    by (simp add: encodeInit_def Let_def)
  have ok: "blocks_ok ?q" by (rule setBlocks_ok) (simp add: assms)
  show "blocks_ok (encodeInit ver level k qr)" unfolding e using ok by (simp add: blocks_ok_cong)
  show "data (encodeInit ver level k qr) = replicate (n_data_codewords (encodeInit ver level k qr)) 0"
    unfolding e by simp
  show "n_data_codewords (encodeInit ver level k qr) = n_codewords ! ver - n_ec_codewords ! ver ! level"
    unfolding e using ok by (simp add: blocks_ok_def frame_simps)
qed (simp_all add: encodeInit_def Let_def frame_simps)

lemma blocks_of_init:
  assumes "version r = ver" "error_correction_level r = level"
  shows "block_indices (setBlocks r) = block_indices (encodeInit ver level k qr)"
    "n_block_ec_words (setBlocks r) = n_block_ec_words (encodeInit ver level k qr)"
proof -
  let ?q = "qr\<lparr>version := ver, error_correction_level := level, module_size := k,
                  n_modules := nModulesFromVersion ver, bit_idx := 0\<rparr>"
  have "block_indices (encodeInit ver level k qr) = block_indices (setBlocks ?q)"
    "n_block_ec_words (encodeInit ver level k qr) = n_block_ec_words (setBlocks ?q)"
    by (simp_all add: encodeInit_def Let_def)
  then show "block_indices (setBlocks r) = block_indices (encodeInit ver level k qr)"
    "n_block_ec_words (setBlocks r) = n_block_ec_words (encodeInit ver level k qr)"
    using setBlocks_same[of r ?q] assms by simp_all
qed

lemma functional_pattern_same:
  "version a = version b \<Longrightarrow> n_modules a = n_modules b \<Longrightarrow>
     functional_pattern (setFunctionalPattern a) = functional_pattern (setFunctionalPattern b)"
  by (simp add: setFunctionalPattern_def Let_def)

lemma setFunctionalPattern_fields [simp]:
  "version (setFunctionalPattern qr) = version qr" "n_modules (setFunctionalPattern qr) = n_modules qr"
  "bytes (setFunctionalPattern qr) = bytes qr" "block_indices (setFunctionalPattern qr) = block_indices qr"
  "n_block_ec_words (setFunctionalPattern qr) = n_block_ec_words qr"
  "mask_no (setFunctionalPattern qr) = mask_no qr"
  "error_correction_level (setFunctionalPattern qr) = error_correction_level qr"
  by (simp_all add: setFunctionalPattern_def Let_def split del: if_split)

definition patterns_drawn :: "nat \<Rightarrow> qr \<Rightarrow> qr" where
  "patterns_drawn m qr = encodeFunctionalPatterns m (clear_pixels (setFunctionalPattern qr))"

lemma patterns_drawn_fields [simp]:
  "version (patterns_drawn m qr) = version qr" "n_modules (patterns_drawn m qr) = n_modules qr"
  "bytes (patterns_drawn m qr) = bytes qr"
  "functional_pattern (patterns_drawn m qr) = functional_pattern (setFunctionalPattern qr)"
  "block_indices (patterns_drawn m qr) = block_indices qr"
  "n_block_ec_words (patterns_drawn m qr) = n_block_ec_words qr"
proof -
  let ?c = "clear_pixels (setFunctionalPattern qr)"
  have "patterns_drawn m qr = ?c\<lparr>pixels := pixels (encodeFunctionalPatterns m ?c)\<rparr>"
    unfolding patterns_drawn_def by (rule encodeFunctionalPatterns_frame)
  then obtain p where p: "patterns_drawn m qr = ?c\<lparr>pixels := p\<rparr>" by blast
  show "version (patterns_drawn m qr) = version qr" "n_modules (patterns_drawn m qr) = n_modules qr"
    "bytes (patterns_drawn m qr) = bytes qr"
    "functional_pattern (patterns_drawn m qr) = functional_pattern (setFunctionalPattern qr)"
    "block_indices (patterns_drawn m qr) = block_indices qr"
    "n_block_ec_words (patterns_drawn m qr) = n_block_ec_words qr"
    unfolding p by (simp_all add: clear_pixels_def)
qed

lemma patterns_ready:
  assumes "1 \<le> version qr" "version qr \<le> 40" "n_modules qr = nModulesFromVersion (version qr)"
  shows "matrix_ready (patterns_drawn m qr)"
proof -
  let ?c = "clear_pixels (setFunctionalPattern qr)"
  have c: "version ?c = version qr" "n_modules ?c = n_modules qr" "pixels ?c = blank (n_modules qr)"
    by (simp_all add: clear_pixels_def)
  have "drawn_in (n_modules ?c) (is_functional (version ?c)) (pixels ?c) (pixels (encodeFunctionalPatterns m ?c))"
    by (rule encodeFunctionalPatterns_inside) (use assms c in simp_all)
  then have "square (n_modules qr) (pixels (patterns_drawn m qr))"
    unfolding patterns_drawn_def drawn_in_def c(2) by blast
  then show ?thesis using assms functional_pattern_same[of "patterns_drawn m qr" qr]
    by (simp add: matrix_ready_def)
qed

lemma draw_masked_patterns: "draw_masked m (setFunctionalPattern qr) = encodeData m (patterns_drawn m qr)"
  by (simp add: draw_masked_def patterns_drawn_def)

text \<open>What the encoder leaves behind: the data words, the code words, and the drawn matrix.\<close>

lemma symbol_run:
  assumes "valid_level ver level" and "valid_text mode str"
    and "getDataCapacity ver level mode = Inr cap" and "length str \<le> cap"
  obtains d i a m where "m < 8"
    and "encodable ((encodeInit ver level d0 new_qr)\<lparr>data := d, bit_idx := i\<rparr>)"
    and "addErrorCorrection ((encodeInit ver level d0 new_qr)\<lparr>data := d, bit_idx := i\<rparr>) =
      Inr ((encodeInit ver level d0 new_qr)\<lparr>data := d, bit_idx := i, bytes := a\<rparr>)"
    and "byte_list a" and "length a = n_codewords ! ver"
    and "bind_ok (addTextImplementation (encodeInit ver level d0 new_qr) mode str) encode_symbol =
      Inr ((encodeData m (patterns_drawn m ((encodeInit ver level d0 new_qr)\<lparr>data := d, bit_idx := i, bytes := a\<rparr>)))\<lparr>mask_no := m\<rparr>)"
    and "\<And>q. version q = ver \<Longrightarrow> bytes q = take (n_data_codewords (encodeInit ver level d0 new_qr)) d \<Longrightarrow>
           \<exists>q'. extractData q = Inr q' \<and> data_text q' = str"
proof -
  let ?start = "encodeInit ver level d0 new_qr"
  note f = encodeInit_fields[OF assms(1), of d0 new_qr]
  have v: "valid_level (version ?start) level" using assms(1) f(1) by simp
  have cp: "getDataCapacity (version ?start) level mode = Inr cap" using assms(3) f(1) by simp
  have nd: "n_data_codewords ?start = n_codewords ! version ?start - n_ec_codewords ! version ?start ! level" using f(1,7) by simp
  obtain q1 q2 d i where t: "addTextImplementation ?start mode str = Inr q1"
    "addTextImplementation q1 MODE_Terminator [] = Inr q2" "appendPadding q2 = ?start\<lparr>data := d, bit_idx := i\<rparr>"
    "n_data_codewords ?start \<le> length d" "\<forall>b\<in>set d. b < 256"
    "\<And>q. version q = version ?start \<Longrightarrow> bytes q = take (n_data_codewords ?start) d \<Longrightarrow>
       \<exists>q'. extractData q = Inr q' \<and> data_text q' = str"
    using padded_text_reads[OF v assms(2) cp assms(4) nd f(6,4)] by metis
  let ?q = "?start\<lparr>data := d, bit_idx := i\<rparr>"
  have enc: "encodable ?q"
    using f(5) t(4,5) by (auto simp: encodable_def blocks_ok_cong dest: in_set_takeD)
  obtain a where a: "addErrorCorrection ?q = Inr (?q\<lparr>bytes := a\<rparr>)" "byte_list a" "length a = n_codewords ! version ?q"
    using addErrorCorrection_ok[OF enc] by blast
  obtain m where m: "m < 8" "encodeBestMask (?q\<lparr>bytes := a\<rparr>) =
      (draw_masked m (setFunctionalPattern (?q\<lparr>bytes := a\<rparr>)))\<lparr>mask_no := m\<rparr>"
    using encodeBestMask_result by metis
  have "bind_ok (addTextImplementation ?start mode str) encode_symbol =
      Inr ((encodeData m (patterns_drawn m (?q\<lparr>bytes := a\<rparr>)))\<lparr>mask_no := m\<rparr>)"
    unfolding encode_symbol_def t(1) bind_ok_simps t(2) t(3) a(1) m(2) draw_masked_patterns by (rule refl)
  note run = this
  have len: "length a = n_codewords ! ver" using a(3) f(1) by simp
  have "\<exists>q'. extractData q = Inr q' \<and> data_text q' = str"
    if "version q = ver" "bytes q = take (n_data_codewords ?start) d" for q using t(6)[of q] that f(1) by simp
  then show thesis by (rule that[OF m(1) enc a(1,2) len run])
qed

text \<open>
  Every module of the matrix is one pixel of the image, four pixels in from its upper left
  corner.
\<close>

lemma paint_row:
  assumes "square N arr" and "4 + i < N" and "\<forall>j\<in>set js. 4 + j < N"
  and "r = fold (\<lambda>j arr. if P i j then pix_setDark N (4 + i) (4 + j) arr else arr) js arr"
  shows "square N r \<and> (\<forall>u v. get_px r u v = (get_px arr u v \<or> (u = 4 + i \<and> (\<exists>j\<in>set js. P i j \<and> v = 4 + j))))"
  using assms(1,3) unfolding assms(4)
proof (induction js arbitrary: arr)
  case (Cons j js)
  let ?arr = "if P i j then pix_setDark N (4 + i) (4 + j) arr else arr"
  have "square N ?arr" using Cons.prems(1) by (simp add: pix_setDark_def square_set_px)
  moreover have "get_px ?arr u v = (get_px arr u v \<or> (u = 4 + i \<and> P i j \<and> v = 4 + j))" for u v
  proof -
    have "get_px (set_px (4 + i) (4 + j) True arr) u v = (if u = 4 + i \<and> v = 4 + j then True else get_px arr u v)"
      by (rule get_set_px) (use Cons.prems assms(2) in auto)
    moreover have "\<not> N - 1 < 4 + i" using assms(2) by linarith
    ultimately show ?thesis unfolding pix_setDark_def by auto
  qed
  ultimately show ?case using Cons.IH[of ?arr] Cons.prems(2) by auto
qed simp

lemma paint_rows:
  assumes "square N arr" and "\<forall>i\<in>set is. 4 + i < N" and "\<forall>j\<in>set js. 4 + j < N"
  and "r = fold (\<lambda>i. fold (\<lambda>j arr. if P i j then pix_setDark N (4 + i) (4 + j) arr else arr) js) is arr"
  shows "square N r \<and> (\<forall>u v. get_px r u v = (get_px arr u v \<or> (\<exists>i\<in>set is. u = 4 + i \<and> (\<exists>j\<in>set js. P i j \<and> v = 4 + j))))"
  using assms(1,2) unfolding assms(4)
proof (induction "is" arbitrary: arr)
  case (Cons i "is")
  let ?arr = "fold (\<lambda>j arr. if P i j then pix_setDark N (4 + i) (4 + j) arr else arr) js arr"
  have row: "square N ?arr \<and> (\<forall>u v. get_px ?arr u v = (get_px arr u v \<or> (u = 4 + i \<and> (\<exists>j\<in>set js. P i j \<and> v = 4 + j))))"
    by (rule paint_row) (use Cons.prems assms(3) in simp_all)
  show ?case using Cons.IH[of ?arr] row Cons.prems(2) by auto
qed simp

lemma pixelsToImage_get:
  assumes "x < n_modules qr" "y < n_modules qr"
  shows "get_px (pixelsToImage qr (blank (n_modules qr + 4 + 4))) (4 + x) (4 + y) = get_px (pixels qr) x y"
proof -
  have "get_px (pixelsToImage qr (blank (n_modules qr + 4 + 4))) (4 + x) (4 + y) =
    (get_px (blank (n_modules qr + 4 + 4)) (4 + x) (4 + y) \<or> (\<exists>i\<in>set [0..<n_modules qr]. 4 + x = 4 + i \<and>
       (\<exists>j\<in>set [0..<n_modules qr]. get_px (pixels qr) i j \<and> 4 + y = 4 + j)))"
    unfolding pixelsToImage_def by (rule paint_rows[THEN conjunct2, rule_format]) auto
  then show ?thesis using assms by auto
qed


lemma decode_symbol:
  assumes "valid_level ver level" and "valid_text mode str"
    and "getDataCapacity ver level mode = Inr cap" and "length str \<le> cap"
  obtains drawn where "bind_ok (addTextImplementation (encodeInit ver level d0 new_qr) mode str) encode_symbol = Inr drawn"
    and "n_modules drawn = nModulesFromVersion ver" and "mask_no drawn < 8"
    and "\<And>isDark r. version r = ver \<Longrightarrow> error_correction_level r = level \<Longrightarrow> n_modules r = n_modules drawn \<Longrightarrow>
       mask_no r = mask_no drawn \<Longrightarrow>
       (\<forall>idx\<in>set (block_indices drawn). 2 * length (filter (\<lambda>p.
          codewords (extractCodewords isDark (setFunctionalPattern r)) ! p \<noteq> bytes drawn ! p) idx) \<le> n_block_ec_words drawn) \<Longrightarrow>
       \<exists>q. decode_inside isDark r = Inr q \<and> data_text q = str"
    and "\<And>isDark r idx. version r = ver \<Longrightarrow> n_modules r = n_modules drawn \<Longrightarrow> mask_no r = mask_no drawn \<Longrightarrow>
       (\<And>x y. x < n_modules drawn \<Longrightarrow> y < n_modules drawn \<Longrightarrow> isDark x y = get_px (pixels drawn) x y) \<Longrightarrow>
       idx \<in> set (block_indices drawn) \<Longrightarrow>
       filter (\<lambda>p. codewords (extractCodewords isDark (setFunctionalPattern r)) ! p \<noteq> bytes drawn ! p) idx = []"
    and "version drawn = ver"
proof -
  let ?start = "encodeInit ver level d0 new_qr"
  obtain d i a m where run: "m < 8" "encodable (?start\<lparr>data := d, bit_idx := i\<rparr>)"
    "addErrorCorrection (?start\<lparr>data := d, bit_idx := i\<rparr>) = Inr (?start\<lparr>data := d, bit_idx := i, bytes := a\<rparr>)"
    "byte_list a" "length a = n_codewords ! ver"
    "bind_ok (addTextImplementation ?start mode str) encode_symbol =
      Inr ((encodeData m (patterns_drawn m (?start\<lparr>data := d, bit_idx := i, bytes := a\<rparr>)))\<lparr>mask_no := m\<rparr>)"
    "\<And>q. version q = ver \<Longrightarrow> bytes q = take (n_data_codewords ?start) d \<Longrightarrow>
           \<exists>q'. extractData q = Inr q' \<and> data_text q' = str"
    using symbol_run[OF assms] by metis
  note f = encodeInit_fields[OF assms(1), of d0 new_qr]
  let ?sent = "?start\<lparr>data := d, bit_idx := i, bytes := a\<rparr>" and ?enc = "?start\<lparr>data := d, bit_idx := i\<rparr>"
  let ?g = "patterns_drawn m ?sent"
  define drawn where "drawn = (encodeData m ?g)\<lparr>mask_no := m\<rparr>"
  have v: "1 \<le> ver" "ver \<le> 40" using assms(1) by (simp_all add: valid_level_def)
  have ready: "matrix_ready ?g" by (rule patterns_ready) (use v f in simp_all)
  have dr: "bytes drawn = a" "n_modules drawn = nModulesFromVersion ver" "mask_no drawn = m"
    "version drawn = ver" "pixels drawn = pixels (encodeData m ?g)"
    using f unfolding drawn_def by (simp_all add: encodeData_def)
  have bl: "block_indices drawn = block_indices ?start" "n_block_ec_words drawn = n_block_ec_words ?start"
    unfolding drawn_def by (simp_all add: encodeData_def)
  have bli: "block_indices ?start = block_indices ?enc" by simp
  have fp: "functional_pattern (setFunctionalPattern r) = functional_pattern ?g"
      "n_modules (setFunctionalPattern r) = n_modules ?g" "mask_no (setFunctionalPattern r) = mask_no r"
    if "version r = ver" "n_modules r = n_modules drawn" for r
    using functional_pattern_same[of r ?sent] that f dr(2)
    by simp_all
  have reads: "\<exists>q. decode_inside isDark r = Inr q \<and> data_text q = str"
    if r: "version r = ver" "error_correction_level r = level" "n_modules r = n_modules drawn"
      and few: "\<forall>idx\<in>set (block_indices drawn). 2 * length (filter (\<lambda>p.
          codewords (extractCodewords isDark (setFunctionalPattern r)) ! p \<noteq> bytes drawn ! p) idx) \<le> n_block_ec_words drawn"
    for isDark r
  proof -
    let ?e = "extractCodewords isDark (setFunctionalPattern r)"
    have e: "version ?e = ver" "error_correction_level ?e = level"
      using r(1,2) by (simp_all add: extractCodewords_def)
    have q: "codewords (setBlocks ?e) = codewords ?e" "block_indices (setBlocks ?e) = block_indices ?enc"
      "n_block_ec_words (setBlocks ?e) = n_block_ec_words ?enc"
      using blocks_of_init[OF e, of d0 new_qr] by (simp_all add: setBlocks_frame)
    note g = read_codewords_general[OF ready fp(1,2)[OF r(1,3)], of isDark]
    have "8 * n_codewords ! ver \<le> card (free_set (version ?g))" using card_free_set[OF v] f(1) by simp
    then have len: "length (bytes ?sent) \<le> length (codewords ?e)" using g(1) run(5) by simp
    have few': "\<forall>idx\<in>set (block_indices ?enc). 2 * length (filter (\<lambda>p. codewords ?e ! p \<noteq> bytes ?sent ! p) idx) \<le> n_block_ec_words ?enc"
      using few bl dr(1) by simp
    obtain errs where "qr_correctErrors (setBlocks ?e) = Inr ((setBlocks ?e)\<lparr>error_counts := errs,
        bytes := take (n_data_codewords ?enc) (data ?enc), error_grade := gradeErrors (n_block_ec_words ?enc) errs\<rparr>)"
      using qr_correctErrors_restores[OF run(2,3) len g(2) few' q] by blast
    then show ?thesis using run(7) e(1) by (simp add: decode_inside_def Let_def setBlocks_frame)
  qed
  have clean: "filter (\<lambda>p. codewords (extractCodewords isDark (setFunctionalPattern r)) ! p \<noteq> bytes drawn ! p) idx = []"
    if r: "version r = ver" "n_modules r = n_modules drawn" "mask_no r = mask_no drawn"
      and same: "\<And>x y. x < n_modules drawn \<Longrightarrow> y < n_modules drawn \<Longrightarrow> isDark x y = get_px (pixels drawn) x y"
      and idx: "idx \<in> set (block_indices drawn)" for isDark r idx
  proof -
    have inside: "isDark x y = get_px (pixels (encodeData m ?g)) x y" if "(x, y) \<in> set (free_modules ?g)" for x y
      using that same[of x y] f(1) unfolding matrix_readyD(3)[OF ready] dr(2,5) by (simp add: free_set_def)
    obtain rest where c: "codewords (extractCodewords isDark (setFunctionalPattern r)) = bytes ?g @ rest"
      using extract_after_encode[OF ready _ _ fp(1,2)[OF r(1,2)] _ inside] run(4,5) f(1) fp(3)[OF r(1,2)] r(3) dr(3)
      by (auto simp: byte_list_def)
    have "p < length a" if "p \<in> set idx" for p
      using blocks_ok_places(2)[OF f(5)] idx that bl(1) f(1) run(5) by auto
    then show ?thesis unfolding c by (auto simp: filter_empty_conv nth_append dr(1))
  qed
  have "bind_ok (addTextImplementation ?start mode str) encode_symbol = Inr drawn"
    using run(6) by (simp add: drawn_def)
  then show thesis using that[OF _ dr(2)] reads clean run(1) dr(3,4) by simp
qed

lemma decode_drawn:
  assumes "valid_level ver level" and "valid_text mode str"
    and "getDataCapacity ver level mode = Inr cap" and "length str \<le> cap"
  obtains drawn arr where "encodeToPixarray mode str ver level = Inr (drawn, arr)"
    and "n_modules drawn = nModulesFromVersion ver" and "mask_no drawn < 8"
    and "arr = pixelsToImage drawn (blank (nModulesFromVersion ver + 4 + 4))"
    and "\<And>isDark r. version r = ver \<Longrightarrow> error_correction_level r = level \<Longrightarrow> n_modules r = n_modules drawn \<Longrightarrow>
       mask_no r = mask_no drawn \<Longrightarrow>
       (\<forall>idx\<in>set (block_indices drawn). 2 * length (filter (\<lambda>p.
          codewords (extractCodewords isDark (setFunctionalPattern r)) ! p \<noteq> bytes drawn ! p) idx) \<le> n_block_ec_words drawn) \<Longrightarrow>
       \<exists>q. decode_inside isDark r = Inr q \<and> data_text q = str"
    and "\<And>isDark r idx. version r = ver \<Longrightarrow> n_modules r = n_modules drawn \<Longrightarrow> mask_no r = mask_no drawn \<Longrightarrow>
       (\<And>x y. x < n_modules drawn \<Longrightarrow> y < n_modules drawn \<Longrightarrow> isDark x y = get_px (pixels drawn) x y) \<Longrightarrow>
       idx \<in> set (block_indices drawn) \<Longrightarrow>
       filter (\<lambda>p. codewords (extractCodewords isDark (setFunctionalPattern r)) ! p \<noteq> bytes drawn ! p) idx = []"
proof (rule decode_symbol[OF assms, of 1], goal_cases)
  case (1 drawn)
  have "encodeToPixarray mode str ver level = Inr (drawn, pixelsToImage drawn (blank (nModulesFromVersion ver + 4 + 4)))"
    using 1(2) by (simp add: encodeToPixarray_def bind_ok_assoc[symmetric])
  then show ?case by (rule 1(1)[OF _ 1(3,4) refl 1(5,6)])
qed

section \<open>Properties\<close>

lemma witness_text:
  "valid_level 1 EC_LEVEL_H" "valid_text MODE_AlphaNumeric (lit ''AC-42'')"
  "getDataCapacity 1 EC_LEVEL_H MODE_AlphaNumeric = Inr 10" "length (lit ''AC-42'') \<le> 10"
proof -
  have "map_of alphanum_rev c \<noteq> None" if "c \<in> set (lit ''AC-42'')" for c
    using that by (auto simp: alphanum_rev_def)
  then show "valid_text MODE_AlphaNumeric (lit ''AC-42'')" by (simp add: valid_text_def)
  show "valid_level 1 EC_LEVEL_H" by (simp add: valid_level_def)
  show "getDataCapacity 1 EC_LEVEL_H MODE_AlphaNumeric = Inr 10"
    by (simp add: getDataCapacity_def nCountBits_def n_codewords_def n_ec_codewords_def)
  show "length (lit ''AC-42'') \<le> 10" by simp
qed

text \<open>
  C10: Every text that the mode can encode and that is not longer than the capacity of version
  and level is encoded to a symbol without an exception. A reader that knows version, level
  and mask decodes exactly this text from any picture of the symbol whose modules give, in
  each block, at most half as many wrong code words as the block has parity words.
\<close>

theorem symbol_survives_damage:
  assumes "valid_level ver level" and "valid_text mode str"
    and "getDataCapacity ver level mode = Inr cap" and "length str \<le> cap"
  shows "\<exists>drawn arr. encodeToPixarray mode str ver level = Inr (drawn, arr) \<and>
    (\<forall>isDark r. version r = ver \<and> error_correction_level r = level \<and>
       n_modules r = n_modules drawn \<and> mask_no r = mask_no drawn \<and>
       (\<forall>idx\<in>set (block_indices drawn). 2 * length (filter (\<lambda>p.
          codewords (extractCodewords isDark (setFunctionalPattern r)) ! p \<noteq> bytes drawn ! p) idx)
            \<le> n_block_ec_words drawn) \<longrightarrow>
       (\<exists>q. decode_inside isDark r = Inr q \<and> data_text q = str))"
proof -
  obtain drawn arr where "encodeToPixarray mode str ver level = Inr (drawn, arr)"
    and "\<And>isDark r. version r = ver \<Longrightarrow> error_correction_level r = level \<Longrightarrow> n_modules r = n_modules drawn \<Longrightarrow>
       mask_no r = mask_no drawn \<Longrightarrow>
       (\<forall>idx\<in>set (block_indices drawn). 2 * length (filter (\<lambda>p.
          codewords (extractCodewords isDark (setFunctionalPattern r)) ! p \<noteq> bytes drawn ! p) idx) \<le> n_block_ec_words drawn) \<Longrightarrow>
       \<exists>q. decode_inside isDark r = Inr q \<and> data_text q = str"
    by (rule decode_drawn[OF assms]) blast
  then show ?thesis by (intro exI[of _ drawn] exI[of _ arr] conjI) blast+
qed

theorem symbol_survives_damage_witness:
  "\<exists>drawn arr. encodeToPixarray MODE_AlphaNumeric (lit ''AC-42'') 1 EC_LEVEL_H = Inr (drawn, arr)"
  using symbol_survives_damage[OF witness_text] by blast

text \<open>
  C11: The pixel array of \<open>encodeToPixarray\<close> is a picture of the symbol: reading module
  (\<open>x\<close>, \<open>y\<close>) at pixel (\<open>4 + x\<close>, \<open>4 + y\<close>), a decoder that knows version, level and mask returns
  the text that was encoded.
\<close>

theorem pixarray_roundtrip:
  assumes "valid_level ver level" and "valid_text mode str"
    and "getDataCapacity ver level mode = Inr cap" and "length str \<le> cap"
  shows "\<exists>drawn arr. encodeToPixarray mode str ver level = Inr (drawn, arr) \<and>
    (\<forall>r. version r = ver \<and> error_correction_level r = level \<and>
       n_modules r = nModulesFromVersion ver \<and> mask_no r = mask_no drawn \<longrightarrow>
       (\<exists>q. decode_inside (\<lambda>x y. get_px arr (4 + x) (4 + y)) r = Inr q \<and> data_text q = str))"
proof (rule decode_drawn[OF assms], goal_cases)
  case (1 drawn arr)
  note e = 1(1,2) and arr = 1(4) and damage = 1(5) and clean = 1(6)
  let ?dark = "\<lambda>x y. get_px arr (4 + x) (4 + y)"
  have px: "?dark x y = get_px (pixels drawn) x y" if "x < n_modules drawn" "y < n_modules drawn" for x y
    using pixelsToImage_get[OF that] e(2) arr by simp
  have "\<exists>q. decode_inside ?dark r = Inr q \<and> data_text q = str"
    if r: "version r = ver" "error_correction_level r = level" "n_modules r = nModulesFromVersion ver"
      "mask_no r = mask_no drawn" for r
  proof (rule damage[OF r(1,2) _ r(4)])
    show n: "n_modules r = n_modules drawn" using r(3) e(2) by simp
    show "\<forall>idx\<in>set (block_indices drawn). 2 * length (filter (\<lambda>p.
        codewords (extractCodewords ?dark (setFunctionalPattern r)) ! p \<noteq> bytes drawn ! p) idx) \<le> n_block_ec_words drawn"
      using clean[OF r(1) n r(4) px] by simp
  qed
  then show ?thesis using e(1) by blast
qed

theorem pixarray_roundtrip_witness:
  "\<exists>drawn arr q. encodeToPixarray MODE_AlphaNumeric (lit ''AC-42'') 1 EC_LEVEL_H = Inr (drawn, arr) \<and>
     decode_inside (\<lambda>x y. get_px arr (4 + x) (4 + y))
       (new_qr\<lparr>version := 1, error_correction_level := EC_LEVEL_H, n_modules := 21, mask_no := mask_no drawn\<rparr>) = Inr q \<and>
     data_text q = lit ''AC-42''"
proof -
  obtain drawn arr where e: "encodeToPixarray MODE_AlphaNumeric (lit ''AC-42'') 1 EC_LEVEL_H = Inr (drawn, arr)"
    "\<forall>r. version r = 1 \<and> error_correction_level r = EC_LEVEL_H \<and>
       n_modules r = nModulesFromVersion 1 \<and> mask_no r = mask_no drawn \<longrightarrow>
       (\<exists>q. decode_inside (\<lambda>x y. get_px arr (4 + x) (4 + y)) r = Inr q \<and> data_text q = lit ''AC-42'')"
    using pixarray_roundtrip[OF witness_text] by blast
  let ?r = "new_qr\<lparr>version := 1, error_correction_level := EC_LEVEL_H, n_modules := 21, mask_no := mask_no drawn\<rparr>"
  have "version ?r = 1 \<and> error_correction_level ?r = EC_LEVEL_H \<and> n_modules ?r = nModulesFromVersion 1 \<and> mask_no ?r = mask_no drawn"
    by (simp add: nModulesFromVersion_def)
  then show ?thesis using e by blast
qed

text \<open>
  C13: The code words are drawn only on modules outside the functional pattern and the fixed
  patterns only on modules inside it, so neither overwrites the other, for every mask.
\<close>

theorem data_and_patterns_disjoint:
  assumes "1 \<le> version qr" and "version qr \<le> 40" and "n_modules qr = nModulesFromVersion (version qr)"
    and f_def: "f = setFunctionalPattern qr"
    and patterns_def: "patterns = pixels (encodeFunctionalPatterns m (clear_pixels f))"
  shows "if get_px (functional_pattern f) x y
         then get_px (pixels (draw_masked m f)) x y = get_px patterns x y
         else \<not> get_px patterns x y"
proof -
  let ?c = "clear_pixels f"
  have ready: "matrix_ready (patterns_drawn m qr)" by (rule patterns_ready[OF assms(1-3)])
  have fp: "get_px (functional_pattern f) x y = is_functional (version qr) x y"
    using matrix_readyD(1)[OF ready, of x y] by (simp add: f_def)
  have "drawn_in (n_modules ?c) (is_functional (version ?c)) (pixels ?c) (pixels (encodeFunctionalPatterns m ?c))"
    by (rule encodeFunctionalPatterns_inside) (use assms(1-3) in \<open>simp_all add: clear_pixels_def f_def\<close>)
  then have "get_px patterns x y \<longrightarrow> is_functional (version qr) x y"
    by (auto simp: drawn_in_def patterns_def clear_pixels_def f_def)
  moreover have "is_functional (version qr) x y \<Longrightarrow> get_px (pixels (draw_masked m f)) x y = get_px patterns x y"
    using encodeData_pixels(2)[OF ready, of x y m]
    by (simp add: draw_masked_patterns f_def patterns_def) (simp add: patterns_drawn_def)
  ultimately show ?thesis using fp by (cases "is_functional (version qr) x y") auto
qed

theorem data_and_patterns_disjoint_witness:
  "get_px (pixels (draw_masked 2 (setFunctionalPattern (new_qr\<lparr>version := 1, n_modules := 21\<rparr>)))) 3 3 =
   get_px (pixels (encodeFunctionalPatterns 2 (clear_pixels (setFunctionalPattern (new_qr\<lparr>version := 1, n_modules := 21\<rparr>))))) 3 3"
proof -
  let ?qr = "new_qr\<lparr>version := 1, n_modules := 21\<rparr>"
  have h: "1 \<le> version ?qr" "version ?qr \<le> 40" "n_modules ?qr = nModulesFromVersion (version ?qr)"
    by (simp_all add: nModulesFromVersion_def)
  have "matrix_ready (patterns_drawn 2 ?qr)" by (rule patterns_ready[OF h])
  then have "get_px (functional_pattern (setFunctionalPattern ?qr)) 3 3"
    using matrix_readyD(1)[of "patterns_drawn 2 ?qr" 3 3] fixed_functional(1)[OF refl, of 3 3 1] by simp
  then show ?thesis using data_and_patterns_disjoint[OF h refl refl, of 3 3 2] by simp
qed

text \<open>
  C14: \<open>encodeBestMask\<close> leaves the symbol drawn under the first of the eight masks with the least
  penalty (a penalty of 999999 or more counts as no mask found, then mask 0 is drawn), and
  records this mask.
\<close>

theorem encodeBestMask_minimal:
  "\<exists>m<8. encodeBestMask qr = (draw_masked m (setFunctionalPattern qr))\<lparr>mask_no := m\<rparr> \<and>
     (\<forall>k<8. min 999999 (calculatePenalty (draw_masked m (setFunctionalPattern qr)))
              \<le> calculatePenalty (draw_masked k (setFunctionalPattern qr))) \<and>
     (\<forall>k<m. min 999999 (calculatePenalty (draw_masked m (setFunctionalPattern qr)))
              < calculatePenalty (draw_masked k (setFunctionalPattern qr)))"
  using encodeBestMask_result[of qr] unfolding mask_penalty_def by blast

theorem encodeBestMask_minimal_witness: "mask_no (encodeBestMask (new_qr\<lparr>version := 1, n_modules := 21\<rparr>)) < 8"
  using encodeBestMask_minimal[of "new_qr\<lparr>version := 1, n_modules := 21\<rparr>"] by (auto simp del: new_qr_def)

end
