(* ===== verification/QrDetect.thy ===== *)
theory QrDetect
  imports Complex_Main QrSymbol
begin

text \<open>
  Finding a symbol in an image (qrcodedecode.js): the gray values and the threshold of
  \<open>setImageData\<close>, the borders of \<open>findImageBorders\<close>, and \<open>findModuleSize\<close>, which tries the
  versions one after the other, matches the fixed patterns and reads version and format
  information. Both are protected by codes of which up to three bits may be misread; the
  theorems show that within this distance the right version and format are found.

  The floating point numbers of the source are rational numbers here, so a comparison that is
  decided in the last place can come out differently.
\<close>

section \<open>Images\<close>

text \<open>
  An image answers whether the square of side \<open>d\<close> at (\<open>x\<close>, \<open>y\<close>) is dark. A pixel array ignores
  the side; for the data of a canvas see \<open>setImageData\<close> below.
\<close>

record qr_image =
  img_width :: nat
  img_height :: nat
  img_dark :: "int \<Rightarrow> int \<Rightarrow> int \<Rightarrow> bool"

record borders =
  image_left :: int
  image_right :: int
  image_top :: int
  image_bottom :: int

definition image_size :: "borders \<Rightarrow> rat" where
  "image_size b = of_int ((image_right b - image_left b + 1) + (image_bottom b - image_top b + 1)) / 2"

definition js_round :: "rat \<Rightarrow> int" where
  "js_round r = \<lfloor>r + 1 / 2\<rfloor>"

definition pixarray_image :: "nat \<Rightarrow> bool list list \<Rightarrow> qr_image" where
  "pixarray_image n arr = \<lparr>img_width = n, img_height = n,
     img_dark = (\<lambda>x y d. 0 \<le> x \<and> 0 \<le> y \<and> get_px arr (nat x) (nat y))\<rparr>"

text \<open>
  The data of a canvas is an array of four channels per pixel, row by row. Reading outside of it
  gives \<open>NaN\<close>, written \<^const>\<open>None\<close>, which no comparison accepts.
\<close>

definition channel :: "nat list \<Rightarrow> int \<Rightarrow> rat option" where
  "channel rgba p = (if 0 \<le> p \<and> nat p < length rgba then Some (of_nat (rgba ! nat p)) else None)"

definition gray_at :: "nat list \<Rightarrow> int \<Rightarrow> rat option" where
  "gray_at rgba p =
     (case (channel rgba p, channel rgba (p + 1), channel rgba (p + 2)) of
        (Some r, Some g, Some b) \<Rightarrow> Some (30 / 100 * r + 59 / 100 * g + 11 / 100 * b)
      | _ \<Rightarrow> None)"

definition add_gray :: "rat option \<Rightarrow> rat option \<Rightarrow> rat option" where
  "add_gray a b = (case (a, b) of (Some x, Some y) \<Rightarrow> Some (x + y) | _ \<Rightarrow> None)"

definition getGray :: "nat list \<Rightarrow> nat \<Rightarrow> int \<Rightarrow> int \<Rightarrow> int \<Rightarrow> rat option" where
  "getGray rgba w x y d =
     (case fold (\<lambda>i. fold (\<lambda>j n. add_gray n (gray_at rgba (i * 4 + j * int w * 4))) [y..y + d - 1])
             [x..x + d - 1] (Some 0) of
        None \<Rightarrow> None
      | Some n \<Rightarrow> if d = 0 then None else Some (n / of_int d / of_int d))"

text \<open>Smallest value, largest value and sum over all pixels, column by column.\<close>

definition gray_step :: "rat option \<Rightarrow> rat \<times> rat \<times> rat option \<Rightarrow> rat \<times> rat \<times> rat option" where
  "gray_step v s =
     (case s of (lo, hi, tot) \<Rightarrow>
        (case v of
           None \<Rightarrow> (lo, hi, None)
         | Some g \<Rightarrow> (if g < lo then g else lo, if hi < g then g else hi, add_gray tot v)))"

definition gray_range :: "nat list \<Rightarrow> nat \<Rightarrow> nat \<Rightarrow> rat \<times> rat \<times> rat option" where
  "gray_range rgba w h =
     fold (\<lambda>x. fold (\<lambda>y. gray_step (gray_at rgba (int (x * 4 + y * w * 4)))) [0..<h]) [0..<w] (255, 0, Some 0)"

definition setImageData :: "nat list \<Rightarrow> nat \<Rightarrow> nat \<Rightarrow> qr_error + qr_image" where
  "setImageData rgba w h =
     (case gray_range rgba w h of (lo, hi, tot) \<Rightarrow>
        if hi - lo < 255 / 10 then Inl Low_Contrast
        else Inr \<lparr>img_width = w, img_height = h, img_dark = (\<lambda>x y d.
               case (getGray rgba w x y d, tot) of
                 (Some g, Some t) \<Rightarrow> g < t / of_nat (w * h)
               | _ \<Rightarrow> False)\<rparr>)"

section \<open>Borders\<close>

text \<open>
  The first column from the left, or from the right, with at least seven dark pixels; the loops
  end past the last column, at the width or at -1, when there is none.
\<close>

definition find_up :: "nat \<Rightarrow> (nat \<Rightarrow> bool) \<Rightarrow> int" where
  "find_up n P = (case List.find P [0..<n] of Some i \<Rightarrow> int i | None \<Rightarrow> int n)"

definition find_down :: "nat \<Rightarrow> (nat \<Rightarrow> bool) \<Rightarrow> int" where
  "find_down n P = (case List.find P (rev [0..<n]) of Some i \<Rightarrow> int i | None \<Rightarrow> - 1)"

definition column_dark :: "qr_image \<Rightarrow> nat \<Rightarrow> bool" where
  "column_dark img i \<longleftrightarrow> 7 \<le> length (filter (\<lambda>j. img_dark img (int i) (int j) 1) [0..<img_height img])"

definition row_dark :: "qr_image \<Rightarrow> nat \<Rightarrow> bool" where
  "row_dark img j \<longleftrightarrow> 7 \<le> length (filter (\<lambda>i. img_dark img (int i) (int j) 1) [0..<img_width img])"

definition findImageBorders :: "qr_image \<Rightarrow> qr_error + borders" where
  "findImageBorders img =
     (let l = find_up (img_width img) (column_dark img);
          r = find_down (img_width img) (column_dark img);
          t = find_up (img_height img) (row_dark img);
          b = find_down (img_height img) (row_dark img)
      in if r - l + 1 < 21 \<or> b - t + 1 < 21 then Inl No_Image_Data
         else if 2 < \<bar>(r - l) - (b - t)\<bar> then Inl Not_Rectangular
         else Inr \<lparr>image_left = l, image_right = r, image_top = t, image_bottom = b\<rparr>)"

definition isDarkWithSize :: "qr_image \<Rightarrow> borders \<Rightarrow> rat \<Rightarrow> int \<Rightarrow> int \<Rightarrow> bool" where
  "isDarkWithSize img b ms x y =
     img_dark img (js_round (of_int (image_left b) + of_int x * ms))
       (js_round (of_int (image_top b) + of_int y * ms)) (js_round ms)"

section \<open>Matching the fixed patterns\<close>

text \<open>
  A matcher asks \<open>dark x y\<close> for the darkness of a module under the module size it tries.
  \<open>hits\<close> counts the modules of a list that are dark, \<open>misses\<close> those that are light.
\<close>

definition hits :: "(int \<Rightarrow> int \<Rightarrow> bool) \<Rightarrow> (int \<times> int) list \<Rightarrow> nat" where
  "hits dark xys = length (filter (\<lambda>(x, y). dark x y) xys)"

definition misses :: "(int \<Rightarrow> int \<Rightarrow> bool) \<Rightarrow> (int \<times> int) list \<Rightarrow> nat" where
  "misses dark xys = length (filter (\<lambda>(x, y). \<not> dark x y) xys)"

definition ring :: "int \<Rightarrow> int \<Rightarrow> int \<Rightarrow> (int \<times> int) list" where
  "ring x y k = concat (map (\<lambda>i. [(x + i, y), (x + k, y + i), (x + k - i, y + k), (x, y + k - i)]) [0..k - 1])"

definition matchFinderPattern :: "(int \<Rightarrow> int \<Rightarrow> bool) \<Rightarrow> int \<Rightarrow> int \<Rightarrow> int \<Rightarrow> int \<Rightarrow> nat" where
  "matchFinderPattern dark x y quiet_x quiet_y =
     hits dark (ring x y 6) + misses dark (ring (x + 1) (y + 1) 4) +
     hits dark (replicate 9 (3 + x, 3 + y)) +
     misses dark (concat (map (\<lambda>i. [(x + quiet_x, y + i), (x + i, y + quiet_y)]) [0..6])) +
     misses dark [(x + quiet_x, y + quiet_y)]"

text \<open>
  The timing pattern alternates. \<open>ok\<close> records for each module whether it was right; the source
  looks at the last five entries but the newest, and gives up when fewer than three are right.
\<close>

fun match_timing :: "(int \<Rightarrow> bool) \<Rightarrow> bool \<Rightarrow> int list \<Rightarrow> bool list \<Rightarrow> nat \<Rightarrow> nat" where
  "match_timing dark black [] ok n = n"
| "match_timing dark black (i # is) ok n =
     (let hit = (black = dark i);
          ok = ok @ [hit];
          last5 = length (filter id (butlast (drop (length ok - 5) ok)))
      in if last5 < 3 then 0
         else match_timing dark (\<not> black) is ok (if hit then n + 1 else n))"

definition matchTimingPattern :: "(int \<Rightarrow> int \<Rightarrow> bool) \<Rightarrow> bool \<Rightarrow> int \<Rightarrow> nat" where
  "matchTimingPattern dark horizontal n =
     match_timing (\<lambda>i. if horizontal then dark (8 + i) 6 else dark 6 (8 + i)) True
       [0..n - 8 - 8 - 1] (replicate 5 True) 0"

definition matchOneAlignmentPattern :: "(int \<Rightarrow> int \<Rightarrow> bool) \<Rightarrow> int \<Rightarrow> int \<Rightarrow> nat" where
  "matchOneAlignmentPattern dark x y =
     hits dark (ring x y 4) + misses dark (ring (x + 1) (y + 1) 2) + hits dark [(x + 2, y + 2)]"

definition matchAlignmentPatterns :: "(int \<Rightarrow> int \<Rightarrow> bool) \<Rightarrow> nat \<Rightarrow> nat" where
  "matchAlignmentPatterns dark ver =
     length (filter (\<lambda>(x, y). 24 < matchOneAlignmentPattern dark (int x) (int y)) (alignment_places ver))"

section \<open>Version and format codes\<close>

text \<open>\<open>nBits\<close> clears the lowest set bit until none is left.\<close>

function nBits :: "nat \<Rightarrow> nat" where
  "nBits n = (if n = 0 then 0 else Suc (nBits (n AND (n - 1))))"
  by pat_completeness auto
termination
proof (relation "measure id")
  fix n :: nat
  assume "n \<noteq> 0"
  have "int (n AND (n - 1)) = int n AND int (n - 1)" by (rule of_nat_and_eq)
  also have "\<dots> \<le> int (n - 1)" by (rule AND_upper2) simp
  finally have "n AND (n - 1) \<le> n - 1" by simp
  with \<open>n \<noteq> 0\<close> show "(n AND (n - 1), n) \<in> measure id" by simp
qed simp

declare nBits.simps [simp del]

definition hammingDistance :: "nat \<Rightarrow> nat \<Rightarrow> nat" where
  "hammingDistance a b = nBits (a XOR b)"

fun first_near :: "nat list \<Rightarrow> nat \<Rightarrow> nat list \<Rightarrow> nat \<times> nat" where
  "first_near table pattern [] = (0, 4)"
| "first_near table pattern (v # vs) =
     (let hd = hammingDistance pattern (table ! v)
      in if hd \<le> 3 then (v, hd) else first_near table pattern vs)"

definition matchVersionCode :: "nat \<Rightarrow> nat \<times> nat" where
  "matchVersionCode pattern = first_near version_info pattern [7..<41]"

definition matchFormatCode :: "nat \<Rightarrow> nat \<times> nat" where
  "matchFormatCode pattern = first_near format_info pattern [0..<32]"

text \<open>The bits of a pattern, lowest first, in the order of the modules.\<close>

definition read_pattern :: "(int \<Rightarrow> int \<Rightarrow> bool) \<Rightarrow> (nat \<times> nat) list \<Rightarrow> nat" where
  "read_pattern dark xys =
     snd (fold (\<lambda>(x, y) (factor, pattern).
       (factor * 2, if dark (int x) (int y) then pattern + factor else pattern)) xys (1, 0))"

definition matchVersionTopright :: "(int \<Rightarrow> int \<Rightarrow> bool) \<Rightarrow> nat \<Rightarrow> nat \<times> nat" where
  "matchVersionTopright dark n = matchVersionCode (read_pattern dark (version_topright n))"

definition matchVersionBottomleft :: "(int \<Rightarrow> int \<Rightarrow> bool) \<Rightarrow> nat \<Rightarrow> nat \<times> nat" where
  "matchVersionBottomleft dark n = matchVersionCode (read_pattern dark (version_bottomleft n))"

definition matchFormatNW :: "(int \<Rightarrow> int \<Rightarrow> bool) \<Rightarrow> nat \<times> nat" where
  "matchFormatNW dark = matchFormatCode (read_pattern dark format_nw)"

definition matchFormatNESW :: "(int \<Rightarrow> int \<Rightarrow> bool) \<Rightarrow> nat \<Rightarrow> nat \<times> nat" where
  "matchFormatNESW dark n = matchFormatCode (read_pattern dark (format_nesw n))"

section \<open>Grades\<close>

definition grade_finder_patterns :: "nat list \<Rightarrow> int" where
  "grade_finder_patterns fp = max 0 (fold (\<lambda>p g. g - (64 - int p)) fp 4)"

definition grade_timing_patterns :: "nat \<Rightarrow> nat \<Rightarrow> int \<Rightarrow> int" where
  "grade_timing_patterns t0 t1 n =
     (let t = 1 - rat_of_nat (t0 + t1) / of_int (2 * n)
      in if t \<ge> 14 / 100 then 0 else if t \<ge> 11 / 100 then 1 else if t \<ge> 7 / 100 then 2
         else if t \<ge> 1 / 100000 then 3 else 4)"

definition grade_alignment_patterns :: "int \<Rightarrow> int \<Rightarrow> int" where
  "grade_alignment_patterns a n =
     (let a = 1 - rat_of_int a / of_int n
      in if a \<ge> 30 / 100 then 0 else if a \<ge> 20 / 100 then 1 else if a \<ge> 10 / 100 then 2
         else if a \<ge> 1 / 100000 then 3 else 4)"

definition grade_distances :: "nat \<times> nat \<Rightarrow> nat \<times> nat \<Rightarrow> int" where
  "grade_distances a b = js_round (of_int ((4 - int (snd a)) + (4 - int (snd b))) / 2)"

section \<open>Finding the module size\<close>

text \<open>
  The result of \<open>matchVersion\<close>: the version, its grade and, when everything was matched, the level
  and the mask.
\<close>

type_synonym version_match = "nat \<times> int \<times> (nat \<times> nat) option"

text \<open>The version that the nearer of the two version codes names, and the grade of the codes.\<close>

definition revise_version :: "nat \<Rightarrow> nat \<times> nat \<Rightarrow> nat \<times> nat \<Rightarrow> nat" where
  "revise_version ver tr bl =
     (if snd tr < snd bl then (if snd tr < 4 then fst tr else ver)
      else (if snd bl < 4 then fst bl else ver))"

definition match_details :: "(rat \<Rightarrow> int \<Rightarrow> int \<Rightarrow> bool) \<Rightarrow> rat \<Rightarrow> nat \<Rightarrow> int list \<Rightarrow> version_match" where
  "match_details dark sz ver grades =
     (let n = nModulesFromVersion ver; ms = sz / of_nat n;
          t0 = matchTimingPattern (dark ms) True (int n);
          t1 = matchTimingPattern (dark ms) False (int n);
          gt = grade_timing_patterns t0 t1 (int n - 8 - 8)
      in if gt < 1 then (ver, 0, None) else
     (let a = (if 1 < ver then int (matchAlignmentPatterns (dark ms) ver) else - 3);
          k = int (length (alignment_patterns ! ver));
          ga = grade_alignment_patterns a (k * k - 3)
      in if ga < 1 then (ver, 0, None) else
     (let nw = matchFormatNW (dark ms); nesw = matchFormatNESW (dark ms) n;
          fmt = (if snd nw < snd nesw then fst nw else fst nesw);
          gf = grade_distances nw nesw
      in if gf < 1 then (ver, 0, None)
         else (ver, fold min (grades @ [gt, ga, gf]) 4, Some (fmt div 8, fmt mod 8)))))"

definition matchVersion :: "(rat \<Rightarrow> int \<Rightarrow> int \<Rightarrow> bool) \<Rightarrow> rat \<Rightarrow> nat \<Rightarrow> version_match" where
  "matchVersion dark sz ver =
     (let n = nModulesFromVersion ver; ms = sz / of_nat n;
          f0 = matchFinderPattern (dark ms) 0 0 7 7
      in if f0 < 64 - 3 then (ver, 0, None) else
     (let f1 = matchFinderPattern (dark ms) 0 (int n - 7) 7 (- 1)
      in if f0 + f1 < 64 + 64 - 3 then (ver, 0, None) else
     (let f2 = matchFinderPattern (dark ms) (int n - 7) 0 (- 1) 7;
          g = grade_finder_patterns [f0, f1, f2]
      in if g < 1 then (ver, 0, None)
         else if 7 \<le> ver then
           (let tr = matchVersionTopright (dark ms) n;
                bl = matchVersionBottomleft (dark ms) n;
                ver = revise_version ver tr bl;
                gv = grade_distances tr bl
            in if gv < 1 then (ver, 0, None) else match_details dark sz ver [g, gv])
         else match_details dark sz ver [g])))"

fun best_match :: "(nat \<Rightarrow> version_match) \<Rightarrow> nat list \<Rightarrow> version_match \<Rightarrow> version_match" where
  "best_match f [] best = best"
| "best_match f (v # vs) best =
     (let m = f v; best = (if fst (snd m) > fst (snd best) then m else best)
      in if fst (snd m) = 4 then best else best_match f vs best)"

definition findModuleSize :: "qr_image \<Rightarrow> borders \<Rightarrow> nat \<Rightarrow> qr \<Rightarrow> qr_error + qr \<times> rat" where
  "findModuleSize img b max_version qr =
     (case best_match (matchVersion (isDarkWithSize img b) (image_size b)) [1..<max_version + 1] (0, 0, None) of
        (ver, g, Some (level, m)) \<Rightarrow>
          if g < 1 then Inl No_Function_Pattern
          else Inr (qr\<lparr>version := ver, n_modules := nModulesFromVersion ver,
                       error_correction_level := level, mask_no := m\<rparr>,
                    image_size b / of_nat (nModulesFromVersion ver))
      | (ver, g, None) \<Rightarrow> Inl No_Function_Pattern)"

definition decodeInsideBordersWithMaxVersion :: "qr_image \<Rightarrow> borders \<Rightarrow> nat \<Rightarrow> qr \<Rightarrow> qr_error + qr" where
  "decodeInsideBordersWithMaxVersion img b max_version qr =
     bind_ok (findModuleSize img b max_version qr) (\<lambda>(qr, ms).
       decode_inside (\<lambda>x y. isDarkWithSize img b ms (int x) (int y)) qr)"

definition decode_image :: "qr_image \<Rightarrow> qr \<Rightarrow> qr_error + js_string" where
  "decode_image img qr =
     bind_ok (findImageBorders img) (\<lambda>b.
       bind_ok (decodeInsideBordersWithMaxVersion img b 40 qr) (\<lambda>qr. Inr (data_text qr)))"

definition decodeImageData :: "nat list \<Rightarrow> nat \<Rightarrow> nat \<Rightarrow> qr \<Rightarrow> qr_error + js_string" where
  "decodeImageData rgba w h qr = bind_ok (setImageData rgba w h) (\<lambda>img. decode_image img qr)"

section \<open>The Hamming distance\<close>

lemma nBits_0 [simp]: "nBits 0 = 0"
  by (simp add: nBits.simps)

lemma nBits_odd: "nBits (Suc (2 * m)) = Suc (nBits (2 * m))"
proof -
  have "Suc (2 * m) AND (2 * m) = 2 * m" by (rule bit_eqI) (auto simp: bit_simps bit_Suc bit_0 gr0_conv_Suc elim: oddE)
  then show ?thesis by (subst nBits.simps) simp
qed

lemma nBits_even: "nBits (2 * m) = nBits m"
proof (induction m rule: nBits.induct)
  case (1 n)
  show ?case
  proof (cases "n = 0")
    case False
    then have "2 * n - 1 = Suc (2 * (n - 1))" by simp
    moreover have "2 * n AND Suc (2 * (n - 1)) = 2 * (n AND (n - 1))"
      by (subst and_nat_rec) simp
    ultimately show ?thesis using 1 False by (subst (1 2) nBits.simps) simp
  qed simp
qed

lemma nBits_rec: "nBits n = nBits (n div 2) + of_bool (odd n)"
proof (cases "even n")
  case True
  then show ?thesis using nBits_even[of "n div 2"] by simp
next
  case False
  then have "n = Suc (2 * (n div 2))" by presburger
  then show ?thesis using nBits_odd[of "n div 2"] nBits_even[of "n div 2"] False by simp
qed

lemma nBits_numeral [simp]:
  "nBits (numeral (num.Bit0 m)) = nBits (numeral m)"
  "nBits (numeral (num.Bit1 m)) = Suc (nBits (numeral m))"
  "nBits 1 = 1" "nBits (Suc 0) = 1"
  by (simp_all add: nBits_rec[of "numeral (num.Bit0 m)"] nBits_rec[of "numeral (num.Bit1 m)"] nBits_rec[of "Suc 0"])

lemma hammingDistance_triangle: "hammingDistance a b \<le> hammingDistance a c + hammingDistance c b"
  unfolding hammingDistance_def
proof (induction "a + b + c" arbitrary: a b c rule: less_induct)
  case less
  show ?case
  proof (cases "a + b + c = 0")
    case False
    have d: "(x XOR y) div 2 = (x div 2) XOR (y div 2)" "odd (x XOR y) \<longleftrightarrow> odd x \<noteq> odd y" for x y :: nat
      by (simp_all add: xor_nat_rec[of x y] even_xor_iff)
    have "a div 2 + b div 2 + c div 2 < a + b + c" using False by linarith
    from less[OF this] show ?thesis
      unfolding nBits_rec[of "a XOR b"] nBits_rec[of "a XOR c"] nBits_rec[of "c XOR b"] d by auto
  qed simp
qed

lemma hammingDistance_sym: "hammingDistance a b = hammingDistance b a"
  by (simp add: hammingDistance_def xor.commute)

text \<open>Any two codes of either table differ in at least seven bits.\<close>

definition far_apart :: "nat list \<Rightarrow> nat list \<Rightarrow> bool" where
  "far_apart table vs \<longleftrightarrow> (\<forall>v\<in>set vs. \<forall>w\<in>set vs. v \<noteq> w \<longrightarrow> 7 \<le> hammingDistance (table ! v) (table ! w))"

fun apart_list :: "nat list \<Rightarrow> bool" where
  "apart_list [] = True"
| "apart_list (c # cs) = (list_all (\<lambda>d. 7 \<le> hammingDistance c d) cs \<and> apart_list cs)"

lemma apart_list_far: "apart_list (map ((!) table) vs) \<Longrightarrow> far_apart table vs"
proof (induction vs)
  case (Cons v vs)
  then show ?case unfolding far_apart_def by (auto simp: list_all_iff hammingDistance_sym)
qed (simp add: far_apart_def)

lemma version_codes_apart: "far_apart version_info [7..<41]"
proof (rule apart_list_far)
  show "apart_list (map ((!) version_info) [7..<41])"
    by (simp add: version_info_def upt_conv_Cons hammingDistance_def)
qed

lemma format_codes_apart: "far_apart format_info [0..<32]"
proof (rule apart_list_far)
  show "apart_list (map ((!) format_info) [0..<32])"
    by (simp add: format_info_def upt_conv_Cons hammingDistance_def)
qed

lemma first_near_unique:
  assumes "far_apart table vs" "v \<in> set vs" "hammingDistance pattern (table ! v) \<le> 3"
  shows "first_near table pattern vs = (v, hammingDistance pattern (table ! v))"
  using assms
proof (induction vs)
  case (Cons w vs)
  show ?case
  proof (cases "w = v")
    case False
    from False have "7 \<le> hammingDistance (table ! w) (table ! v)" using Cons.prems(1,2) by (simp add: far_apart_def)
    moreover have "hammingDistance (table ! w) (table ! v) \<le>
        hammingDistance pattern (table ! w) + hammingDistance pattern (table ! v)"
      using hammingDistance_triangle[of "table ! w" "table ! v" pattern] hammingDistance_sym[of "table ! w" pattern] by simp
    ultimately have "3 < hammingDistance pattern (table ! w)" using Cons.prems(3) by linarith
    moreover have "far_apart table vs" using Cons.prems(1) by (simp add: far_apart_def)
    ultimately show ?thesis using Cons False by simp
  qed (use Cons.prems(3) in simp)
qed simp

section \<open>Properties\<close>

text \<open>
  C15: A version code or a format code of which at most three bits were misread is recognised:
  the matchers return the version, or level and mask, that was drawn, and the number of wrong
  bits.
\<close>

theorem misread_codes_recognised:
  "(7 \<le> ver \<and> ver \<le> 40 \<and> hammingDistance pattern (version_info ! ver) \<le> 3 \<longrightarrow>
      matchVersionCode pattern = (ver, hammingDistance pattern (version_info ! ver))) \<and>
   (fmt < 32 \<and> hammingDistance pattern (format_info ! fmt) \<le> 3 \<longrightarrow>
      matchFormatCode pattern = (fmt, hammingDistance pattern (format_info ! fmt)))"
proof (intro conjI impI)
  assume a: "7 \<le> ver \<and> ver \<le> 40 \<and> hammingDistance pattern (version_info ! ver) \<le> 3"
  then have "ver \<in> set [7..<41]" by (simp only: set_upt) simp
  then show "matchVersionCode pattern = (ver, hammingDistance pattern (version_info ! ver))"
    using first_near_unique[OF version_codes_apart] a unfolding matchVersionCode_def by blast
next
  assume a: "fmt < 32 \<and> hammingDistance pattern (format_info ! fmt) \<le> 3"
  then have "fmt \<in> set [0..<32]" by (simp only: set_upt) simp
  then show "matchFormatCode pattern = (fmt, hammingDistance pattern (format_info ! fmt))"
    using first_near_unique[OF format_codes_apart] a unfolding matchFormatCode_def by blast
qed

theorem misread_codes_recognised_witness: "matchFormatCode (format_info ! 9 XOR 5) = (9, 2)"
proof -
  have "hammingDistance (format_info ! 9 XOR 5) (format_info ! 9) = 2"
    by (simp add: hammingDistance_def format_info_def)
  then show ?thesis using misread_codes_recognised[of 0 "format_info ! 9 XOR 5" 9] by simp
qed

end
