(* ===== verification/Sha1.thy ===== *)
theory Sha1
  imports Prelude
begin

text \<open>
  The hash of jquery.sha1.js, from which the client makes identities: the text is turned into
  bytes, the bytes are packed into 32-bit words and padded, and each block of sixteen words is
  mixed into the five words of the state. The sums of the source are exact in floating point
  arithmetic and are cut to 32 bits, so they are sums of 32-bit words here. The theorems
  compare the function with the definition of the standard (FIPS 180), which is stated
  separately over the padded list of bytes.
\<close>

section \<open>The functions of the source\<close>

type_synonym word32 = "32 word"

definition rotateLeft :: "word32 \<Rightarrow> nat \<Rightarrow> word32" where
  "rotateLeft lValue iShiftBits = push_bit iShiftBits lValue OR drop_bit (32 - iShiftBits) lValue"

definition hex_digit :: "nat \<Rightarrow> code_unit" where
  "hex_digit v = (if v < 10 then of_nat (48 + v) else of_nat (87 + v))"

definition cvtHex :: "word32 \<Rightarrow> js_string" where
  "cvtHex value = map (\<lambda>i. hex_digit (unat (drop_bit (i * 4) value AND 15))) (rev [0..<8])"

fun replace_crlf :: "js_string \<Rightarrow> js_string" where
  "replace_crlf (c # d # s) = (if c = 13 \<and> d = 10 then 10 # replace_crlf s else c # replace_crlf (d # s))"
| "replace_crlf s = s"

text \<open>One code unit becomes one, two or three bytes; the halves of a surrogate pair are encoded apart.\<close>

definition encode_unit :: "code_unit \<Rightarrow> js_string" where
  "encode_unit c =
     (if c < 128 then [c]
      else if 127 < c \<and> c < 2048 then [drop_bit 6 c OR 192, c AND 63 OR 128]
      else [drop_bit 12 c OR 224, drop_bit 6 c AND 63 OR 128, c AND 63 OR 128])"

definition uTF8Encode :: "js_string \<Rightarrow> js_string" where
  "uTF8Encode s = concat (map encode_unit (replace_crlf s))"

definition be_word :: "code_unit \<Rightarrow> code_unit \<Rightarrow> code_unit \<Rightarrow> code_unit \<Rightarrow> word32" where
  "be_word a b c d = push_bit 24 (ucast a) OR push_bit 16 (ucast b) OR push_bit 8 (ucast c) OR ucast d"

fun full_words :: "js_string \<Rightarrow> word32 list" where
  "full_words (a # b # c # d # s) = be_word a b c d # full_words s"
| "full_words s = []"

text \<open>The last word takes the bytes left over and the bit that ends the message.\<close>

definition last_word :: "js_string \<Rightarrow> word32" where
  "last_word s =
     (let n = length s
      in if n mod 4 = 0 then 0x80000000
         else if n mod 4 = 1 then push_bit 24 (ucast (s ! (n - 1))) OR 0x800000
         else if n mod 4 = 2 then
           push_bit 24 (ucast (s ! (n - 2))) OR push_bit 16 (ucast (s ! (n - 1))) OR 0x8000
         else push_bit 24 (ucast (s ! (n - 3))) OR push_bit 16 (ucast (s ! (n - 2))) OR
              push_bit 8 (ucast (s ! (n - 1))) OR 0x80)"

function pad_zeros :: "word32 list \<Rightarrow> word32 list" where
  "pad_zeros ws = (if length ws mod 16 \<noteq> 14 then pad_zeros (ws @ [0]) else ws)"
  by pat_completeness auto
termination
  by (relation "measure (\<lambda>ws. if length ws mod 16 \<le> 14 then 14 - length ws mod 16 else 15)") (auto simp: mod_Suc)

declare pad_zeros.simps [simp del]

definition word_array :: "js_string \<Rightarrow> word32 list" where
  "word_array s =
     pad_zeros (full_words s @ [last_word s]) @ [of_nat (length s div 2 ^ 29), push_bit 3 (of_nat (length s))]"

text \<open>The schedule of a block, and its eighty rounds; the state is the tuple of \<open>A\<close> to \<open>E\<close>.\<close>

definition expand_step :: "nat \<Rightarrow> word32 list \<Rightarrow> word32 list" where
  "expand_step i w = w @ [rotateLeft (w ! (i - 3) XOR w ! (i - 8) XOR w ! (i - 14) XOR w ! (i - 16)) 1]"

definition expand_block :: "word32 list \<Rightarrow> word32 list" where
  "expand_block b = fold expand_step [16..<80] b"

type_synonym sha_state = "word32 \<times> word32 \<times> word32 \<times> word32 \<times> word32"

definition round_with :: "(word32 \<Rightarrow> word32 \<Rightarrow> word32 \<Rightarrow> word32) \<Rightarrow> word32 \<Rightarrow> word32 \<Rightarrow> sha_state \<Rightarrow> sha_state" where
  "round_with f k w s =
     (case s of (A, B, C, D, E) \<Rightarrow> (rotateLeft A 5 + f B C D + E + w + k, A, rotateLeft B 30, C, D))"

definition mix_block :: "word32 list \<Rightarrow> sha_state \<Rightarrow> sha_state" where
  "mix_block b h =
     (let W = expand_block b;
          s = fold (\<lambda>i. round_with (\<lambda>B C D. (B AND C) OR (NOT B AND D)) 0x5A827999 (W ! i)) [0..<20] h;
          s = fold (\<lambda>i. round_with (\<lambda>B C D. B XOR C XOR D) 0x6ED9EBA1 (W ! i)) [20..<40] s;
          s = fold (\<lambda>i. round_with (\<lambda>B C D. (B AND C) OR (B AND D) OR (C AND D)) 0x8F1BBCDC (W ! i)) [40..<60] s;
          s = fold (\<lambda>i. round_with (\<lambda>B C D. B XOR C XOR D) 0xCA62C1D6 (W ! i)) [60..<80] s
      in case (h, s) of ((H0, H1, H2, H3, H4), (A, B, C, D, E)) \<Rightarrow>
           (H0 + A, H1 + B, H2 + C, H3 + D, H4 + E))"

definition initial_state :: sha_state where
  "initial_state = (0x67452301, 0xEFCDAB89, 0x98BADCFE, 0x10325476, 0xC3D2E1F0)"

function mix_blocks :: "word32 list \<Rightarrow> sha_state \<Rightarrow> sha_state" where
  "mix_blocks ws h = (if ws = [] then h else mix_blocks (drop 16 ws) (mix_block (take 16 ws) h))"
  by pat_completeness auto
termination by (relation "measure (\<lambda>(ws, h). length ws)") auto

declare mix_blocks.simps [simp del]

definition sha1 :: "js_string \<Rightarrow> js_string" where
  "sha1 s =
     (case mix_blocks (word_array (uTF8Encode s)) initial_state of
        (H0, H1, H2, H3, H4) \<Rightarrow> cvtHex H0 @ cvtHex H1 @ cvtHex H2 @ cvtHex H3 @ cvtHex H4)"

section \<open>The standard\<close>

text \<open>
  The definition of the standard over bytes: the message is followed by the byte 128, by zeros
  up to a length of 56 modulo 64, and by the number of its bits in eight bytes; the words of
  the schedule and the rounds are given by their recurrences.
\<close>

definition fips_pad :: "js_string \<Rightarrow> js_string" where
  "fips_pad m = m @ [128] @ replicate ((55 + 64 - length m mod 64) mod 64) 0 @
     map (\<lambda>k. of_nat (8 * length m div 256 ^ k mod 256)) (rev [0..<8])"

fun fips_schedule :: "word32 list \<Rightarrow> nat \<Rightarrow> word32" where
  "fips_schedule M t =
     (if t < 16 then M ! t
      else word_rotl 1 (fips_schedule M (t - 3) XOR fips_schedule M (t - 8) XOR
             fips_schedule M (t - 14) XOR fips_schedule M (t - 16)))"

declare fips_schedule.simps [simp del]

definition fips_f :: "nat \<Rightarrow> word32 \<Rightarrow> word32 \<Rightarrow> word32 \<Rightarrow> word32" where
  "fips_f t x y z =
     (if t < 20 then (x AND y) XOR (NOT x AND z)
      else if 40 \<le> t \<and> t < 60 then (x AND y) XOR (x AND z) XOR (y AND z)
      else x XOR y XOR z)"

definition fips_K :: "nat \<Rightarrow> word32" where
  "fips_K t = (if t < 20 then 0x5A827999 else if t < 40 then 0x6ED9EBA1 else if t < 60 then 0x8F1BBCDC else 0xCA62C1D6)"

primrec fips_rounds :: "word32 list \<Rightarrow> nat \<Rightarrow> sha_state \<Rightarrow> sha_state" where
  "fips_rounds M 0 s = s"
| "fips_rounds M (Suc t) s =
     (case fips_rounds M t s of (a, b, c, d, e) \<Rightarrow>
        (word_rotl 5 a + fips_f t b c d + e + fips_K t + fips_schedule M t, a, word_rotl 30 b, c, d))"

definition fips_block :: "word32 list \<Rightarrow> sha_state \<Rightarrow> sha_state" where
  "fips_block M h =
     (case (h, fips_rounds M 80 h) of ((H0, H1, H2, H3, H4), (a, b, c, d, e)) \<Rightarrow>
        (a + H0, b + H1, c + H2, d + H3, e + H4))"

fun fips_words :: "js_string \<Rightarrow> word32 list" where
  "fips_words (a # b # c # d # m) =
     (of_nat (unat a * 2 ^ 24 + unat b * 2 ^ 16 + unat c * 2 ^ 8 + unat d) :: word32) # fips_words m"
| "fips_words m = []"

primrec fips_blocks :: "nat \<Rightarrow> word32 list \<Rightarrow> sha_state \<Rightarrow> sha_state" where
  "fips_blocks 0 ws h = h"
| "fips_blocks (Suc n) ws h = fips_blocks n (drop 16 ws) (fips_block (take 16 ws) h)"

definition fips_sha1 :: "js_string \<Rightarrow> sha_state" where
  "fips_sha1 m = (let ws = fips_words (fips_pad m) in fips_blocks (length ws div 16) ws initial_state)"

section \<open>Rounds and schedule\<close>

lemma rotateLeft_rotl: "0 < n \<Longrightarrow> n < 32 \<Longrightarrow> rotateLeft x n = word_rotl n x"
proof (rule bit_word_eqI)
  fix i assume n: "0 < n" "n < 32" and "i < LENGTH(32)"
  then have i: "i < 32" by simp
  have L: "LENGTH(32) = 32" by simp
  show "bit (rotateLeft x n) i = bit (word_rotl n x) i"
  proof (cases "n \<le> i")
    case True
    then have "(i + (32 - n)) mod 32 = i - n" using n i by (simp add: mod_if)
    moreover have "\<not> bit x (32 - n + i)" using True n bit_imp_le_length[of x "32 - n + i"] unfolding L by linarith
    ultimately show ?thesis using True n i
      unfolding rotateLeft_def bit_word_rotl_iff bit_or_iff bit_push_bit_iff bit_drop_bit_eq L by (simp add: L)
  next
    case False
    then have "(i + (32 - n)) mod 32 = 32 - n + i" using n i by (subst mod_less) linarith+
    then show ?thesis using False n i
      unfolding rotateLeft_def bit_word_rotl_iff bit_or_iff bit_push_bit_iff bit_drop_bit_eq L by (simp add: L)
  qed
qed

lemma choose_xor: "(x AND y) OR (NOT x AND z) = (x AND y) XOR (NOT x AND (z :: word32))"
  by (rule bit_word_eqI) (auto simp: bit_simps)

lemma majority_xor: "(x AND y) OR (x AND z) OR (y AND z) = (x AND y) XOR (x AND z) XOR (y AND (z :: word32))"
  by (rule bit_word_eqI) (auto simp: bit_simps)

lemma expand_step_simps:
  "length (expand_step i w) = Suc (length w)" "j < length w \<Longrightarrow> expand_step i w ! j = w ! j"
  "expand_step i w ! length w = rotateLeft (w ! (i - 3) XOR w ! (i - 8) XOR w ! (i - 14) XOR w ! (i - 16)) 1"
  by (simp_all add: expand_step_def nth_append)

lemma length_expand_upto: "length (fold expand_step [16..<16 + k] b) = length b + k"
proof (induction k)
  case (Suc k)
  have "[16..<16 + Suc k] = [16..<16 + k] @ [16 + k]" unfolding add_Suc_right by (rule upt_Suc_append) simp
  then show ?case using Suc by (simp only: fold_append) (simp add: expand_step_simps)
qed simp

lemma expand_upto:
  assumes "length b = 16"
  shows "i < 16 + k \<Longrightarrow> fold expand_step [16..<16 + k] b ! i = fips_schedule b i"
proof (induction k arbitrary: i)
  case 0
  then show ?case by (simp add: fips_schedule.simps)
next
  case (Suc k)
  let ?w = "fold expand_step [16..<16 + k] b"
  have len: "length ?w = 16 + k" using assms length_expand_upto by simp
  have "[16..<16 + Suc k] = [16..<16 + k] @ [16 + k]" unfolding add_Suc_right by (rule upt_Suc_append) simp
  then have step: "fold expand_step [16..<16 + Suc k] b = expand_step (16 + k) ?w" by (simp only: fold_append) simp
  show ?case
  proof (cases "i < 16 + k")
    case True
    then show ?thesis unfolding step using Suc.IH[of i] len by (simp add: expand_step_simps)
  next
    case False
    then have i: "i = 16 + k" using Suc.prems by simp
    have "fold expand_step [16..<16 + Suc k] b ! i =
        rotateLeft (?w ! (13 + k) XOR ?w ! (8 + k) XOR ?w ! (2 + k) XOR ?w ! k) 1"
      unfolding step i using expand_step_simps(3)[of "16 + k" ?w] unfolding len by (simp add: numeral_eq_Suc)
    also have "\<dots> = fips_schedule b i"
      unfolding i using Suc.IH by (subst fips_schedule.simps) (simp add: rotateLeft_rotl)
    finally show ?thesis .
  qed
qed

lemma expand_block_schedule: "length b = 16 \<Longrightarrow> i < 80 \<Longrightarrow> expand_block b ! i = fips_schedule b i"
  using expand_upto[of b i 64] by (simp add: expand_block_def)

text \<open>Rounds with one function and one constant are the rounds of the standard with these numbers.\<close>

lemma rounds_range:
  assumes "length b = 16" "lo + m \<le> 80"
    and "\<And>t x y z. lo \<le> t \<Longrightarrow> t < lo + m \<Longrightarrow> f x y z = fips_f t x y z"
    and "\<And>t. lo \<le> t \<Longrightarrow> t < lo + m \<Longrightarrow> k = fips_K t"
  shows "fold (\<lambda>i. round_with f k (expand_block b ! i)) [lo..<lo + m] (fips_rounds b lo s) = fips_rounds b (lo + m) s"
  using assms(2-4)
proof (induction m)
  case (Suc m)
  have IH: "fold (\<lambda>i. round_with f k (expand_block b ! i)) [lo..<lo + m] (fips_rounds b lo s) = fips_rounds b (lo + m) s"
    using Suc by simp
  have W: "expand_block b ! (lo + m) = fips_schedule b (lo + m)"
    using expand_block_schedule[OF assms(1)] Suc.prems(1) by simp
  have "f = fips_f (lo + m)" "k = fips_K (lo + m)" using Suc.prems(2,3) by (auto intro!: ext)
  then have "round_with f k (expand_block b ! (lo + m)) (fips_rounds b (lo + m) s) = fips_rounds b (Suc (lo + m)) s"
    unfolding W by (simp add: round_with_def rotateLeft_rotl ac_simps split: prod.splits)
  then show ?case using IH by simp
qed simp

lemma mix_block_fips: "length b = 16 \<Longrightarrow> mix_block b h = fips_block b h"
proof -
  assume b: "length b = 16"
  let ?ch = "\<lambda>B C D. (B AND C) OR (NOT B AND D) :: word32" and ?par = "\<lambda>B C D. B XOR C XOR D :: word32"
    and ?maj = "\<lambda>B C D. (B AND C) OR (B AND D) OR (C AND D) :: word32"
  let ?run = "\<lambda>f k lo hi s. fold (\<lambda>i. round_with f k (expand_block b ! i)) [lo..<hi] s"
  have r1: "?run ?ch 0x5A827999 0 (0 + 20) (fips_rounds b 0 h) = fips_rounds b (0 + 20) h"
    by (rule rounds_range[OF b]) (auto simp: fips_f_def fips_K_def choose_xor)
  have r2: "?run ?par 0x6ED9EBA1 20 (20 + 20) (fips_rounds b 20 h) = fips_rounds b (20 + 20) h"
    by (rule rounds_range[OF b]) (auto simp: fips_f_def fips_K_def)
  have r3: "?run ?maj 0x8F1BBCDC 40 (40 + 20) (fips_rounds b 40 h) = fips_rounds b (40 + 20) h"
    by (rule rounds_range[OF b]) (auto simp: fips_f_def fips_K_def majority_xor)
  have r4: "?run ?par 0xCA62C1D6 60 (60 + 20) (fips_rounds b 60 h) = fips_rounds b (60 + 20) h"
    by (rule rounds_range[OF b]) (auto simp: fips_f_def fips_K_def)
  have n: "0 + 20 = (20 :: nat)" "20 + 20 = (40 :: nat)" "40 + 20 = (60 :: nat)" "60 + 20 = (80 :: nat)" by simp_all
  have "mix_block b h = (case (h, fips_rounds b 80 h) of ((H0, H1, H2, H3, H4), (A, B, C, D, E)) \<Rightarrow>
           (H0 + A, H1 + B, H2 + C, H3 + D, H4 + E))"
    unfolding mix_block_def Let_def r1[unfolded n fips_rounds.simps] r2[unfolded n] r3[unfolded n] r4[unfolded n] by (rule refl)
  also have "\<dots> = fips_block b h" by (simp add: fips_block_def add.commute split: prod.splits del: fips_rounds.simps)
  finally show ?thesis .
qed

lemma mix_blocks_fips: "length ws = 16 * n \<Longrightarrow> mix_blocks ws h = fips_blocks n ws h"
proof (induction n arbitrary: ws h)
  case (Suc n)
  then have "ws \<noteq> []" "length (take 16 ws) = 16" "length (drop 16 ws) = 16 * n" by auto
  then show ?case using Suc.IH mix_block_fips by (subst mix_blocks.simps) simp
qed (simp add: mix_blocks.simps)

section \<open>Packing and padding\<close>

lemma bit_below: "unat w < 2 ^ k \<Longrightarrow> bit (w :: code_unit) n \<Longrightarrow> n < k"
proof -
  assume a: "unat w < 2 ^ k" "bit w n"
  then have "take_bit k (unat w) = unat w" by (simp add: take_bit_nat_eq_self_iff)
  moreover have "bit (unat w) n" using a(2) by (simp add: bit_unsigned_iff)
  ultimately show "n < k" by (metis bit_take_bit_iff)
qed

lemma byte_bits: "(w :: code_unit) < 256 \<longleftrightarrow> (\<forall>n. bit w n \<longrightarrow> n < 8)"
proof
  assume "w < 256"
  then have "unat w < 2 ^ 8" by (simp add: word_less_nat_alt)
  then show "\<forall>n. bit w n \<longrightarrow> n < 8" using bit_below by blast
next
  assume "\<forall>n. bit w n \<longrightarrow> n < 8"
  then have "take_bit 8 (unat w) = unat w" by (auto simp: bit_eq_iff bit_take_bit_iff bit_unsigned_iff)
  then show "w < 256" by (simp add: take_bit_nat_eq_self_iff word_less_nat_alt)
qed

lemma encode_unit_byte: "w \<in> set (encode_unit c) \<Longrightarrow> w < 256"
proof -
  have k: "bit (63 :: code_unit) n \<Longrightarrow> n < 8" "bit (128 :: code_unit) n \<Longrightarrow> n < 8"
    "bit (192 :: code_unit) n \<Longrightarrow> n < 8" "bit (224 :: code_unit) n \<Longrightarrow> n < 8" for n
    using bit_below[of 63 8 n] bit_below[of 128 8 n] bit_below[of 192 8 n] bit_below[of 224 8 n] by simp_all
  have low: "c AND 63 OR 128 < 256" "drop_bit 6 c AND 63 OR 128 < 256"
    unfolding byte_bits bit_or_iff bit_and_iff using k(1,2) by blast+
  have "drop_bit 12 c OR 224 < 256"
  proof -
    have "bit (drop_bit 12 c) n \<Longrightarrow> n < 8" for n using bit_imp_le_length[of c "12 + n"] by (simp add: bit_drop_bit_eq)
    then show ?thesis unfolding byte_bits bit_or_iff using k(4) by blast
  qed
  moreover have "drop_bit 6 c OR 192 < 256" if "c < 2048"
  proof -
    have "unat c < 2 ^ 11" using that by (simp add: word_less_nat_alt)
    then have "bit (drop_bit 6 c) n \<Longrightarrow> n < 8" for n using bit_below[of c 11 "6 + n"] by (simp add: bit_drop_bit_eq)
    then show ?thesis unfolding byte_bits bit_or_iff using k(3) by blast
  qed
  moreover have "c < 256" if "c < 128" using that by (rule order.strict_trans) simp
  ultimately show "w \<in> set (encode_unit c) \<Longrightarrow> w < 256" using low by (auto simp: encode_unit_def split: if_splits)
qed

lemma uTF8Encode_bytes: "w \<in> set (uTF8Encode s) \<Longrightarrow> w < 256"
  using encode_unit_byte by (auto simp: uTF8Encode_def)

lemma be_word_bytes:
  assumes "a < 256" "b < 256" "c < 256" "d < 256"
  shows "be_word a b c d = of_nat (unat a * 2 ^ 24 + unat b * 2 ^ 16 + unat c * 2 ^ 8 + unat d)"
proof -
  have b8: "\<forall>n. bit (ucast x :: word32) n \<longrightarrow> n < 8" if "x < 256" for x :: code_unit
    using that unfolding byte_bits by (auto simp: bit_ucast_iff)
  have "push_bit 8 (ucast c) + ucast d = push_bit 8 (ucast c) OR (ucast d :: word32)"
    by (rule disjunctive_add) (use b8[OF assms(4)] in \<open>fastforce simp: bit_push_bit_iff\<close>)
  moreover have "push_bit 16 (ucast b) + (push_bit 8 (ucast c) OR ucast d) = push_bit 16 (ucast b) OR (push_bit 8 (ucast c) OR (ucast d :: word32))"
    by (rule disjunctive_add) (use b8[OF assms(3)] b8[OF assms(4)] in \<open>fastforce simp: bit_push_bit_iff bit_or_iff\<close>)
  moreover have "push_bit 24 (ucast a) + (push_bit 16 (ucast b) OR (push_bit 8 (ucast c) OR ucast d)) =
      push_bit 24 (ucast a) OR (push_bit 16 (ucast b) OR (push_bit 8 (ucast c) OR (ucast d :: word32)))"
    by (rule disjunctive_add) (use b8[OF assms(2)] b8[OF assms(3)] b8[OF assms(4)] in \<open>fastforce simp: bit_push_bit_iff bit_or_iff\<close>)
  ultimately have "be_word a b c d = push_bit 24 (ucast a) + (push_bit 16 (ucast b) + (push_bit 8 (ucast c) + ucast d))"
    unfolding be_word_def or.assoc by simp
  also have "\<dots> = of_nat (unat a * 2 ^ 24 + unat b * 2 ^ 16 + unat c * 2 ^ 8 + unat d)"
    by (simp add: push_bit_eq_mult add.assoc)
  finally show ?thesis .
qed

lemma fips_words_append: "4 dvd length xs \<Longrightarrow> fips_words (xs @ ys) = fips_words xs @ fips_words ys"
proof (induction xs rule: fips_words.induct)
  case (1 a b c d m)
  have "length (a # b # c # d # m) = length m + 4" by simp
  then have "4 dvd length m" using 1(2) by presburger
  then show ?case using 1(1) by simp
next
  case "2_1"
  then show ?case by simp
qed (simp_all, presburger+)

lemma full_words_fips: "\<forall>w\<in>set s. w < 256 \<Longrightarrow> full_words s = fips_words s"
proof (induction s rule: full_words.induct)
  case (1 a b c d s)
  then show ?case using be_word_bytes[of a b c d] by simp
qed simp_all

lemma full_words_append: "4 dvd length xs \<Longrightarrow> length ys < 4 \<Longrightarrow> fips_words (xs @ ys) = fips_words xs"
proof -
  assume a: "4 dvd length xs" "length ys < 4"
  have "fips_words ys = []" using a(2) by (cases ys rule: fips_words.cases) simp_all
  then show ?thesis using fips_words_append[OF a(1)] by simp
qed

lemma fips_words_zeros: "fips_words (replicate (4 * j) 0) = replicate j 0"
proof (induction j)
  case (Suc j)
  have "replicate (4 * Suc j) (0 :: code_unit) = 0 # 0 # 0 # 0 # replicate (4 * j) 0" by (simp add: numeral_eq_Suc)
  then show ?case using Suc by simp
qed simp

definition pad_count :: "nat \<Rightarrow> nat" where
  "pad_count n = (if n mod 16 \<le> 14 then 14 - n mod 16 else 15)"

lemma pad_zeros_replicate: "pad_zeros ws = ws @ replicate (pad_count (length ws)) 0"
proof (induction ws rule: pad_zeros.induct)
  case (1 ws)
  show ?case
  proof (cases "length ws mod 16 = 14")
    case True
    then show ?thesis by (simp add: pad_zeros.simps pad_count_def)
  next
    case False
    have "pad_count (length ws) = Suc (pad_count (Suc (length ws)))"
      using False mod_less_divisor[of 16 "length ws"] by (auto simp: pad_count_def mod_Suc)
    then show ?thesis using 1 False by (subst pad_zeros.simps) simp
  qed
qed

lemma pad_arith:
  fixes n :: nat
  defines "q \<equiv> n div 4" and "r \<equiv> n mod 4"
  shows "(55 + 64 - n mod 64) mod 64 = (3 - r) + 4 * pad_count (Suc q)"
proof -
  define p where "p = q mod 16"
  have p: "p < 16" and r: "r < 4" by (simp_all add: p_def r_def)
  have n: "n mod 64 = 4 * p + r"
    using mod_mult2_eq[of n 4 16] by (simp add: p_def q_def r_def)
  have s: "Suc q mod 16 = (if p = 15 then 0 else Suc p)" by (simp add: p_def mod_Suc)
  consider "p \<le> 13" | "p = 14" | "p = 15" using p by linarith
  then show ?thesis
  proof cases
    case 1
    then have "(55 + 64 - n mod 64) mod 64 = (64 + (55 - (4 * p + r))) mod 64" using n r by simp
    also have "\<dots> = 55 - (4 * p + r)" by simp
    finally show ?thesis using 1 r s by (simp add: pad_count_def)
  qed (use n r s in \<open>auto simp: pad_count_def\<close>)
qed

lemma last_word_be:
  assumes "s = xs @ ys" "4 dvd length xs" "length ys < 4"
  shows "last_word s = hd (full_words (ys @ [128] @ replicate (3 - length ys) 0))"
proof -
  have z: "replicate 3 (0 :: code_unit) = [0, 0, 0]" "replicate 2 (0 :: code_unit) = [0, 0]" by (simp_all add: numeral_eq_Suc)
  have m: "length xs mod 4 = 0" using assms(2) by simp
  consider "ys = []" | a where "ys = [a]" | a b where "ys = [a, b]" | a b c where "ys = [a, b, c]"
    using assms(3) by (cases ys rule: full_words.cases) auto
  then show ?thesis
  proof cases
    case 1
    then show ?thesis using m by (simp add: last_word_def assms(1) z be_word_def)
  next
    case 2
    then have "length s mod 4 = 1" "s ! (length s - 1) = a" using m by (simp_all add: assms(1) mod_Suc)
    then show ?thesis using 2 by (simp add: last_word_def z be_word_def)
  next
    case 3
    then have "length s mod 4 = 2" "s ! (length s - 2) = a" "s ! (length s - 1) = b"
      using m by (simp_all add: assms(1) mod_Suc nth_append)
    then show ?thesis using 3 by (simp add: last_word_def z be_word_def)
  next
    case 4
    then have "length s mod 4 = 3" "s ! (length s - 3) = a" "s ! (length s - 2) = b" "s ! (length s - 1) = c"
      using m by (simp_all add: assms(1) mod_Suc nth_append)
    then show ?thesis using 4 by (simp add: last_word_def z be_word_def)
  qed
qed

lemma length_words: "length (full_words s) = length s div 4" "length (fips_words s) = length s div 4"
  by (induction s rule: full_words.induct) simp_all

lemma length_bytes_words:
  assumes "n < 2 ^ 32"
  shows "fips_words (map (\<lambda>k. of_nat (8 * n div 256 ^ k mod 256)) (rev [0..<8])) =
    [of_nat (n div 2 ^ 29), push_bit 3 (of_nat n)]"
proof -
  let ?b = "\<lambda>k. 8 * n div 256 ^ k mod 256"
  have u: "unat (of_nat (m mod 256) :: code_unit) = m mod 256" for m
    by (simp add: unat_of_nat)
  have four: "m div 256 ^ 3 mod 256 * 2 ^ 24 + m div 256 ^ 2 mod 256 * 2 ^ 16 + m div 256 mod 256 * 2 ^ 8 + m mod 256 = m mod 2 ^ 32" for m :: nat
    using mod_mult2_eq[of m 256 "256 ^ 3"] mod_mult2_eq[of "m div 256" 256 "256 ^ 2"] mod_mult2_eq[of "m div 256 ^ 2" 256 256]
    by (simp add: div_mult2_eq[symmetric])
  have r: "rev [0..<8] = [7, 6, 5, 4, 3, 2, 1, 0 :: nat]" by (simp add: upt_conv_Cons)
  have e0: "fips_words (map (\<lambda>k. of_nat (?b k)) (rev [0..<8])) =
     [of_nat (?b 7 * 2 ^ 24 + ?b 6 * 2 ^ 16 + ?b 5 * 2 ^ 8 + ?b 4), of_nat (?b 3 * 2 ^ 24 + ?b 2 * 2 ^ 16 + ?b 1 * 2 ^ 8 + ?b 0)]"
    unfolding r list.map fips_words.simps u by (rule refl)
  have e1: "?b 7 * 2 ^ 24 + ?b 6 * 2 ^ 16 + ?b 5 * 2 ^ 8 + ?b 4 = n div 2 ^ 29"
  proof -
    have "8 * n div 256 ^ 4 = n div 2 ^ 29" using div_mult_mult1[of 8 n "2 ^ 29"] by simp
    moreover have "n div 2 ^ 29 < 2 ^ 32" using assms div_le_dividend[of n "2 ^ 29"] by linarith
    ultimately show ?thesis using four[of "8 * n div 256 ^ 4"] by (simp add: div_mult2_eq[symmetric])
  qed
  have e2: "?b 3 * 2 ^ 24 + ?b 2 * 2 ^ 16 + ?b 1 * 2 ^ 8 + ?b 0 = (8 * n) mod 2 ^ 32"
    using four[of "8 * n"] by simp
  have e3: "of_nat ((8 * n) mod 2 ^ 32) = push_bit 3 (of_nat n :: word32)"
  proof -
    have "of_nat (m mod 2 ^ 32) = (of_nat m :: word32)" for m by (rule word_unat_eq_iff[THEN iffD2]) (simp add: unat_of_nat)
    then show ?thesis by (simp add: push_bit_eq_mult mult.commute)
  qed
  show ?thesis unfolding e0 e1 e2 e3 by (rule refl)
qed

lemma word_array_fips:
  assumes b: "\<forall>w\<in>set s. w < 256" and "length s < 2 ^ 32"
  shows "word_array s = fips_words (fips_pad s)"
proof -
  define q r where "q = length s div 4" and "r = length s mod 4"
  define xs ys where "xs = take (4 * q) s" and "ys = drop (4 * q) s"
  have s: "s = xs @ ys" by (simp add: xs_def ys_def)
  have lx: "length xs = 4 * q" by (simp add: xs_def q_def)
  have ly: "length ys = r" "r < 4" by (simp_all add: ys_def q_def r_def minus_mult_div_eq_mod)
  let ?head = "ys @ [128] @ replicate (3 - r) 0" and ?len = "map (\<lambda>k. of_nat (8 * length s div 256 ^ k mod 256)) (rev [0..<8]) :: js_string"
  have hb: "\<forall>w\<in>set ?head. w < 256" using b by (auto simp: ys_def dest: in_set_dropD)
  have h4: "length ?head = 4" using ly by simp
  have head: "fips_words ?head = [last_word s]"
  proof -
    have "length (full_words ?head) = 1" using h4 by (simp only: length_words)
    then have "full_words ?head = [hd (full_words ?head)]" by (cases "full_words ?head") auto
    then show ?thesis using last_word_be[OF s] lx ly full_words_fips[OF hb] by simp
  qed
  have full: "full_words s = fips_words xs"
    using full_words_fips[OF b] full_words_append[of xs ys] lx ly s by simp
  have len: "length (fips_words xs) = q"
    using lx by (simp add: length_words)
  have "fips_pad s = xs @ ?head @ replicate (4 * pad_count (Suc q)) 0 @ ?len"
    unfolding fips_pad_def pad_arith q_def[symmetric] r_def[symmetric] by (subst s) (simp add: replicate_add)
  then have "fips_words (fips_pad s) =
      fips_words xs @ [last_word s] @ replicate (pad_count (Suc q)) 0 @ fips_words ?len"
    using lx h4 head by (simp only: fips_words_append fips_words_zeros dvd_triv_left length_replicate dvd_refl)
  then show ?thesis
    using len full length_bytes_words[OF assms(2)] by (simp add: word_array_def pad_zeros_replicate)
qed

lemma length_fips_pad: "length (fips_pad m) mod 64 = 0"
proof -
  define r where "r = length m mod 64"
  let ?k = "(119 - r) mod 64"
  have r: "r < 64" by (simp add: r_def)
  have "r + 9 + ?k = 64 \<or> r + 9 + ?k = 128"
  proof (cases "r \<le> 55")
    case True
    then have k: "119 - r = 64 + (55 - r)" by simp
    have "(64 + (55 - r)) mod 64 = 55 - r" by simp
    then have "?k = 55 - r" by (simp only: k)
    then show ?thesis using True by simp
  next
    case False
    then have "?k = 119 - r" using r by simp
    then show ?thesis using r by simp
  qed
  moreover have "r + (9 + ?k) = r + 9 + ?k" by simp
  ultimately have "(r + (9 + ?k)) mod 64 = 0" by (elim disjE) (simp_all only: mod_self, simp)
  then have "(length m + (9 + ?k)) mod 64 = 0" unfolding r_def mod_add_left_eq .
  then show ?thesis by (simp add: fips_pad_def r_def ac_simps)
qed

section \<open>Properties\<close>

text \<open>
  C16: For every text of less than 2^32 bytes the function returns the hash of the standard: the
  words it packs, pads and mixes give the same five words as the definition over the padded
  byte string, written as 40 hexadecimal digits.
\<close>

theorem sha1_is_standard:
  assumes "length (uTF8Encode s) < 2 ^ 32"
  shows "sha1 s =
    (case fips_sha1 (uTF8Encode s) of (H0, H1, H2, H3, H4) \<Rightarrow>
       concat (map (\<lambda>h. map (\<lambda>i. hex_digit (unat h div 16 ^ i mod 16)) [7, 6, 5, 4, 3, 2, 1, 0]) [H0, H1, H2, H3, H4]))"
proof -
  let ?m = "uTF8Encode s"
  have ws: "word_array ?m = fips_words (fips_pad ?m)"
    using word_array_fips[OF _ assms] uTF8Encode_bytes by blast
  have "16 dvd length (fips_words (fips_pad ?m))"
    using length_fips_pad[of ?m] by (simp only: length_words) presburger
  then have len: "length (fips_words (fips_pad ?m)) = 16 * (length (fips_words (fips_pad ?m)) div 16)" by simp
  have h: "mix_blocks (word_array ?m) initial_state = fips_sha1 ?m"
    unfolding ws fips_sha1_def Let_def by (rule mix_blocks_fips[OF len])
  have r: "rev [0..<8] = [7, 6, 5, 4, 3, 2, 1, 0 :: nat]" by (simp add: upt_conv_Cons)
  have d: "unat (drop_bit (i * 4) w AND 15) = unat w div 16 ^ i mod 16" for w :: word32 and i
  proof -
    have "drop_bit (i * 4) w AND 15 = take_bit 4 (drop_bit (i * 4) w)"
      by (simp add: take_bit_eq_mask mask_eq_exp_minus_1)
    then have "unat (drop_bit (i * 4) w AND 15) = take_bit 4 (drop_bit (i * 4) (unat w))"
      using take_bit_nat_eq_self[OF unsigned_less[of w]]
      by (simp only: unsigned_take_bit_eq unsigned_drop_bit_eq)
    then show ?thesis unfolding take_bit_eq_mod drop_bit_eq_div mult.commute[of i] power_mult by simp
  qed
  have "cvtHex w = map (\<lambda>i. hex_digit (unat w div 16 ^ i mod 16)) [7, 6, 5, 4, 3, 2, 1, 0]" for w
    unfolding cvtHex_def r d by (rule refl)
  then show ?thesis unfolding sha1_def h by (simp split: prod.splits)
qed

theorem sha1_is_standard_witness:
  "sha1 [] = (case fips_sha1 [] of (H0, H1, H2, H3, H4) \<Rightarrow>
       concat (map (\<lambda>h. map (\<lambda>i. hex_digit (unat h div 16 ^ i mod 16)) [7, 6, 5, 4, 3, 2, 1, 0]) [H0, H1, H2, H3, H4]))"
  using sha1_is_standard[of "[]"] by (simp add: uTF8Encode_def)

text \<open>
  The digits of a hash. The identity check of the client asks for 40 characters in this range.
\<close>

lemma hex_digit_range: "v < 16 \<Longrightarrow> (48 \<le> hex_digit v \<and> hex_digit v \<le> 57) \<or> (97 \<le> hex_digit v \<and> hex_digit v \<le> 102)"
proof -
  assume v: "v < 16"
  have "unat (hex_digit v) = (if v < 10 then 48 + v else 87 + v)"
    unfolding hex_digit_def using v by (simp only: unat_of_nat split: if_splits) simp
  then show ?thesis using v by (simp add: word_le_nat_alt)
qed

lemma length_sha1: "length (sha1 s) = 40"
  by (simp add: sha1_def cvtHex_def split: prod.splits)

lemma unat_15: "unat (15 :: word32) = 15" "Suc 15 = 16"
  by simp_all

lemma sha1_digits:
  assumes "c \<in> set (sha1 s)" shows "(48 \<le> c \<and> c \<le> 57) \<or> (97 \<le> c \<and> c \<le> 102)"
proof -
  have "x AND 15 \<le> 15" for x :: word32 by (rule word_and_le1)
  then have "unat (x AND 15) < 16" for x :: word32
    using word_le_nat_alt[of "x AND 15" 15] by (metis (no_types) le_imp_less_Suc unat_15)
  then show ?thesis using assms hex_digit_range
    by (auto simp: sha1_def cvtHex_def split: prod.splits)
qed

text \<open>
  A carriage return before a line feed does not count for the hash, so two different
  passwords can give one identity.
\<close>

lemma sha1_ignores_carriage_return:
  assumes "a = [] \<or> last a \<noteq> 13"
  shows "sha1 (a @ [13, 10] @ b) = sha1 (a @ [10] @ b)"
proof -
  have "replace_crlf (a @ 13 # 10 # b) = replace_crlf (a @ 10 # b)" using assms
  proof (induction a rule: replace_crlf.induct)
    case (1 c d s)
    then show ?case by (cases "s = []") (auto split: if_splits)
  next
    case "2_1"
    then show ?case by (cases b) auto
  next
    case "2_2"
    then show ?case by (cases b) auto
  qed
  then show ?thesis by (simp add: sha1_def uTF8Encode_def)
qed

end
