(* ===== verification/Messages.thy ===== *)
theory Messages
  imports Prelude
begin

text \<open>
  The messages of the application as the server sends them, with the fields the client reads,
  and the texts the client shows. A field that a kind of message does not have is unused. The
  localised texts of i18n_zh_CN.js are named by their variables.
\<close>

datatype message_type = PLAIN_TEXT | REF_UNIQUE | VOTE_TOPIC | VOTE_OF_ME | CHAT_BUILD | Other_Message

datatype message = Message
  (messageType: message_type)
  (idBytes: js_string)
  (userName: js_string)
  (plainText: js_string)
  (fileName: js_string)
  (voteTopic: js_string)
  (multiSelection: bool)
  (isProtectedProxy: bool)
  (options: "js_string list option")
  (results: "(js_string \<times> nat) list")
  (comment: js_string)
  (description: js_string)
  (agreeCounter: nat)
  (disagreeCounter: nat)
  (referencedCounter: nat)
  (referenceMessage: "message option")

text \<open>A text shown to the user: one of the code, or a localised one with its arguments.\<close>

datatype ui_text = Verbatim js_string | I18n string "ui_text list" | Number nat

datatype poll_type = LAZY | EAGER | HISTORY | REFRESH

definition plain_message :: "js_string \<Rightarrow> js_string \<Rightarrow> js_string \<Rightarrow> message option \<Rightarrow> message" where
  "plain_message i u t r = Message PLAIN_TEXT i u t [] [] False False None [] [] [] 0 0 0 r"

text \<open>The strings of the code that the page puts together itself.\<close>

definition BROADCAST_LIMIT :: nat where
  "BROADCAST_LIMIT = 200"

definition MESSAGE_ID_SUFFIX :: js_string where
  "MESSAGE_ID_SUFFIX = lit ''_messagePage''"

text \<open>The localised texts that become part of a message or are looked up as a code.\<close>

definition ERROR_VOTE_TOPIC_INVALID :: js_string where
  "ERROR_VOTE_TOPIC_INVALID = [0x6295, 0x7968, 0x4E3B, 0x9898, 0x65E0, 0x6548, 0xFF0C, 0x4E0D, 0x53EF, 0x4E3A, 0x7A7A,
     0xFF0C, 0x4E5F, 0x4E0D, 0x53EF, 0x5305, 0x542B, 0x7279, 0x6B8A, 0x5B57, 0x7B26]"

definition TEXT_BROADCAST :: js_string where
  "TEXT_BROADCAST = [0x8F6C, 0x53D1, 0x5FAE, 0x535A]"

definition TALK_SHARE_MESSAGE :: js_string where
  "TALK_SHARE_MESSAGE = [0x5206, 0x4EAB, 0x6587, 0x4EF6]"

definition TALK_SHARE_IMAGE_MESSAGE :: js_string where
  "TALK_SHARE_IMAGE_MESSAGE = [0x5206, 0x4EAB, 0x56FE, 0x7247]"

definition createSuffixedId :: "js_string \<Rightarrow> js_string \<Rightarrow> js_string" where
  "createSuffixedId i suffix = i @ suffix"

definition extractIdBytesFromId :: "js_string \<Rightarrow> js_string" where
  "extractIdBytesFromId i = js_slice i 0 40"

definition system_id :: js_string where
  "system_id = replicate 39 48 @ [50]"

text \<open>verifyIdBytes of global.js: 40 characters out of the digits and the small letters.\<close>

definition verifyIdBytes :: "js_string \<Rightarrow> bool" where
  "verifyIdBytes i \<longleftrightarrow> length i = 40 \<and> (\<forall>c\<in>set i. (48 \<le> c \<and> c \<le> 57) \<or> (97 \<le> c \<and> c \<le> 122))"

text \<open>isEmptyString of global.js: only characters of white space.\<close>

definition white_space :: "code_unit \<Rightarrow> bool" where
  "white_space c \<longleftrightarrow> c \<in> {9, 10, 11, 12, 13, 32, 0xA0, 0x1680, 0x2000, 0x2001, 0x2002, 0x2003, 0x2004, 0x2005,
     0x2006, 0x2007, 0x2008, 0x2009, 0x200A, 0x2028, 0x2029, 0x202F, 0x205F, 0x3000, 0xFEFF}"

definition isEmptyString :: "js_string \<Rightarrow> bool" where
  "isEmptyString s \<longleftrightarrow> (\<forall>c\<in>set s. white_space c)"

text \<open>
  The identifier of a message is found again from the identifier of its row: cutting the suffix off gives the
  same identifier, which passes the client's check again.
\<close>

lemma row_id_roundtrip:
  assumes "verifyIdBytes i"
  shows "extractIdBytesFromId (createSuffixedId i MESSAGE_ID_SUFFIX) = i \<and>
    verifyIdBytes (extractIdBytesFromId (createSuffixedId i MESSAGE_ID_SUFFIX))"
proof -
  have "length i = 40" using assms by (simp add: verifyIdBytes_def)
  then show ?thesis using assms js_slice_prefix[of "i @ MESSAGE_ID_SUFFIX" 40]
    by (simp add: extractIdBytesFromId_def createSuffixedId_def)
qed

end
