(* ===== verification/MessageCache.thy ===== *)
theory MessageCache
  imports Prelude "HOL-Library.Sublist"
begin

text \<open>
  The local store of the newest messages, \<open>messageLocalCache\<close> of message.js: \<open>append\<close> takes the
  messages of a poll, \<open>lastestList\<close> returns what a page shows. The contract of such a store is
  the locale \<open>message_store\<close>; what it promises to the page is proved there once, and the
  interpretation shows that the code keeps it. The closed form of \<open>append\<close> also shows when the
  code keeps less than the newest hundred messages.
\<close>

section \<open>The store\<close>

definition maxKeep :: int where
  "maxKeep = 100"

definition cache_append :: "'m list \<Rightarrow> 'm list \<Rightarrow> 'm list" where
  "cache_append cachedList lazyMessageList =
     (let shrinkMax = max 0 (maxKeep - int (length lazyMessageList));
          startIndex = int (length cachedList) - min shrinkMax (int (length cachedList));
          cachedList = js_slice cachedList startIndex (int (length cachedList));
          cancatSize = maxKeep - int (length cachedList);
          cachedList = cachedList @
            js_slice lazyMessageList (int (length lazyMessageList) - cancatSize) (int (length lazyMessageList))
      in take (nat (min maxKeep (int (length cachedList)))) cachedList)"

definition lastestList :: "'m list \<Rightarrow> nat \<Rightarrow> 'm list" where
  "lastestList cachedList number =
     js_slice cachedList (max 0 (int (length cachedList) - int number)) (int (length cachedList))"

lemma lastestList_drop: "lastestList xs k = drop (length xs - k) xs"
proof -
  have "max 0 (int (length xs) - int k) = int (length xs - k)" by linarith
  then show ?thesis by (simp add: lastestList_def js_slice_suffix)
qed

section \<open>Closed form\<close>

text \<open>
  When old and new messages together reach the limit, the newest hundred remain. Below the
  limit everything should remain, but the computed start index is negative, and a negative
  index counts from the end of the new messages: the first \<open>lost\<close> of them are dropped.
\<close>

definition lost :: "nat \<Rightarrow> nat \<Rightarrow> nat" where
  "lost c n = 2 * n - (100 - c)"

lemma slice_to_end: "js_slice xs i (int (length xs)) = drop (nat (js_clamp (int (length xs)) i)) xs"
  by (auto simp: js_slice_def js_clamp_def min_def max_def)

lemma cache_append_closed:
  assumes "length cached \<le> 100"
  shows "cache_append cached new =
    (if length cached + length new \<ge> 100 then drop (length cached + length new - 100) (cached @ new)
     else cached @ drop (lost (length cached) (length new)) new)"
proof -
  define c n where "c = length cached" and "n = length new"
  have c: "c \<le> 100" using assms by (simp add: c_def)
  define k where "k = c - (100 - n)"
  have "int c - min (max 0 (100 - int n)) (int c) = int k" using c by (simp add: k_def)
  then have kept: "js_slice cached (int c - min (max 0 (100 - int n)) (int c)) (int c) = drop k cached"
    using js_slice_suffix[of k cached] by (simp add: c_def k_def)
  define s where "s = int n - (100 - int (c - k))"
  have e: "cache_append cached new = take (nat (min 100 (int (length (drop k cached @ drop (nat (js_clamp (int n) s)) new)))))
      (drop k cached @ drop (nat (js_clamp (int n) s)) new)"
  proof -
    have len: "length (drop k cached) = c - k" by (simp add: c_def)
    have sl: "js_slice new s (int n) = drop (nat (js_clamp (int n) s)) new" unfolding n_def by (rule slice_to_end)
    show ?thesis
      unfolding cache_append_def Let_def maxKeep_def c_def[symmetric] n_def[symmetric] kept len s_def[symmetric] sl by (rule refl)
  qed
  show ?thesis
  proof (cases "100 \<le> c + n")
    case True
    have s: "js_clamp (int n) s = int (n - 100)"
      using True c by (auto simp: s_def k_def js_clamp_def)
    have k: "k = c + n - 100 \<and> n \<le> 100 \<or> k = c \<and> 100 \<le> n" using True by (auto simp: k_def)
    have "cache_append cached new = drop k cached @ drop (n - 100) new"
      unfolding e s using k True by (auto simp: c_def[symmetric] n_def[symmetric])
    also have "\<dots> = drop (c + n - 100) (cached @ new)"
      using k True by (auto simp: c_def n_def)
    finally show ?thesis using True by (simp add: c_def n_def)
  next
    case False
    have k: "k = 0" using False by (simp add: k_def)
    have s: "js_clamp (int n) s = int (lost c n)"
      using False k by (auto simp: s_def js_clamp_def lost_def)
    show ?thesis unfolding e s using False k by (simp add: c_def n_def)
  qed
qed

section \<open>The contract of a message store\<close>

text \<open>
  \<open>append\<close> keeps a bounded subsequence of the old and the new messages, in their order, and never
  loses the newest one; \<open>lastest\<close> shows the end of the store.
\<close>

locale message_store =
  fixes append_new :: "'m list \<Rightarrow> 'm list \<Rightarrow> 'm list"
    and lastest :: "'m list \<Rightarrow> nat \<Rightarrow> 'm list"
    and limit :: nat
  assumes append_bound: "length s \<le> limit \<Longrightarrow> length (append_new s ms) \<le> limit"
    and append_order: "length s \<le> limit \<Longrightarrow> subseq (append_new s ms) (s @ ms)"
    and append_newest: "length s \<le> limit \<Longrightarrow> ms \<noteq> [] \<Longrightarrow> append_new s ms \<noteq> [] \<and> last (append_new s ms) = last ms"
    and append_nothing: "length s \<le> limit \<Longrightarrow> append_new s [] = s"
    and lastest_end: "suffix (lastest s k) s"
    and lastest_length: "length (lastest s k) = min k (length s)"
begin

definition after_polls :: "'m list list \<Rightarrow> 'm list" where
  "after_polls polls = fold (\<lambda>ms s. append_new s ms) polls []"

lemma after_polls_Nil: "after_polls [] = []"
  by (simp add: after_polls_def)

lemma after_polls_snoc: "after_polls (polls @ [ms]) = append_new (after_polls polls) ms"
  by (simp add: after_polls_def)

lemma after_polls_bound: "length (after_polls polls) \<le> limit"
  by (induction polls rule: rev_induct) (simp_all add: after_polls_Nil after_polls_snoc append_bound)

lemma after_polls_order: "subseq (after_polls polls) (concat polls)"
proof (induction polls rule: rev_induct)
  case (snoc ms polls)
  have "subseq (append_new (after_polls polls) ms) (after_polls polls @ ms)"
    by (rule append_order[OF after_polls_bound])
  also have "subseq (after_polls polls @ ms) (concat polls @ ms)"
    using snoc by (intro list_emb_append_mono) simp_all
  finally show ?case by (simp add: after_polls_snoc)
qed (simp add: after_polls_Nil)

lemma after_polls_newest:
  assumes "concat polls \<noteq> []"
  shows "after_polls polls \<noteq> [] \<and> last (after_polls polls) = last (concat polls)"
  using assms
proof (induction polls rule: rev_induct)
  case (snoc ms polls)
  show ?case
  proof (cases "ms = []")
    case True
    then show ?thesis using snoc by (simp add: after_polls_snoc append_nothing[OF after_polls_bound])
  next
    case False
    then show ?thesis using append_newest[OF after_polls_bound] by (simp add: after_polls_snoc)
  qed
qed simp

text \<open>What a page shows: at most \<open>k\<close> messages, all received, in order, the newest one last.\<close>

lemma shown_order: "subseq (lastest (after_polls polls) k) (concat polls)"
proof -
  have "subseq (lastest (after_polls polls) k) (after_polls polls)"
    using lastest_end by (rule suffix_imp_subseq)
  then show ?thesis using after_polls_order by (rule subseq_order.trans)
qed

lemma shown_newest:
  assumes "concat polls \<noteq> []" "0 < k"
  shows "lastest (after_polls polls) k \<noteq> [] \<and> last (lastest (after_polls polls) k) = last (concat polls)"
proof -
  have ne: "after_polls polls \<noteq> []" "last (after_polls polls) = last (concat polls)"
    using after_polls_newest[OF assms(1)] by simp_all
  have "length (lastest (after_polls polls) k) \<noteq> 0" using ne(1) assms(2) by (simp add: lastest_length)
  then have l: "lastest (after_polls polls) k \<noteq> []" by auto
  obtain front where "after_polls polls = front @ lastest (after_polls polls) k"
    using lastest_end by (auto simp: suffix_def)
  then show ?thesis using ne(2) l by (metis last_appendR)
qed

lemma shown_at_most: "length (lastest (after_polls polls) k) \<le> k"
  by (simp add: lastest_length)

end

lemma subseq_drop_append: "subseq (xs @ drop k ys) (xs @ ys)"
  by (intro list_emb_append_mono) (simp_all add: suffix_imp_subseq suffix_drop)

interpretation cache: message_store cache_append lastestList 100
proof
  fix s ms :: "'m list" and k
  show "length (cache_append s ms) \<le> 100" if "length s \<le> 100"
    unfolding cache_append_closed[OF that] using that by (simp del: drop_append) arith
  show "subseq (cache_append s ms) (s @ ms)" if "length s \<le> 100"
    unfolding cache_append_closed[OF that] by (simp add: suffix_imp_subseq suffix_drop subseq_drop_append del: drop_append)
  show "cache_append s ms \<noteq> [] \<and> last (cache_append s ms) = last ms" if "length s \<le> 100" "ms \<noteq> []"
  proof (cases "100 \<le> length s + length ms")
    case True
    then show ?thesis unfolding cache_append_closed[OF that(1)] using that(2) by (simp add: last_drop del: drop_append)
  next
    case False
    then have "lost (length s) (length ms) < length ms" using that(2) by (cases ms) (auto simp: lost_def)
    then show ?thesis unfolding cache_append_closed[OF that(1)] using False by (simp add: last_drop)
  qed
  show "cache_append s [] = s" if "length s \<le> 100"
    using that by (simp add: cache_append_closed)
  show "suffix (lastestList s k) s" by (simp add: lastestList_drop suffix_drop)
  show "length (lastestList s k) = min k (length s)" by (simp add: lastestList_drop)
qed

section \<open>Properties\<close>



text \<open>
  C18: \<open>append\<close> keeps the newest 100 of all messages exactly when old and new messages together
  reach 100, or the free room is at least twice the number of new messages. Otherwise the
  oldest of the new messages are lost although there is room for them.
\<close>

theorem cache_append_keeps_newest:
  assumes "length cached \<le> 100"
  shows "cache_append cached new = drop (length cached + length new - 100) (cached @ new) \<longleftrightarrow>
    100 \<le> length cached + length new \<or> length cached + 2 * length new \<le> 100"
proof -
  let ?c = "length cached" and ?n = "length new"
  have closed: "cache_append cached new = cached @ drop (lost ?c ?n) new" if "\<not> 100 \<le> ?c + ?n"
    using that unfolding cache_append_closed[OF assms] by simp
  show ?thesis
  proof (cases "100 \<le> ?c + ?n")
    case True
    then show ?thesis unfolding cache_append_closed[OF assms] by simp
  next
    case False
    then have all: "drop (?c + ?n - 100) (cached @ new) = cached @ new" by simp
    have "cached @ drop (lost ?c ?n) new = cached @ new \<longleftrightarrow> lost ?c ?n = 0"
    proof
      assume "cached @ drop (lost ?c ?n) new = cached @ new"
      then have "length (drop (lost ?c ?n) new) = ?n" by (metis same_append_eq)
      then show "lost ?c ?n = 0" using False by (cases "?n = 0") (auto simp: lost_def)
    qed simp
    also have "\<dots> \<longleftrightarrow> ?c + 2 * ?n \<le> 100" using assms by (auto simp: lost_def)
    finally show ?thesis unfolding closed[OF False] all using False by blast
  qed
qed

theorem cache_append_keeps_newest_witness:
  "cache_append [] [0..<60 :: nat] \<noteq> [0..<60] \<and> cache_append [] [0..<50 :: nat] = [0..<50]"
proof
  show "cache_append [] [0..<60 :: nat] \<noteq> [0..<60]" using cache_append_keeps_newest[of "[]" "[0..<60 :: nat]"] by simp
  show "cache_append [] [0..<50 :: nat] = [0..<50]" using cache_append_keeps_newest[of "[]" "[0..<50 :: nat]"] by simp
qed

end
