(* ===== verification/VoteRows.thy ===== *)
theory VoteRows
  imports Prelude
begin

text \<open>
  The input rows of a new vote (message.js): the values of the option inputs, one per list item.
  A key in a row adds an empty row when every other row is filled, or removes one when the row
  was emptied; the clear link removes a second empty row. The page starts with three rows.
\<close>

definition VOTE_OPTION_MAX_NUMBER :: nat where
  "VOTE_OPTION_MAX_NUMBER = 6"

definition VOTE_OPTION_DEFAULT_NUMBER :: nat where
  "VOTE_OPTION_DEFAULT_NUMBER = 3"

type_synonym vote_rows = "js_string list"

definition remove_at :: "nat \<Rightarrow> 'a list \<Rightarrow> 'a list" where
  "remove_at i xs = take i xs @ drop (Suc i) xs"

text \<open>The loop over the rows other than the one that has the key.\<close>

definition other_row_empty :: "nat \<Rightarrow> vote_rows \<Rightarrow> bool" where
  "other_row_empty self rows \<longleftrightarrow> (\<exists>i\<in>set [0..<length rows]. i \<noteq> self \<and> rows ! i = [])"

definition remove_last_empty :: "vote_rows \<Rightarrow> vote_rows" where
  "remove_last_empty rows =
     (case List.find (\<lambda>i. rows ! i = []) (rev [0..<length rows]) of
        Some i \<Rightarrow> remove_at i rows
      | None \<Rightarrow> rows)"

definition onVoteOptionKeyUp :: "nat \<Rightarrow> vote_rows \<Rightarrow> vote_rows" where
  "onVoteOptionKeyUp self rows =
     (if rows ! self \<noteq> [] then
        (if length rows = VOTE_OPTION_MAX_NUMBER then rows
         else if other_row_empty self rows then rows
         else rows @ [[]])
      else if length rows \<le> VOTE_OPTION_DEFAULT_NUMBER then rows
      else remove_last_empty rows)"

text \<open>The loop that skips the first empty row and removes the next one.\<close>

definition onVoteOptionClear :: "vote_rows \<Rightarrow> vote_rows" where
  "onVoteOptionClear rows =
     (if length rows \<le> VOTE_OPTION_DEFAULT_NUMBER then rows
      else case filter (\<lambda>i. rows ! i = []) [0..<length rows] of
             _ # i # _ \<Rightarrow> remove_at i rows
           | _ \<Rightarrow> rows)"

text \<open>
  \<open>toRemove\<close> is a truth value, which the loop compares as the number 1: at most one row is
  removed, whatever the number of rows.
\<close>

definition clear_rows :: "vote_rows \<Rightarrow> vote_rows" where
  "clear_rows rows =
     (let toRemove = (length rows > VOTE_OPTION_DEFAULT_NUMBER);
          rows = (if toRemove then fold (\<lambda>i. butlast) [0..<1 :: nat] rows else rows)
      in map (\<lambda>_. []) rows)"

text \<open>What a user does to the rows: editing a row, or its clear link.\<close>

datatype row_event = Edit nat js_string | Clear nat

definition row_step :: "row_event \<Rightarrow> vote_rows \<Rightarrow> vote_rows" where
  "row_step ev rows =
     (case ev of
        Edit i v \<Rightarrow> if i < length rows then onVoteOptionKeyUp i (rows[i := v]) else rows
      | Clear i \<Rightarrow> if i < length rows then onVoteOptionClear (rows[i := []]) else rows)"

definition rows_ok :: "vote_rows \<Rightarrow> bool" where
  "rows_ok rows \<longleftrightarrow> VOTE_OPTION_DEFAULT_NUMBER \<le> length rows \<and> length rows \<le> VOTE_OPTION_MAX_NUMBER"

lemmas vote_limits = VOTE_OPTION_MAX_NUMBER_def VOTE_OPTION_DEFAULT_NUMBER_def

lemma length_remove_at: "i < length xs \<Longrightarrow> length (remove_at i xs) = length xs - 1"
  by (simp add: remove_at_def min_def)

lemma find_in: "List.find P xs = Some x \<Longrightarrow> x \<in> set xs \<and> P x"
  by (auto simp: find_Some_iff)

lemma length_remove_last_empty:
  "length (remove_last_empty rows) = length rows \<or> length (remove_last_empty rows) = length rows - 1"
proof (cases "List.find (\<lambda>i. rows ! i = []) (rev [0..<length rows])")
  case (Some i)
  then have "i < length rows" using find_in[OF Some] by simp
  then show ?thesis using Some by (simp add: remove_last_empty_def length_remove_at)
qed (simp add: remove_last_empty_def)

lemma rows_ok_key_up: "rows_ok rows \<Longrightarrow> rows_ok (onVoteOptionKeyUp i rows)"
  using length_remove_last_empty[of rows]
  by (auto simp: onVoteOptionKeyUp_def rows_ok_def vote_limits)

lemma rows_ok_clear:
  assumes "rows_ok rows" shows "rows_ok (onVoteOptionClear rows)"
proof (cases "filter (\<lambda>i. rows ! i = []) [0..<length rows]" rule: remdups_adj.cases)
  case (3 a i js)
  have "i \<in> set (filter (\<lambda>i. rows ! i = []) [0..<length rows])" unfolding 3 by simp
  then have "i < length rows" by simp
  then show ?thesis using assms 3 by (auto simp: onVoteOptionClear_def rows_ok_def length_remove_at vote_limits)
qed (use assms in \<open>auto simp: onVoteOptionClear_def\<close>)

lemma rows_ok_step: "rows_ok rows \<Longrightarrow> rows_ok (row_step ev rows)"
  using rows_ok_key_up rows_ok_clear by (cases ev) (auto simp: row_step_def rows_ok_def)

lemma clear_rows_eq: "clear_rows rows = replicate (if 3 < length rows then length rows - 1 else length rows) []"
  by (simp add: clear_rows_def vote_limits map_replicate_const)

lemma rows_ok_clear_rows: "rows_ok rows \<Longrightarrow> rows_ok (clear_rows rows)"
  by (auto simp: clear_rows_eq rows_ok_def vote_limits)

section \<open>Properties\<close>

text \<open>
  C19: From the three rows of the page, no sequence of edits and clears leaves fewer than three
  or more than six rows, and this holds also after the rows are reset.
\<close>

theorem rows_stay_in_bounds:
  "let rows = fold row_step evs (replicate VOTE_OPTION_DEFAULT_NUMBER [])
   in VOTE_OPTION_DEFAULT_NUMBER \<le> length rows \<and> length rows \<le> VOTE_OPTION_MAX_NUMBER \<and>
      VOTE_OPTION_DEFAULT_NUMBER \<le> length (clear_rows rows) \<and> length (clear_rows rows) \<le> VOTE_OPTION_MAX_NUMBER"
proof -
  have "rows_ok rows \<Longrightarrow> rows_ok (fold row_step evs rows)" for rows
    by (induction evs arbitrary: rows) (simp_all add: rows_ok_step)
  moreover have "rows_ok (replicate VOTE_OPTION_DEFAULT_NUMBER [])" by (simp add: rows_ok_def vote_limits)
  ultimately show ?thesis using rows_ok_clear_rows by (auto simp: rows_ok_def Let_def)
qed

text \<open>
  After a row was filled in there is an empty row for the next option, unless all six rows
  exist already.
\<close>

lemma key_up_offers_empty_row:
  assumes "rows_ok rows" and "i < length rows" and "v \<noteq> []"
  shows "let rows' = row_step (Edit i v) rows
         in length rows' = VOTE_OPTION_MAX_NUMBER \<or> (\<exists>j<length rows'. j \<noteq> i \<and> rows' ! j = [])"
proof -
  let ?r = "rows[i := v]"
  show ?thesis
  proof (cases "other_row_empty i ?r \<or> length ?r = VOTE_OPTION_MAX_NUMBER")
    case True
    then have "row_step (Edit i v) rows = ?r"
      using assms by (auto simp: row_step_def onVoteOptionKeyUp_def)
    then show ?thesis using True by (auto simp: other_row_empty_def Let_def)
  next
    case False
    then have "row_step (Edit i v) rows = ?r @ [[]]"
      using assms by (simp add: row_step_def onVoteOptionKeyUp_def)
    moreover have "(?r @ [[]]) ! length rows = []" by (simp add: nth_append)
    ultimately show ?thesis using assms(2) by (auto simp: Let_def intro!: exI[of _ "length rows"])
  qed
qed

section \<open>Resetting\<close>

text \<open>
  Resetting a vote empties all rows but takes away only one of the rows that were added, so
  after a reset a page with five or six rows keeps more than the three it started with.
\<close>

lemma clear_rows_removes_one:
  "clear_rows rows = replicate (if length rows > VOTE_OPTION_DEFAULT_NUMBER then length rows - 1 else length rows) []"
  by (simp add: clear_rows_eq vote_limits)

end
