(* ===== verification/Page.thy ===== *)
theory Page
  imports Messages MessageCache VoteRows
begin

text \<open>
  The message page (message.js). Its state is one record: the local store, the polling state,
  the two lists of messages, the unread counter, the input line with what is attached to it,
  the inputs of a new vote, and what waits for the server or a timer. Handlers and callbacks are
  functions on this record. The step relation lets the user, the server and the timers act in
  any order; the invariants hold in every reachable state.
\<close>

section \<open>State\<close>

text \<open>
  A poll that was sent: whether it is asked for only once, the type the caller gave (a
  callback of a timer gives none) and the type that was sent. A timer restarts the polling
  loop with a type, after a delay in milliseconds.
\<close>

type_synonym poll = "bool \<times> poll_type option \<times> poll_type"
type_synonym poll_timer = "poll_type option \<times> nat"

text \<open>
  A message the user sent: what the code makes of the inputs, the message it refers to and the
  file that goes with it. The results of a new vote are an object with the options as keys.
\<close>

datatype talk_json =
    Vote_Topic_Json js_string "js_string \<rightharpoonup> nat" js_string bool
  | Vote_Of_Me_Json "js_string list" js_string
  | Plain_Text_Json js_string

type_synonym talk_request = "talk_json \<times> js_string option \<times> js_string option"

record page =
  cached_list :: "message list"
  wait_for_input :: bool
  current_mode :: poll_type
  auto_load :: bool
  adaptive_delay :: nat
  chat_auto_scroll :: bool
  first_history_list :: bool
  unread :: nat
  refresh_disabled :: bool
  loading :: bool
  popup_unread :: bool
  lazy_rows :: "message list"
  eager_rows :: "(js_string \<times> js_string) list"
  lazy_panel :: bool
  eager_panel :: bool
  talk_function :: bool
  talk_expanded :: bool
  input_talk :: js_string
  placeholder :: ui_text
  share_preview :: bool
  share_file :: "js_string option"
  reference_preview :: bool
  reference_id :: "js_string option"
  is_broadcast :: "bool option"
  vote_choice :: "js_string list option"
  vote_field_set :: "js_string option"
  vote_container :: bool
  vote_topic :: js_string
  vote_inputs :: vote_rows
  vote_multi :: bool
  confirm_clear :: bool
  remind_clear :: bool
  toasts :: "ui_text list"
  talk_disabled :: bool
  disabled_votes :: "js_string option list"
  unchecked_votes :: "js_string list"
  previews_read :: nat
  talks :: "talk_request list"
  polls :: "poll list"
  timers :: "poll_timer list"

section \<open>Polling state\<close>

text \<open>\<open>autoLoad\<close> sets the flag if it is given one, and then adjusts the page, also as a getter.\<close>

definition autoLoad :: "bool option \<Rightarrow> page \<Rightarrow> page" where
  "autoLoad b p =
     (let p = (case b of Some b \<Rightarrow> p\<lparr>auto_load := b\<rparr> | None \<Rightarrow> p)
      in if auto_load p then p\<lparr>loading := True, refresh_disabled := True\<rparr>
         else (let p = p\<lparr>loading := False\<rparr>
               in if current_mode p = LAZY then p\<lparr>refresh_disabled := False\<rparr> else p))"

definition next_delay :: "bool \<Rightarrow> nat \<Rightarrow> nat" where
  "next_delay ok d = (if ok then 0 else min (max d 1000 * 2) 20000)"

definition completeOk :: "bool \<Rightarrow> page \<Rightarrow> page" where
  "completeOk ok p = p\<lparr>adaptive_delay := next_delay ok (adaptive_delay p)\<rparr>"

definition toast :: "ui_text \<Rightarrow> page \<Rightarrow> page" where
  "toast t p = p\<lparr>toasts := toasts p @ [t]\<rparr>"

section \<open>The lists of messages\<close>

text \<open>
  \<open>appendBlog\<close> puts the rows on top of the list one after the other, so the newest is first. Rows
  of the system identifier are left out. How a row looks is the subject of the theory of the
  message rows; here a row stands for its message.
\<close>

definition visible_messages :: "message list \<Rightarrow> message list" where
  "visible_messages ms = filter (\<lambda>m. idBytes m \<noteq> system_id) ms"

definition appendBlog :: "message list \<Rightarrow> page \<Rightarrow> page" where
  "appendBlog ms p =
     (let beginIndex = max 0 (int (length ms) - maxKeep);
          ms = js_slice ms beginIndex (int (length ms))
      in p\<lparr>first_history_list := False, lazy_rows := rev (visible_messages ms) @ lazy_rows p\<rparr>)"

definition clearAndFillLazyList :: "page \<Rightarrow> page" where
  "clearAndFillLazyList p = appendBlog (lastestList (cached_list p) 40) (p\<lparr>lazy_rows := []\<rparr>)"

definition appendChat :: "message list \<Rightarrow> page \<Rightarrow> page" where
  "appendChat ms p =
     p\<lparr>eager_rows := eager_rows p @ map (\<lambda>m. (userName m, plainText m)) (visible_messages ms)\<rparr>"

definition clearAndFillEagerList :: "page \<Rightarrow> page" where
  "clearAndFillEagerList p =
     (let scroll = chat_auto_scroll p;
          p = appendChat (lastestList (cached_list p) 100) (p\<lparr>eager_rows := [], chat_auto_scroll := False\<rparr>)
      in p\<lparr>chat_auto_scroll := scroll\<rparr>)"

definition loadMessagesResults :: "message list \<Rightarrow> page \<Rightarrow> page" where
  "loadMessagesResults ms p =
     (let p = p\<lparr>cached_list := cache_append (cached_list p) ms\<rparr>
      in if current_mode p = EAGER then appendChat ms p
         else (let p = autoLoad None p
               in if auto_load p then autoLoad (Some False) (appendBlog ms p)
                  else if 0 < unread p + length ms then
                    p\<lparr>popup_unread := True, unread := unread p + length ms\<rparr>
                  else p))"

section \<open>The polling loop\<close>

text \<open>
  \<open>poll_impl\<close> is the inner function of \<open>polling\<close>: it sends a poll if the user is logged in, and
  otherwise tries again later unless it was called for one poll only. What the server's answer
  does is in \<open>poll_success\<close> and \<open>poll_error\<close>; both end in \<open>complete\<close>, which keeps the loop going.
\<close>

definition poll_impl :: "bool \<Rightarrow> bool \<Rightarrow> poll_type option \<Rightarrow> page \<Rightarrow> page" where
  "poll_impl logined onlyOnce inner p =
     (let this = (case inner of None \<Rightarrow> current_mode p | Some t \<Rightarrow> t)
      in if logined then p\<lparr>polls := polls p @ [(onlyOnce, inner, this)]\<rparr>
         else if \<not> onlyOnce then
           (let p = completeOk False p in p\<lparr>timers := timers p @ [(Some this, adaptive_delay p)]\<rparr>)
         else p)"

definition poll_complete :: "bool \<Rightarrow> page \<Rightarrow> page" where
  "poll_complete onlyOnce p =
     (if \<not> onlyOnce then p\<lparr>timers := timers p @ [(None, adaptive_delay p)]\<rparr> else p)"

text \<open>The answer of the server: messages, or the code of an error.\<close>

datatype poll_answer = Messages "message list" | Refused js_string

definition error_text :: "js_string \<Rightarrow> ui_text" where
  "error_text code =
     (if code \<in> {lit ''ID_CLASH'', lit ''FILE_TOO_LARGE''} then I18n ''ERROR_DETAIL'' [Verbatim code]
      else I18n ''UNKNOWN_ERROR_MESSAGE'' [])"

text \<open>
  \<open>displayError\<close> starts a new login when the server says that there is none; the login is the
  subject of the theory of the session, here it leaves the page as it is.
\<close>

definition displayError :: "js_string \<Rightarrow> page \<Rightarrow> page" where
  "displayError code p = (if code = lit ''NOT_LOGIN'' then p else toast (error_text code) p)"

definition poll_success :: "poll_type option \<Rightarrow> poll_answer \<Rightarrow> page \<Rightarrow> page" where
  "poll_success inner answer p =
     (case answer of
        Messages ms \<Rightarrow>
          (let p = completeOk True p;
               p = (if ms \<noteq> [] then loadMessagesResults ms p
                    else if inner \<noteq> Some REFRESH then autoLoad (Some False) p
                    else p)
           in p\<lparr>loading := False\<rparr>)
      | Refused code \<Rightarrow> (displayError code (completeOk False p))\<lparr>loading := False\<rparr>)"

text \<open>A request that was aborted when the page was left is not an error.\<close>

definition poll_error :: "bool \<Rightarrow> page \<Rightarrow> page" where
  "poll_error aborted p =
     (if aborted then p
      else (let p = completeOk False p
            in if 10000 < adaptive_delay p then toast (Verbatim (lit ''network error'')) p else p))"

section \<open>Handlers of the list part\<close>

text \<open>
  The counter of unread messages is not reset when the refresh button shows the list: the
  selector \<open>buttonRefresh\<close> lacks the character that makes it the identifier of an element.
\<close>

definition onButtonRefreshClicked :: "bool \<Rightarrow> page \<Rightarrow> page" where
  "onButtonRefreshClicked logined p =
     (if 0 < unread p then clearAndFillLazyList p
      else poll_impl logined True (Some REFRESH) (autoLoad (Some True) p))"

definition onButtonViewClicked :: "page \<Rightarrow> page" where
  "onButtonViewClicked p = (clearAndFillLazyList p)\<lparr>unread := 0, popup_unread := False\<rparr>"

definition onButtonLaterClicked :: "page \<Rightarrow> page" where
  "onButtonLaterClicked p = p\<lparr>popup_unread := False\<rparr>"

definition onButtonPollSwitchClicked :: "bool \<Rightarrow> page \<Rightarrow> page" where
  "onButtonPollSwitchClicked logined p =
     (let hideEager = (current_mode p = EAGER);
          p = p\<lparr>current_mode := (if hideEager then LAZY else EAGER), unread := 0, loading := True\<rparr>;
          p = (if hideEager then
                 clearAndFillLazyList
                   (p\<lparr>eager_panel := False, talk_function := True, refresh_disabled := False,
                      talk_expanded := False, lazy_panel := True\<rparr>)
               else
                 clearAndFillEagerList (poll_impl logined True (Some EAGER)
                   (p\<lparr>eager_rows := [], eager_panel := True, talk_function := False, refresh_disabled := True,
                      talk_expanded := True, lazy_panel := False\<rparr>)))
      in p\<lparr>loading := False\<rparr>)"

section \<open>The input line\<close>

definition clearVoteTopicInput :: "page \<Rightarrow> page" where
  "clearVoteTopicInput p = p\<lparr>vote_topic := [], vote_inputs := clear_rows (vote_inputs p)\<rparr>"

definition makeInputTalkReadyState :: "page \<Rightarrow> page" where
  "makeInputTalkReadyState p =
     (let p = p\<lparr>wait_for_input := True, input_talk := [], share_preview := False,
                placeholder := I18n ''INPUT_TALK_WAIT_TEXT'' [], share_file := None, reference_preview := False,
                reference_id := None, is_broadcast := None, vote_choice := None, vote_field_set := None\<rparr>
      in if vote_container p then (clearVoteTopicInput p)\<lparr>vote_container := False\<rparr> else p)"

definition onInputTalk :: "page \<Rightarrow> page" where
  "onInputTalk p = (if wait_for_input p then p\<lparr>input_talk := []\<rparr> else p)"

definition onHasInput :: "page \<Rightarrow> page" where
  "onHasInput p = p\<lparr>wait_for_input := False\<rparr>"

definition presetInputTalk :: "js_string \<Rightarrow> page \<Rightarrow> page" where
  "presetInputTalk s p = p\<lparr>talk_expanded := True, input_talk := s, wait_for_input := False\<rparr>"

text \<open>
  Broadcasting the message of a row: \<open>broadcast\<close>, \<open>sender\<close> and \<open>shown\<close> are what
  \<open>extractPlainTextMessage\<close> reads from the row, \<open>inner\<close> the identifier stored with it.
\<close>

definition broadcast_text :: "bool \<Rightarrow> js_string \<Rightarrow> js_string \<Rightarrow> js_string" where
  "broadcast_text broadcast sender shown =
     js_slice (if broadcast then lit ''||@'' @ sender @ lit '' '' @ shown else TEXT_BROADCAST) 0 (int BROADCAST_LIMIT)"

definition onLinkBroadcastClicked ::
    "bool \<Rightarrow> js_string \<Rightarrow> js_string \<Rightarrow> js_string option \<Rightarrow> page \<Rightarrow> page" where
  "onLinkBroadcastClicked broadcast sender shown inner p =
     presetInputTalk (broadcast_text broadcast sender shown)
       (p\<lparr>reference_preview := True, reference_id := inner, is_broadcast := Some broadcast\<rparr>)"

text \<open>Choosing options of a vote attaches them and the vote to the input line (global.js).\<close>

definition onVoteOptionRadioChecked :: "bool \<Rightarrow> js_string \<Rightarrow> (js_string \<times> bool) list \<Rightarrow> js_string \<Rightarrow>
    js_string \<Rightarrow> page \<Rightarrow> page" where
  "onVoteOptionRadioChecked radio this inputs bareIdBytes tempId p =
     (let chosen = (if radio then [this] else map fst (filter snd inputs));
          p = p\<lparr>reference_preview := True, reference_id := Some bareIdBytes, vote_field_set := Some tempId,
                vote_choice := Some chosen\<rparr>
      in (presetInputTalk [] p)\<lparr>placeholder := I18n ''TEXT_VOTE_OF_ME_COMMENT'' (map Verbatim chosen)\<rparr>)"

definition onButtonVoteClicked :: "page \<Rightarrow> page" where
  "onButtonVoteClicked p =
     p\<lparr>vote_container := True, placeholder := I18n ''INPUT_VOTE_TOPIC_DESCRIPTION_WAIT_TEXT'' []\<rparr>"

definition inputVoteHasContent :: "page \<Rightarrow> bool" where
  "inputVoteHasContent p \<longleftrightarrow>
     vote_topic p \<noteq> [] \<or> list_ex (\<lambda>v. v \<noteq> []) (vote_inputs p) \<or> input_talk p \<noteq> []"

definition onButtonClearClicked :: "page \<Rightarrow> page" where
  "onButtonClearClicked p =
     (let isVoteTopicState = vote_container p; isVoteOfMeState = (vote_choice p \<noteq> None)
      in if input_talk p = [] \<and> \<not> isVoteTopicState \<and> \<not> isVoteOfMeState then p
         else if isVoteTopicState \<and> \<not> inputVoteHasContent p then makeInputTalkReadyState p
         else if remind_clear p then p\<lparr>confirm_clear := True\<rparr>
         else makeInputTalkReadyState p)"

text \<open>Giving up a vote also clears what was chosen in its field set, named by a temporary identifier.\<close>

definition onButtonConfirmClearClicked :: "page \<Rightarrow> page" where
  "onButtonConfirmClearClicked p =
     (let p = (case vote_field_set p of
                 Some i \<Rightarrow> p\<lparr>unchecked_votes := unchecked_votes p @ [i]\<rparr>
               | None \<Rightarrow> p)
      in (makeInputTalkReadyState p)\<lparr>confirm_clear := False\<rparr>)"

definition onButtonClearAndNotRemindClicked :: "page \<Rightarrow> page" where
  "onButtonClearAndNotRemindClicked p = onButtonConfirmClearClicked (p\<lparr>remind_clear := False\<rparr>)"

definition onButtonCancelClearClicked :: "page \<Rightarrow> page" where
  "onButtonCancelClearClicked p = p\<lparr>confirm_clear := False\<rparr>"

section \<open>Start\<close>

text \<open>The state before the page is created, and \<open>pagecreate\<close>.\<close>

definition initial_page :: page where
  "initial_page =
     \<lparr>cached_list = [], wait_for_input = True, current_mode = LAZY, auto_load = True, adaptive_delay = 0,
      chat_auto_scroll = True, first_history_list = True, unread = 0, refresh_disabled = False, loading = False,
      popup_unread = False, lazy_rows = [], eager_rows = [], lazy_panel = True, eager_panel = True,
      talk_function = True, talk_expanded = False, input_talk = [], placeholder = Verbatim [],
      share_preview = True, share_file = None, reference_preview = False, reference_id = None,
      is_broadcast = None, vote_choice = None, vote_field_set = None, vote_container = True, vote_topic = [],
      vote_inputs = replicate VOTE_OPTION_DEFAULT_NUMBER [], vote_multi = False, confirm_clear = False,
      remind_clear = True, toasts = [], talk_disabled = False, disabled_votes = [],
      unchecked_votes = [],      previews_read = 0, talks = [], polls = [], timers = []\<rparr>"

definition page_create :: "bool \<Rightarrow> page \<Rightarrow> page" where
  "page_create logined p =
     (let p = p\<lparr>vote_container := False, unread := 0, placeholder := I18n ''INPUT_TALK_WAIT_TEXT'' []\<rparr>;
          p = (if wait_for_input p then makeInputTalkReadyState p else p);
          p = p\<lparr>share_preview := False, eager_panel := False\<rparr>
      in poll_impl logined False (Some HISTORY) (autoLoad (Some True) p))"

end
