(* ===== verification/Sprintf.thy ===== *)
theory Sprintf
  imports Complex_Main Prelude
begin

text \<open>
  The formatter jquery.sprintf.js, through which the client builds nearly all the HTML it shows.
  The format is read by a loop with a small state (the flags of the conversion it is in); the
  model is that loop, one step per character. Numbers are exact rationals. A conversion
  that the client does not use and the model does not follow (exponents, vectors, widths taken
  from arguments, a fraction where an integer is printed) is the exception \<open>Unmodelled\<close>.

  The theorem for the client says what the templates of html_format.js rely on: a format with
  only plain conversions is its pieces with the arguments in between.
\<close>

section \<open>Values and the state of the loop\<close>

datatype arg = Undefined | Str js_string | Num rat

datatype format_error = Thrown js_string | Unmodelled

record flags =
  f_short :: bool
  f_long :: bool
  f_long_long :: bool
  f_plus :: bool
  f_space :: bool
  f_hash :: bool
  f_zero :: bool
  f_minus :: bool
  width :: nat
  precision :: nat

record format_state =
  result :: js_string
  index :: nat
  current_index :: int
  flags :: flags
  in_operator :: bool
  in_precision :: bool
  fixed :: bool

definition no_flags :: flags where
  "no_flags = \<lparr>f_short = False, f_long = False, f_long_long = False, f_plus = False, f_space = False, f_hash = False,
     f_zero = False, f_minus = False, width = 0, precision = 0\<rparr>"

definition start_state :: format_state where
  "start_state = \<lparr>result = [], index = 0, current_index = 0, flags = no_flags, in_operator = False,
     in_precision = False, fixed = False\<rparr>"

section \<open>Numbers as text\<close>

fun radix_digits :: "nat \<Rightarrow> nat \<Rightarrow> js_string" where
  "radix_digits b n =
     (if b \<le> 1 then [] else
      (if n < b then [] else radix_digits b (n div b)) @
      [if n mod b < 10 then of_nat (48 + n mod b) else of_nat (87 + n mod b)])"

declare radix_digits.simps [simp del]

definition int_string :: "nat \<Rightarrow> int \<Rightarrow> js_string" where
  "int_string b x = (if x < 0 then lit ''-'' else []) @ radix_digits b (nat \<bar>x\<bar>)"

definition pad_front :: "nat \<Rightarrow> js_string \<Rightarrow> js_string" where
  "pad_front k s = replicate (k - length s) 48 @ s"

definition toFixed :: "nat \<Rightarrow> rat \<Rightarrow> js_string" where
  "toFixed f x =
     (let n = nat \<lfloor>\<bar>x\<bar> * 10 ^ f + 1 / 2\<rfloor>
      in (if x < 0 then lit ''-'' else []) @ radix_digits 10 (n div 10 ^ f) @
         (if f = 0 then [] else lit ''.'' @ pad_front f (radix_digits 10 (n mod 10 ^ f))))"

definition upper_case :: "code_unit \<Rightarrow> code_unit" where
  "upper_case c = (if 97 \<le> c \<and> c \<le> 122 then c - 32 else c)"

definition is_integer :: "rat \<Rightarrow> bool" where
  "is_integer x \<longleftrightarrow> of_int \<lfloor>x\<rfloor> = x"

section \<open>One conversion\<close>

text \<open>The conversions that the model follows.\<close>

datatype conversion = Conv_c | Conv_s | Conv_d | Conv_u | Conv_o | Conv_x | Conv_b | Conv_B | Conv_f | Conv_X

definition conversion_of :: "code_unit \<Rightarrow> conversion option" where
  "conversion_of ch =
     (if ch = of_char (CHR ''c'') then Some Conv_c
      else if ch = of_char (CHR ''s'') then Some Conv_s
      else if ch = of_char (CHR ''d'') \<or> ch = of_char (CHR ''i'') \<or> ch = of_char (CHR ''D'') then Some Conv_d
      else if ch = of_char (CHR ''u'') \<or> ch = of_char (CHR ''U'') then Some Conv_u
      else if ch = of_char (CHR ''o'') \<or> ch = of_char (CHR ''O'') then Some Conv_o
      else if ch = of_char (CHR ''x'') then Some Conv_x
      else if ch = of_char (CHR ''b'') then Some Conv_b
      else if ch = of_char (CHR ''B'') then Some Conv_B
      else if ch = of_char (CHR ''f'') \<or> ch = of_char (CHR ''F'') then Some Conv_f
      else if ch = of_char (CHR ''X'') then Some Conv_X
      else None)"

text \<open>The letters \<open>D\<close>, \<open>U\<close> and \<open>O\<close> also set the flag for long integers.\<close>

definition sets_long :: "code_unit \<Rightarrow> bool" where
  "sets_long ch \<longleftrightarrow> ch = of_char (CHR ''D'') \<or> ch = of_char (CHR ''U'') \<or> ch = of_char (CHR ''O'')"

text \<open>The ranges that the length flags impose. The letter \<open>f\<close> has the range of the signed ones.\<close>

definition limit_signed :: "flags \<Rightarrow> rat \<Rightarrow> rat" where
  "limit_signed fl x =
     (let top = (if f_short fl then 32767 else if f_long fl then 2147483647 else 9223372036854775807)
      in if x \<ge> top then top else if x \<le> - top - 1 then - top - 1 else x)"

definition limit_unsigned :: "flags \<Rightarrow> rat \<Rightarrow> rat" where
  "limit_unsigned fl x =
     (let x = (if x < 0 then \<bar>x\<bar> - 1 else x);
          top = (if f_short fl then 65535 else if f_long fl then 4294967295 else 18446744073709551615)
      in if x \<ge> top then top else x)"

definition limited :: "conversion \<Rightarrow> flags \<Rightarrow> rat \<Rightarrow> rat" where
  "limited ty fl x =
     (if f_short fl \<or> f_long fl \<or> f_long_long fl then
        (case ty of
           Conv_d \<Rightarrow> limit_signed fl x
         | Conv_f \<Rightarrow> limit_signed fl x
         | Conv_u \<Rightarrow> limit_unsigned fl x
         | Conv_o \<Rightarrow> limit_unsigned fl x
         | Conv_x \<Rightarrow> limit_unsigned fl x
         | Conv_X \<Rightarrow> limit_unsigned fl x
         | Conv_b \<Rightarrow> limit_unsigned fl x
         | Conv_B \<Rightarrow> limit_unsigned fl x
         | _ \<Rightarrow> x)
      else x)"

definition convert :: "conversion \<Rightarrow> flags \<Rightarrow> rat \<Rightarrow> format_error + js_string" where
  "convert ty fl x =
     (case ty of
        Conv_f \<Rightarrow> Inr (toFixed (if precision fl \<noteq> 0 then precision fl else 6) x)
      | _ \<Rightarrow>
          if \<not> is_integer x then Inl Unmodelled
          else (let i = \<lfloor>x\<rfloor> in
            Inr (case ty of
               Conv_c \<Rightarrow> [of_int i]
             | Conv_o \<Rightarrow> int_string 8 i
             | Conv_x \<Rightarrow> int_string 16 i
             | Conv_X \<Rightarrow> map upper_case (int_string 16 i)
             | Conv_b \<Rightarrow> int_string 2 i
             | Conv_B \<Rightarrow> int_string 2 i
             | _ \<Rightarrow> int_string 10 i)))"

definition sign_prefix :: "conversion \<Rightarrow> flags \<Rightarrow> rat \<Rightarrow> js_string" where
  "sign_prefix ty fl x =
     (if f_hash fl \<and> 1 \<le> \<bar>x\<bar> \<and> ty \<in> {Conv_o, Conv_x, Conv_X, Conv_b, Conv_B} then
        (case ty of Conv_o \<Rightarrow> lit ''0'' | Conv_b \<Rightarrow> lit ''0b'' | Conv_B \<Rightarrow> lit ''0B'' | _ \<Rightarrow> lit ''0x'')
      else if f_space fl \<and> 0 < x \<and> ty \<in> {Conv_d, Conv_f} then lit '' ''
      else if f_plus fl \<and> 0 < x \<and> ty \<in> {Conv_d, Conv_f} then lit ''+''
      else [])"

text \<open>
  Filling up to the width. With both flags \<open>0\<close> and \<open>-\<close> the filling is blanks in front.
\<close>

definition fill_up :: "flags \<Rightarrow> js_string \<Rightarrow> js_string \<Rightarrow> js_string" where
  "fill_up fl prefix s =
     (let fill = replicate (width fl - (length s + length prefix)) (if f_zero fl \<and> \<not> f_minus fl then 48 else 32)
      in prefix @ (if f_minus fl \<and> \<not> f_zero fl then s @ fill else fill @ s))"

definition sprintf_format :: "conversion \<Rightarrow> arg \<Rightarrow> flags \<Rightarrow> format_error + js_string" where
  "sprintf_format ty v fl =
     (case v of
        Undefined \<Rightarrow> Inr (if ty = Conv_s then [] else lit ''0'')
      | Str s \<Rightarrow> if ty = Conv_s then Inr (fill_up fl [] s) else Inl Unmodelled
      | Num x \<Rightarrow>
          (let x = limited ty fl x
           in bind_ok (convert ty fl x) (\<lambda>s. Inr (fill_up fl (sign_prefix ty fl x) s))))"

section \<open>The loop over the format\<close>

definition digit :: "code_unit \<Rightarrow> bool" where
  "digit c \<longleftrightarrow> 48 \<le> c \<and> c \<le> 57"

text \<open>\<open>parseInt\<close> of the rest of the format, which starts with a digit.\<close>

definition parse_digits :: "js_string \<Rightarrow> nat" where
  "parse_digits s = fold (\<lambda>c n. 10 * n + (unat c - 48)) (takeWhile digit s) 0"

definition get_arg :: "arg list \<Rightarrow> int \<Rightarrow> arg" where
  "get_arg args i = (if 0 \<le> i \<and> i < int (length args) then args ! nat i else Undefined)"

text \<open>
  A digit inside a conversion: \<open>n\<close> is the number, \<open>used\<close> the length of its decimal text without
  leading zeros, \<open>nxt\<close> the character after it. The result says how many characters are consumed.
\<close>

definition set_zero :: "code_unit \<Rightarrow> flags \<Rightarrow> flags" where
  "set_zero ch fl = (if ch = 48 then fl\<lparr>f_zero := True\<rparr> else fl)"

definition number_step :: "arg list \<Rightarrow> js_string \<Rightarrow> format_state \<Rightarrow> format_error + (format_state \<times> nat)" where
  "number_step args rest st =
     (let num = parse_digits rest; used = length (radix_digits 10 num);
          st = st\<lparr>flags := set_zero (hd rest) (flags st)\<rparr>
      in if take 1 (drop used rest) = lit ''$'' then
           (if length args < num then Inl (Thrown (lit ''out of bound''))
            else Inr (st\<lparr>fixed := True, current_index := int num - 1\<rparr>, used + 1))
         else if in_precision st then
           Inr (st\<lparr>flags := (flags st)\<lparr>precision := num\<rparr>, in_precision := False\<rparr>, used)
         else Inr (st\<lparr>flags := (flags st)\<lparr>width := num\<rparr>\<rparr>, used))"

definition modifier :: "code_unit \<Rightarrow> format_state \<Rightarrow> (format_error + format_state)" where
  "modifier ch st =
     (let fl = flags st in
      if ch = of_char (CHR '' '') then Inr (st\<lparr>flags := fl\<lparr>f_space := True\<rparr>\<rparr>)
      else if ch = of_char (CHR ''-'') then Inr (st\<lparr>flags := fl\<lparr>f_minus := True\<rparr>\<rparr>)
      else if ch = of_char (CHR ''+'') then Inr (st\<lparr>flags := fl\<lparr>f_plus := True\<rparr>\<rparr>)
      else if ch = of_char (CHR ''#'') then Inr (st\<lparr>flags := fl\<lparr>f_hash := True\<rparr>\<rparr>)
      else if ch = of_char (CHR ''.'') then Inr (st\<lparr>in_precision := True\<rparr>)
      else if ch = of_char (CHR ''l'') then
        Inr (st\<lparr>flags := fl\<lparr>f_long_long := f_long fl, f_long := \<not> f_long fl, f_short := False\<rparr>\<rparr>)
      else if ch = of_char (CHR ''q'') \<or> ch = of_char (CHR ''L'') then
        Inr (st\<lparr>flags := fl\<lparr>f_long_long := True, f_long := False, f_short := False\<rparr>\<rparr>)
      else if ch = of_char (CHR ''h'') then
        Inr (st\<lparr>flags := fl\<lparr>f_short := True, f_long := False, f_long_long := False\<rparr>\<rparr>)
      else if ch \<in> set (lit ''*v@egEG'') then Inl Unmodelled
      else Inr st)"

definition finish_conversion :: "arg list \<Rightarrow> conversion \<Rightarrow> code_unit \<Rightarrow> format_state \<Rightarrow> format_error + format_state" where
  "finish_conversion args ty ch st =
     (let fl = (if sets_long ch then (flags st)\<lparr>f_long := True\<rparr> else flags st)
      in bind_ok (sprintf_format ty (get_arg args (current_index st)) fl) (\<lambda>s.
         let i = (if fixed st then index st else Suc (index st))
         in Inr (st\<lparr>result := result st @ s, index := i, current_index := int i, flags := no_flags,
                    in_operator := False, in_precision := False, fixed := False\<rparr>)))"

text \<open>One character, with the rest of the format after it; the result has the number of characters used.\<close>

definition format_step :: "arg list \<Rightarrow> js_string \<Rightarrow> format_state \<Rightarrow> format_error + (format_state \<times> nat)" where
  "format_step args rest st =
     (let ch = hd rest in
      if in_operator st then
        (case conversion_of ch of
           Some ty \<Rightarrow> bind_ok (finish_conversion args ty ch st) (\<lambda>st. Inr (st, 1))
         | None \<Rightarrow>
             if digit ch then number_step args rest st
             else bind_ok (modifier ch st) (\<lambda>st. Inr (st, 1)))
      else if ch = of_char (CHR ''%'') then
        (if take 1 (drop 1 rest) = lit ''%'' then Inr (st\<lparr>result := result st @ lit ''%''\<rparr>, 2)
         else Inr (st\<lparr>in_operator := True\<rparr>, 1))
      else Inr (st\<lparr>result := result st @ [ch]\<rparr>, 1))"

function format_loop :: "arg list \<Rightarrow> js_string \<Rightarrow> format_state \<Rightarrow> format_error + js_string" where
  "format_loop args rest st =
     (if rest = [] then Inr (result st)
      else (case format_step args rest st of
              Inl e \<Rightarrow> Inl e
            | Inr (st', used) \<Rightarrow> format_loop args (drop (max used 1) rest) st'))"
  by auto
termination by (relation "measure (\<lambda>(args, rest, st). length rest)") auto

declare format_loop.simps [simp del]

definition sprintf :: "js_string \<Rightarrow> arg list \<Rightarrow> format_error + js_string" where
  "sprintf format args = format_loop args format start_state"

section \<open>Formats with plain conversions\<close>

text \<open>
  A template is a list of pieces of text with a plain conversion between two of them; woven, it has
  an argument in each of these places, and nothing where arguments are missing.
\<close>

fun template :: "js_string list \<Rightarrow> js_string" where
  "template [] = []"
| "template [p] = p"
| "template (p # q # ps) = p @ lit ''%s'' @ template (q # ps)"

fun weave :: "js_string list \<Rightarrow> js_string list \<Rightarrow> js_string" where
  "weave [] args = []"
| "weave [p] args = p"
| "weave (p # q # ps) [] = p @ weave (q # ps) []"
| "weave (p # q # ps) (a # args) = p @ a @ weave (q # ps) args"

definition percent :: code_unit where
  "percent = of_char (CHR ''%'')"

definition plain :: "js_string \<Rightarrow> bool" where
  "plain s \<longleftrightarrow> percent \<notin> set s"

lemma loop_Nil [simp]: "format_loop args [] st = Inr (result st)"
  by (subst format_loop.simps) simp

lemma loop_plain_char:
  assumes "\<not> in_operator st" and "percent \<noteq> c"
  shows "format_loop args (c # rest) st = format_loop args rest (st\<lparr>result := result st @ [c]\<rparr>)"
  using assms by (subst format_loop.simps) (simp add: format_step_def percent_def)

lemma loop_plain:
  assumes "\<not> in_operator st" and "plain p"
  shows "format_loop args (p @ rest) st = format_loop args rest (st\<lparr>result := result st @ p\<rparr>)"
  using assms
  by (induction p arbitrary: st) (simp_all add: plain_def loop_plain_char)

definition at_arg :: "nat \<Rightarrow> js_string \<Rightarrow> format_state" where
  "at_arg i r = start_state\<lparr>result := r, index := i, current_index := int i\<rparr>"

lemma at_arg_simps [simp]:
  "result (at_arg i r) = r" "\<not> in_operator (at_arg i r)"
  "(at_arg i r)\<lparr>result := r'\<rparr> = at_arg i r'"
  by (simp_all add: at_arg_def start_state_def)

lemma start_at_arg: "start_state = at_arg 0 []"
  by (simp add: at_arg_def start_state_def)

lemma fill_up_none [simp]: "fill_up no_flags p s = p @ s"
  by (simp add: fill_up_def no_flags_def)

text \<open>The text of an argument that \<open>%s\<close> can show: a text, nothing, or a whole number.\<close>

definition text_arg :: "arg \<Rightarrow> bool" where
  "text_arg a \<longleftrightarrow> (case a of Num x \<Rightarrow> is_integer x | _ \<Rightarrow> True)"

definition arg_text :: "arg \<Rightarrow> js_string" where
  "arg_text a = (case a of Undefined \<Rightarrow> [] | Str s \<Rightarrow> s | Num x \<Rightarrow> int_string 10 \<lfloor>x\<rfloor>)"

lemma text_arg_Str [simp]: "text_arg (Str s)" "arg_text (Str s) = s"
  by (simp_all add: text_arg_def arg_text_def)

lemma text_arg_nat [simp]: "text_arg (Num (of_nat n))" "arg_text (Num (of_nat n)) = int_string 10 (int n)"
  by (simp_all add: text_arg_def arg_text_def is_integer_def)

definition shown :: "arg list \<Rightarrow> nat \<Rightarrow> js_string" where
  "shown args i = (if i < length args then arg_text (args ! i) else [])"

lemma format_plain_arg:
  assumes "list_all text_arg args"
  shows "sprintf_format Conv_s (get_arg args (int i)) no_flags = Inr (shown args i)"
proof (cases "i < length args")
  case True
  then have "text_arg (args ! i)" using assms by (simp add: list_all_length)
  then show ?thesis using True
    by (cases "args ! i")
      (simp_all add: sprintf_format_def get_arg_def shown_def text_arg_def arg_text_def limited_def convert_def sign_prefix_def
        fill_up_def no_flags_def Let_def)
qed (simp add: sprintf_format_def get_arg_def shown_def)

lemma loop_string_conversion:
  assumes "list_all text_arg args"
  shows "format_loop args (lit ''%s'' @ rest) (at_arg i r) = format_loop args rest (at_arg (Suc i) (r @ shown args i))"
proof -
  let ?st = "(at_arg i r)\<lparr>in_operator := True\<rparr>"
  have "format_loop args (lit ''%s'' @ rest) (at_arg i r) = format_loop args (115 # rest) ?st"
    by (subst format_loop.simps) (simp add: format_step_def)
  also have "\<dots> = format_loop args rest (at_arg (Suc i) (r @ shown args i))"
  proof -
    have ty: "conversion_of 115 = Some Conv_s" "\<not> sets_long 115" by (simp_all add: conversion_of_def sets_long_def)
    have fl: "flags ?st = no_flags" "current_index ?st = int i" "index ?st = i" "\<not> fixed ?st" "result ?st = r"
      by (simp_all add: at_arg_def start_state_def)
    have "finish_conversion args Conv_s 115 ?st = Inr (at_arg (Suc i) (r @ shown args i))"
      unfolding finish_conversion_def fl ty Let_def
      by (simp add: fl ty format_plain_arg assms) (simp add: at_arg_def start_state_def no_flags_def)
    then show ?thesis by (subst format_loop.simps) (simp add: format_step_def ty)
  qed
  finally show ?thesis .
qed

lemma weave_step:
  "weave (p # q # ps) (drop i (map arg_text args)) = p @ shown args i @ weave (q # ps) (drop (Suc i) (map arg_text args))"
  by (cases "i < length args") (simp_all add: shown_def Cons_nth_drop_Suc[symmetric] drop_map)

lemma loop_template:
  assumes "list_all text_arg args"
  shows "list_all plain ps \<Longrightarrow>
   format_loop args (template ps) (at_arg i r) = Inr (r @ weave ps (drop i (map arg_text args)))"
proof (induction ps arbitrary: i r rule: template.induct)
  case (2 p)
  then show ?case using loop_plain[of "at_arg i r" p _ "[]"] by simp
next
  case (3 p q ps)
  then show ?case by (simp add: loop_plain loop_string_conversion assms weave_step del: lit_Cons weave.simps(3,4))
qed simp

lemma length_fill_up: "width fl \<le> length (fill_up fl p s)" "length p + length s \<le> length (fill_up fl p s)"
  "width fl \<le> length p + length s \<Longrightarrow> fill_up fl p s = p @ s"
  by (auto simp: fill_up_def Let_def)

lemma sprintf_args_woven:
  "list_all plain ps \<Longrightarrow> list_all text_arg args \<Longrightarrow> sprintf (template ps) args = Inr (weave ps (map arg_text args))"
  using loop_template[of args ps 0 "[]"] by (simp add: sprintf_def start_at_arg)

lemma sprintf_woven: "list_all plain ps \<Longrightarrow> sprintf (template ps) (map Str args) = Inr (weave ps args)"
  using sprintf_args_woven[of ps "map Str args"] by (simp add: list_all_iff comp_def)

section \<open>Properties\<close>

text \<open>
  C27: A format whose conversions are all plain ones gives its pieces of text with the
  arguments between them, unchanged and in order; an argument that is missing is left out. The
  formatter does not escape anything.
\<close>

theorem sprintf_template:
  assumes "list_all plain ps"
  shows "sprintf (template ps) (map Str args) = Inr (weave ps args)"
  using assms by (rule sprintf_woven)

theorem sprintf_template_witness:
  "sprintf (lit ''<p>%s</p>'') [Str (lit ''a<b'')] = Inr (lit ''<p>a<b</p>'')"
  using sprintf_template[of "[lit ''<p>'', lit ''</p>'']" "[lit ''a<b'']"] by (simp add: plain_def percent_def)

section \<open>Widths and precisions\<close>

text \<open>A conversion fills its text up to the width and never cuts it.\<close>

lemma conversion_fills_width:
  assumes "sprintf_format ty v fl = Inr s" and "v \<noteq> Undefined"
  shows "width fl \<le> length s"
proof (cases v)
  case (Num x)
  then obtain t where "s = fill_up fl (sign_prefix ty fl (limited ty fl x)) t"
    using assms(1) by (auto simp: sprintf_format_def Let_def bind_ok_Inr_iff)
  then show ?thesis by (simp add: length_fill_up)
qed (use assms in \<open>auto simp: sprintf_format_def length_fill_up split: if_splits\<close>)

text \<open>
  The precision 0 is not obeyed: it counts as a missing one, so a number is shown with six
  decimals.
\<close>

lemma zero_precision_ignored: "sprintf (lit ''%.0f'') [Num x] = Inr (toFixed 6 x)"
proof -
  have d: "digit 48" "conversion_of 48 = None" "conversion_of 46 = None" "\<not> digit 46" "conversion_of 102 = Some Conv_f"
    "\<not> sets_long 102" by (simp_all add: digit_def conversion_of_def sets_long_def)
  have n: "parse_digits [48, 102] = 0" "radix_digits 10 0 = [48]"
    by (simp_all add: parse_digits_def digit_def radix_digits.simps[of 10 0])
  show ?thesis
    unfolding sprintf_def
    by (simp add: format_loop.simps format_step_def d modifier_def number_step_def n finish_conversion_def
        start_state_def no_flags_def set_zero_def get_arg_def sprintf_format_def limited_def convert_def
        sign_prefix_def fill_up_def)
qed

end
