(* ===== verification/Talk.thy ===== *)
theory Talk
  imports Page Sprintf
begin

text \<open>
  Sending a message (message.js): the check of a new vote, the talk button with its three kinds
  of messages, the answer of the server, the file to share. A
  handler that throws leaves the page as it is.
\<close>

datatype js_error = Reference_Error string

section \<open>The check of a new vote\<close>

text \<open>
  The topic is tested with the element in place of its value: the test sees the text
  \<open>[object Object]\<close>. Of each option the length of the element is added, which is one. Two of
  the names the code uses on its error paths are not declared anywhere.
\<close>

definition checkValidVoteTopic :: "js_string \<Rightarrow> vote_rows \<Rightarrow> js_error + js_string option" where
  "checkValidVoteTopic topic rows =
     (if isEmptyString (lit ''[object Object]'') then Inr (Some ERROR_VOTE_TOPIC_INVALID)
      else (let valid = filter (\<lambda>v. \<not> isEmptyString v) rows;
                validOption = length valid;
                totalLength = length topic + validOption
            in if validOption \<le> 1 then Inl (Reference_Error ''ERROR_VOTE_OPTION_INVALID'')
               else if 65500 \<le> totalLength then Inl (Reference_Error ''sprintf'')
               else Inr None))"

definition vote_results :: "vote_rows \<Rightarrow> js_string \<rightharpoonup> nat" where
  "vote_results rows = fold (\<lambda>v m. if isEmptyString v then m else m(v \<mapsto> 0)) rows Map.empty"

section \<open>The talk button\<close>

definition send_talk :: "talk_json \<Rightarrow> page \<Rightarrow> page" where
  "send_talk json p =
     (if reference_id p \<noteq> None \<and> \<not> verifyIdBytes (the (reference_id p)) then
        toast (I18n ''ERROR_REFERENCE_ID_BYTES'' []) p
      else p\<lparr>talks := talks p @ [(json, reference_id p, share_file p)], loading := True, talk_disabled := True\<rparr>)"

definition onButtonTalkClicked :: "page \<Rightarrow> js_error + page" where
  "onButtonTalkClicked p =
     (if vote_container p then
        bind_ok (checkValidVoteTopic (vote_topic p) (vote_inputs p)) (\<lambda>error.
          case error of
            Some code \<Rightarrow> Inr (displayError code p)
          | None \<Rightarrow> Inr (send_talk (Vote_Topic_Json (vote_topic p) (vote_results (vote_inputs p)) (input_talk p)
                      (vote_multi p)) p))
      else case vote_choice p of
        Some chosen \<Rightarrow>
          Inr (send_talk (Vote_Of_Me_Json chosen (input_talk p))
            (p\<lparr>disabled_votes := disabled_votes p @ [reference_id p]\<rparr>))
      | None \<Rightarrow>
          if wait_for_input p then Inr (toast (I18n ''TALK_SHOULD_NOT_EMPTY'' []) (p\<lparr>input_talk := []\<rparr>))
          else if isEmptyString (input_talk p) then Inr (toast (I18n ''TALK_SHOULD_NOT_EMPTY'' []) p)
          else Inr (send_talk (Plain_Text_Json (input_talk p)) p))"

text \<open>The answer to a message: success, or the code of an error.\<close>

definition talk_complete :: "page \<Rightarrow> page" where
  "talk_complete p = p\<lparr>loading := False, talk_disabled := False\<rparr>"

definition talk_success :: "bool \<Rightarrow> js_string option \<Rightarrow> page \<Rightarrow> page" where
  "talk_success logined refused p =
     (case refused of
        None \<Rightarrow>
          makeInputTalkReadyState
            (if current_mode p = LAZY then
               poll_impl logined True (Some REFRESH) (autoLoad (Some True) (toast (I18n ''TALK_SUCCESS_TEXT'' []) p))
             else p)
      | Some code \<Rightarrow> displayError code p)"

definition talk_error :: "page \<Rightarrow> page" where
  "talk_error p = toast (Verbatim (lit ''network error'')) p"

section \<open>Sharing a file\<close>

definition humanSizeFormat :: "nat \<Rightarrow> js_string" where
  "humanSizeFormat byteNumber =
     (if byteNumber < 1024 then radix_digits 10 byteNumber @ lit '' B''
      else case (if byteNumber < 1024 * 1024 then sprintf (lit ''%.1f K'') [Num (of_nat byteNumber / 1024)]
                 else sprintf (lit ''%.1f M'') [Num (of_nat byteNumber / 1024 / 1024)]) of
             Inr s \<Rightarrow> s
           | Inl _ \<Rightarrow> [])"

text \<open>A selected file: its name, size and type. The limit is unset before the first login.\<close>

type_synonym shared_file = "js_string \<times> nat \<times> js_string"

definition onFileShareChanged :: "nat option \<Rightarrow> shared_file list \<Rightarrow> page \<Rightarrow> page" where
  "onFileShareChanged fileUploadLimitByte files p =
     (case files of
        [] \<Rightarrow> p
      | (name, bytes, ty) # _ \<Rightarrow>
          if (case fileUploadLimitByte of None \<Rightarrow> False | Some limit \<Rightarrow> limit < bytes) then
            toast (I18n ''ERROR_FILE_TOO_LARGE''
              [Verbatim (humanSizeFormat bytes), Verbatim (humanSizeFormat (the fileUploadLimitByte))]) p
          else
            (let image = (take 5 ty = lit ''image'');
                 p = (if image then p\<lparr>previews_read := Suc (previews_read p), loading := True\<rparr> else p);
                 predefinedTalk = (if image then TALK_SHARE_IMAGE_MESSAGE else TALK_SHARE_MESSAGE) @ name;
                 p = (if wait_for_input p then p\<lparr>input_talk := predefinedTalk, wait_for_input := False\<rparr> else p)
             in p\<lparr>share_file := Some name\<rparr>))"

text \<open>The file reader has the image: the second half of \<open>loadShareImagePreview\<close>.\<close>

definition share_image_loaded :: "page \<Rightarrow> page" where
  "share_image_loaded p = p\<lparr>previews_read := previews_read p - 1, share_preview := True, loading := False\<rparr>"

text \<open>The hints in the option inputs; the last added one also tells the limit.\<close>

definition updateVoteOptionPlaceHolder :: "nat \<Rightarrow> ui_text list" where
  "updateVoteOptionPlaceHolder n =
     map (\<lambda>i. if i < VOTE_OPTION_DEFAULT_NUMBER \<or> i \<noteq> n - 1
              then I18n ''INPUT_VOTE_TOPIC_OPTION_WAIT_TEXT'' [Number (i + 1)]
              else I18n ''INPUT_VOTE_TOPIC_OPTION_WAIT_TEXT+INPUT_VOTE_TOPIC_OPTION_LIMIT_TEXT''
                     [Number (i + 1), Number VOTE_OPTION_MAX_NUMBER]) [0..<n]"

end
