(* ===== verification/PageRuns.thy ===== *)
theory PageRuns
  imports Talk
begin

text \<open>
  The message page as a state machine: the user acts on the inputs and buttons that are shown, the
  server answers requests in any order or not at all, and timers fire in any order. Every
  handler and callback of the theories of the page and of the talk button is a step. The invariants are proved for
  every reachable state; the polling theorems rest on them.
\<close>

section \<open>Steps\<close>

text \<open>
  \<open>logined\<close> is the state of the login, which may change between two steps. The refresh button
  is dead while it is disabled, and the talk button while a message is being sent.
\<close>

inductive page_step :: "bool \<Rightarrow> page \<Rightarrow> page \<Rightarrow> bool" for logined where
  poll_answered: "i < length (polls p) \<Longrightarrow> polls p ! i = (once, inner, sent) \<Longrightarrow>
     page_step logined p (poll_complete once (poll_success inner answer (p\<lparr>polls := remove_at i (polls p)\<rparr>)))"
| poll_failed: "i < length (polls p) \<Longrightarrow> polls p ! i = (once, inner, sent) \<Longrightarrow>
     page_step logined p (poll_complete once (poll_error aborted (p\<lparr>polls := remove_at i (polls p)\<rparr>)))"
| timer_fires: "i < length (timers p) \<Longrightarrow> timers p ! i = (inner, d) \<Longrightarrow>
     page_step logined p (poll_impl logined False inner (p\<lparr>timers := remove_at i (timers p)\<rparr>))"
| talk_answered: "i < length (talks p) \<Longrightarrow>
     page_step logined p (talk_complete (talk_success logined refused (p\<lparr>talks := remove_at i (talks p)\<rparr>)))"
| talk_failed: "i < length (talks p) \<Longrightarrow>
     page_step logined p (talk_complete (talk_error (p\<lparr>talks := remove_at i (talks p)\<rparr>)))"
| preview_loaded: "0 < previews_read p \<Longrightarrow> page_step logined p (share_image_loaded p)"
| refresh_clicked: "\<not> refresh_disabled p \<Longrightarrow> page_step logined p (onButtonRefreshClicked logined p)"
| view_clicked: "popup_unread p \<Longrightarrow> page_step logined p (onButtonViewClicked p)"
| later_clicked: "popup_unread p \<Longrightarrow> page_step logined p (onButtonLaterClicked p)"
| switch_clicked: "page_step logined p (onButtonPollSwitchClicked logined p)"
| talk_clicked: "\<not> talk_disabled p \<Longrightarrow> onButtonTalkClicked p = Inr p' \<Longrightarrow> page_step logined p p'"
| input_focused: "page_step logined p (onInputTalk p)"
| input_changed: "page_step logined p (onHasInput (p\<lparr>input_talk := s\<rparr>))"
| topic_changed: "page_step logined p (p\<lparr>vote_topic := s\<rparr>)"
| multi_changed: "page_step logined p (p\<lparr>vote_multi := b\<rparr>)"
| row_changed: "page_step logined p (p\<lparr>vote_inputs := row_step ev (vote_inputs p)\<rparr>)"
| vote_clicked: "page_step logined p (onButtonVoteClicked p)"
| clear_clicked: "page_step logined p (onButtonClearClicked p)"
| confirm_clicked: "confirm_clear p \<Longrightarrow> page_step logined p (onButtonConfirmClearClicked p)"
| not_remind_clicked: "confirm_clear p \<Longrightarrow> page_step logined p (onButtonClearAndNotRemindClicked p)"
| cancel_clicked: "confirm_clear p \<Longrightarrow> page_step logined p (onButtonCancelClearClicked p)"
| broadcast_clicked: "page_step logined p (onLinkBroadcastClicked broadcast sender content inner_id p)"
| option_chosen: "page_step logined p (onVoteOptionRadioChecked radio this inputs i tempId p)"
| file_chosen: "page_step logined p (onFileShareChanged limit files p)"

inductive reachable :: "page \<Rightarrow> bool" where
  created: "reachable (page_create logined initial_page)"
| step: "reachable p \<Longrightarrow> page_step logined p p' \<Longrightarrow> reachable p'"

section \<open>Invariants\<close>

definition mode_ok :: "page \<Rightarrow> bool" where
  "mode_ok p \<longleftrightarrow>
     current_mode p = LAZY \<and> lazy_panel p \<and> \<not> eager_panel p \<and> talk_function p \<and> (refresh_disabled p \<longrightarrow> auto_load p) \<or>
     current_mode p = EAGER \<and> \<not> lazy_panel p \<and> eager_panel p \<and> \<not> talk_function p \<and> refresh_disabled p \<and> unread p = 0"

definition delay_ok :: "nat \<Rightarrow> bool" where
  "delay_ok d \<longleftrightarrow> d = 0 \<or> 2000 \<le> d \<and> d \<le> 20000"

definition delays_ok :: "page \<Rightarrow> bool" where
  "delays_ok p \<longleftrightarrow> delay_ok (adaptive_delay p) \<and> (\<forall>t\<in>set (timers p). delay_ok (snd t))"

definition loops :: "page \<Rightarrow> nat" where
  "loops p = length (filter (\<lambda>q. \<not> fst q) (polls p)) + length (timers p)"

definition store_ok :: "page \<Rightarrow> bool" where
  "store_ok p \<longleftrightarrow> length (cached_list p) \<le> 100"

definition list_ok :: "page \<Rightarrow> bool" where
  "list_ok p \<longleftrightarrow> (\<forall>m\<in>set (lazy_rows p). idBytes m \<noteq> system_id)"

definition talk_ok :: "talk_request \<Rightarrow> bool" where
  "talk_ok r \<longleftrightarrow>
     (case fst (snd r) of None \<Rightarrow> True | Some i \<Rightarrow> verifyIdBytes i) \<and>
     (case fst r of
        Plain_Text_Json s \<Rightarrow> \<not> isEmptyString s
      | Vote_Topic_Json topic rs _ _ \<Rightarrow>
          dom rs \<noteq> {} \<and> (\<forall>v\<in>dom rs. \<not> isEmptyString v \<and> rs v = Some 0) \<and> length topic < 65500
      | Vote_Of_Me_Json _ _ \<Rightarrow> True)"

definition talks_ok :: "page \<Rightarrow> bool" where
  "talks_ok p \<longleftrightarrow> list_all talk_ok (talks p)"

section \<open>What the operations leave alone\<close>

text \<open>
  The fields the invariants speak of, for the operations that change few of them.
\<close>

lemma toast_frame [frame_simps]:
  "cached_list (toast t p) = cached_list p" "current_mode (toast t p) = current_mode p" "auto_load (toast t p) = auto_load p"
  "adaptive_delay (toast t p) = adaptive_delay p" "unread (toast t p) = unread p" "refresh_disabled (toast t p) = refresh_disabled p"
  "lazy_rows (toast t p) = lazy_rows p" "lazy_panel (toast t p) = lazy_panel p" "eager_panel (toast t p) = eager_panel p"
  "talk_function (toast t p) = talk_function p" "vote_inputs (toast t p) = vote_inputs p" "talks (toast t p) = talks p"
  "polls (toast t p) = polls p" "timers (toast t p) = timers p"
  by (simp_all add: toast_def)

lemma autoLoad_frame [frame_simps]:
  "cached_list (autoLoad b p) = cached_list p" "current_mode (autoLoad b p) = current_mode p" "adaptive_delay (autoLoad b p) = adaptive_delay p"
  "unread (autoLoad b p) = unread p" "lazy_rows (autoLoad b p) = lazy_rows p" "lazy_panel (autoLoad b p) = lazy_panel p"
  "eager_panel (autoLoad b p) = eager_panel p" "talk_function (autoLoad b p) = talk_function p" "vote_inputs (autoLoad b p) = vote_inputs p"
  "talks (autoLoad b p) = talks p" "polls (autoLoad b p) = polls p" "timers (autoLoad b p) = timers p"
  by (cases b; simp add: autoLoad_def Let_def)+

lemma completeOk_frame [frame_simps]:
  "cached_list (completeOk ok p) = cached_list p" "current_mode (completeOk ok p) = current_mode p" "auto_load (completeOk ok p) = auto_load p"
  "unread (completeOk ok p) = unread p" "refresh_disabled (completeOk ok p) = refresh_disabled p" "lazy_rows (completeOk ok p) = lazy_rows p"
  "lazy_panel (completeOk ok p) = lazy_panel p" "eager_panel (completeOk ok p) = eager_panel p" "talk_function (completeOk ok p) = talk_function p"
  "vote_inputs (completeOk ok p) = vote_inputs p" "talks (completeOk ok p) = talks p" "polls (completeOk ok p) = polls p"
  "timers (completeOk ok p) = timers p"
  by (simp_all add: completeOk_def)

lemma appendBlog_frame [frame_simps]:
  "cached_list (appendBlog ms p) = cached_list p" "current_mode (appendBlog ms p) = current_mode p" "auto_load (appendBlog ms p) = auto_load p"
  "adaptive_delay (appendBlog ms p) = adaptive_delay p" "unread (appendBlog ms p) = unread p" "refresh_disabled (appendBlog ms p) = refresh_disabled p"
  "lazy_panel (appendBlog ms p) = lazy_panel p" "eager_panel (appendBlog ms p) = eager_panel p" "talk_function (appendBlog ms p) = talk_function p"
  "vote_inputs (appendBlog ms p) = vote_inputs p" "talks (appendBlog ms p) = talks p" "polls (appendBlog ms p) = polls p"
  "timers (appendBlog ms p) = timers p"
  by (simp_all add: appendBlog_def Let_def)

lemma fillLazy_frame [frame_simps]:
  "cached_list (clearAndFillLazyList p) = cached_list p" "current_mode (clearAndFillLazyList p) = current_mode p" "auto_load (clearAndFillLazyList p) = auto_load p"
  "adaptive_delay (clearAndFillLazyList p) = adaptive_delay p" "unread (clearAndFillLazyList p) = unread p" "refresh_disabled (clearAndFillLazyList p) = refresh_disabled p"
  "lazy_panel (clearAndFillLazyList p) = lazy_panel p" "eager_panel (clearAndFillLazyList p) = eager_panel p" "talk_function (clearAndFillLazyList p) = talk_function p"
  "vote_inputs (clearAndFillLazyList p) = vote_inputs p" "talks (clearAndFillLazyList p) = talks p" "polls (clearAndFillLazyList p) = polls p"
  "timers (clearAndFillLazyList p) = timers p"
  by (simp_all add: clearAndFillLazyList_def frame_simps)

lemma appendChat_frame [frame_simps]:
  "cached_list (appendChat ms p) = cached_list p" "current_mode (appendChat ms p) = current_mode p" "auto_load (appendChat ms p) = auto_load p"
  "adaptive_delay (appendChat ms p) = adaptive_delay p" "unread (appendChat ms p) = unread p" "refresh_disabled (appendChat ms p) = refresh_disabled p"
  "lazy_rows (appendChat ms p) = lazy_rows p" "lazy_panel (appendChat ms p) = lazy_panel p" "eager_panel (appendChat ms p) = eager_panel p"
  "talk_function (appendChat ms p) = talk_function p" "vote_inputs (appendChat ms p) = vote_inputs p" "talks (appendChat ms p) = talks p"
  "polls (appendChat ms p) = polls p" "timers (appendChat ms p) = timers p"
  by (simp_all add: appendChat_def)

lemma fillEager_frame [frame_simps]:
  "cached_list (clearAndFillEagerList p) = cached_list p" "current_mode (clearAndFillEagerList p) = current_mode p" "auto_load (clearAndFillEagerList p) = auto_load p"
  "adaptive_delay (clearAndFillEagerList p) = adaptive_delay p" "unread (clearAndFillEagerList p) = unread p" "refresh_disabled (clearAndFillEagerList p) = refresh_disabled p"
  "lazy_rows (clearAndFillEagerList p) = lazy_rows p" "lazy_panel (clearAndFillEagerList p) = lazy_panel p" "eager_panel (clearAndFillEagerList p) = eager_panel p"
  "talk_function (clearAndFillEagerList p) = talk_function p" "vote_inputs (clearAndFillEagerList p) = vote_inputs p" "talks (clearAndFillEagerList p) = talks p"
  "polls (clearAndFillEagerList p) = polls p" "timers (clearAndFillEagerList p) = timers p"
  by (simp_all add: clearAndFillEagerList_def Let_def frame_simps)

lemma displayError_frame [frame_simps]:
  "cached_list (displayError code p) = cached_list p" "current_mode (displayError code p) = current_mode p" "auto_load (displayError code p) = auto_load p"
  "adaptive_delay (displayError code p) = adaptive_delay p" "unread (displayError code p) = unread p" "refresh_disabled (displayError code p) = refresh_disabled p"
  "lazy_rows (displayError code p) = lazy_rows p" "lazy_panel (displayError code p) = lazy_panel p" "eager_panel (displayError code p) = eager_panel p"
  "talk_function (displayError code p) = talk_function p" "vote_inputs (displayError code p) = vote_inputs p" "talks (displayError code p) = talks p"
  "polls (displayError code p) = polls p" "timers (displayError code p) = timers p"
  by (simp_all add: displayError_def frame_simps)

lemma poll_impl_frame [frame_simps]:
  "cached_list (poll_impl logined once inner p) = cached_list p" "current_mode (poll_impl logined once inner p) = current_mode p" "auto_load (poll_impl logined once inner p) = auto_load p"
  "unread (poll_impl logined once inner p) = unread p" "refresh_disabled (poll_impl logined once inner p) = refresh_disabled p" "lazy_rows (poll_impl logined once inner p) = lazy_rows p"
  "lazy_panel (poll_impl logined once inner p) = lazy_panel p" "eager_panel (poll_impl logined once inner p) = eager_panel p" "talk_function (poll_impl logined once inner p) = talk_function p"
  "vote_inputs (poll_impl logined once inner p) = vote_inputs p" "talks (poll_impl logined once inner p) = talks p"
  by (simp_all add: poll_impl_def Let_def frame_simps)

lemma poll_complete_frame [frame_simps]:
  "cached_list (poll_complete once p) = cached_list p" "current_mode (poll_complete once p) = current_mode p" "auto_load (poll_complete once p) = auto_load p"
  "adaptive_delay (poll_complete once p) = adaptive_delay p" "unread (poll_complete once p) = unread p" "refresh_disabled (poll_complete once p) = refresh_disabled p"
  "lazy_rows (poll_complete once p) = lazy_rows p" "lazy_panel (poll_complete once p) = lazy_panel p" "eager_panel (poll_complete once p) = eager_panel p"
  "talk_function (poll_complete once p) = talk_function p" "vote_inputs (poll_complete once p) = vote_inputs p" "talks (poll_complete once p) = talks p"
  "polls (poll_complete once p) = polls p"
  by (simp_all add: poll_complete_def)

lemma ready_frame [frame_simps]:
  "cached_list (makeInputTalkReadyState p) = cached_list p" "current_mode (makeInputTalkReadyState p) = current_mode p" "auto_load (makeInputTalkReadyState p) = auto_load p"
  "adaptive_delay (makeInputTalkReadyState p) = adaptive_delay p" "unread (makeInputTalkReadyState p) = unread p" "refresh_disabled (makeInputTalkReadyState p) = refresh_disabled p"
  "lazy_rows (makeInputTalkReadyState p) = lazy_rows p" "lazy_panel (makeInputTalkReadyState p) = lazy_panel p" "eager_panel (makeInputTalkReadyState p) = eager_panel p"
  "talk_function (makeInputTalkReadyState p) = talk_function p" "talks (makeInputTalkReadyState p) = talks p" "polls (makeInputTalkReadyState p) = polls p"
  "timers (makeInputTalkReadyState p) = timers p"
  by (simp_all add: makeInputTalkReadyState_def clearVoteTopicInput_def Let_def)


lemma autoLoad_flags:
  "auto_load (autoLoad (Some b) p) = b" "auto_load (autoLoad None p) = auto_load p"
  "refresh_disabled (autoLoad (Some True) p)"
  "refresh_disabled (autoLoad (Some False) p) = (if current_mode p = LAZY then False else refresh_disabled p)"
  by (simp_all add: autoLoad_def Let_def)

lemma load_frame [frame_simps]:
  "current_mode (loadMessagesResults ms p) = current_mode p" "adaptive_delay (loadMessagesResults ms p) = adaptive_delay p" "lazy_panel (loadMessagesResults ms p) = lazy_panel p"
  "eager_panel (loadMessagesResults ms p) = eager_panel p" "talk_function (loadMessagesResults ms p) = talk_function p" "vote_inputs (loadMessagesResults ms p) = vote_inputs p"
  "talks (loadMessagesResults ms p) = talks p" "polls (loadMessagesResults ms p) = polls p" "timers (loadMessagesResults ms p) = timers p"
  by (simp_all add: loadMessagesResults_def Let_def frame_simps)

lemma success_frame [frame_simps]:
  "current_mode (poll_success inner answer p) = current_mode p" "lazy_panel (poll_success inner answer p) = lazy_panel p" "eager_panel (poll_success inner answer p) = eager_panel p"
  "talk_function (poll_success inner answer p) = talk_function p" "vote_inputs (poll_success inner answer p) = vote_inputs p" "talks (poll_success inner answer p) = talks p"
  "polls (poll_success inner answer p) = polls p" "timers (poll_success inner answer p) = timers p"
  by (cases answer; simp add: poll_success_def Let_def frame_simps)+

lemma error_frame [frame_simps]:
  "cached_list (poll_error aborted p) = cached_list p" "current_mode (poll_error aborted p) = current_mode p" "auto_load (poll_error aborted p) = auto_load p"
  "unread (poll_error aborted p) = unread p" "refresh_disabled (poll_error aborted p) = refresh_disabled p" "lazy_rows (poll_error aborted p) = lazy_rows p"
  "lazy_panel (poll_error aborted p) = lazy_panel p" "eager_panel (poll_error aborted p) = eager_panel p" "talk_function (poll_error aborted p) = talk_function p"
  "vote_inputs (poll_error aborted p) = vote_inputs p" "talks (poll_error aborted p) = talks p" "polls (poll_error aborted p) = polls p"
  "timers (poll_error aborted p) = timers p"
  by (simp_all add: poll_error_def Let_def frame_simps)

lemma send_frame [frame_simps]:
  "cached_list (send_talk json p) = cached_list p" "current_mode (send_talk json p) = current_mode p" "auto_load (send_talk json p) = auto_load p"
  "adaptive_delay (send_talk json p) = adaptive_delay p" "unread (send_talk json p) = unread p" "refresh_disabled (send_talk json p) = refresh_disabled p"
  "lazy_rows (send_talk json p) = lazy_rows p" "lazy_panel (send_talk json p) = lazy_panel p" "eager_panel (send_talk json p) = eager_panel p"
  "talk_function (send_talk json p) = talk_function p" "vote_inputs (send_talk json p) = vote_inputs p" "polls (send_talk json p) = polls p"
  "timers (send_talk json p) = timers p"
  by (simp_all add: send_talk_def frame_simps)

lemma complete_frame [frame_simps]:
  "cached_list (talk_complete p) = cached_list p" "current_mode (talk_complete p) = current_mode p" "auto_load (talk_complete p) = auto_load p"
  "adaptive_delay (talk_complete p) = adaptive_delay p" "unread (talk_complete p) = unread p" "refresh_disabled (talk_complete p) = refresh_disabled p"
  "lazy_rows (talk_complete p) = lazy_rows p" "lazy_panel (talk_complete p) = lazy_panel p" "eager_panel (talk_complete p) = eager_panel p"
  "talk_function (talk_complete p) = talk_function p" "vote_inputs (talk_complete p) = vote_inputs p" "talks (talk_complete p) = talks p"
  "polls (talk_complete p) = polls p" "timers (talk_complete p) = timers p"
  by (simp_all add: talk_complete_def)

text \<open>Handlers that touch only the inputs: everything else the invariants speak of is the core.\<close>

definition core :: "page \<Rightarrow> page" where
  "core p = initial_page\<lparr>cached_list := cached_list p, current_mode := current_mode p, auto_load := auto_load p,
     adaptive_delay := adaptive_delay p, unread := unread p, refresh_disabled := refresh_disabled p,
     lazy_rows := lazy_rows p, lazy_panel := lazy_panel p, eager_panel := eager_panel p,
     talk_function := talk_function p, talks := talks p, polls := polls p, timers := timers p\<rparr>"

lemma core_simps:
  "cached_list (core p) = cached_list p" "current_mode (core p) = current_mode p" "auto_load (core p) = auto_load p"
  "adaptive_delay (core p) = adaptive_delay p" "unread (core p) = unread p" "refresh_disabled (core p) = refresh_disabled p"
  "lazy_rows (core p) = lazy_rows p" "lazy_panel (core p) = lazy_panel p" "eager_panel (core p) = eager_panel p"
  "talk_function (core p) = talk_function p" "talks (core p) = talks p" "polls (core p) = polls p" "timers (core p) = timers p"
  by (simp_all add: core_def)

lemma core_ready: "core (makeInputTalkReadyState p) = core p"
  by (simp add: core_def frame_simps)

lemma core_input:
  "core (onInputTalk p) = core p" "core (onHasInput (p\<lparr>input_talk := s\<rparr>)) = core p"
  "core (p\<lparr>vote_topic := s\<rparr>) = core p" "core (p\<lparr>vote_multi := b\<rparr>) = core p" "core (p\<lparr>vote_inputs := r\<rparr>) = core p"
  "core (onButtonVoteClicked p) = core p" "core (onButtonClearClicked p) = core p"
  "core (onButtonConfirmClearClicked p) = core p" "core (onButtonCancelClearClicked p) = core p"
  "core (share_image_loaded p) = core p" "core (onButtonLaterClicked p) = core p"
  by (simp_all add: onInputTalk_def onHasInput_def onButtonVoteClicked_def onButtonClearClicked_def
      onButtonConfirmClearClicked_def onButtonCancelClearClicked_def share_image_loaded_def onButtonLaterClicked_def
      core_def frame_simps Let_def split: option.split)

lemma core_links:
  "core (onButtonClearAndNotRemindClicked p) = core p"
  "core (onLinkBroadcastClicked broadcast sender content inner_id p) = core p"
  "core (onVoteOptionRadioChecked radio this inputs i tempId p) = core p"
  by (simp_all add: onButtonClearAndNotRemindClicked_def onButtonConfirmClearClicked_def onLinkBroadcastClicked_def
      onVoteOptionRadioChecked_def presetInputTalk_def core_def frame_simps Let_def split: option.split)

lemma core_file: "core (onFileShareChanged limit files p) = core p"
  by (simp add: onFileShareChanged_def core_def frame_simps Let_def split: list.split)

section \<open>Each invariant, operation by operation\<close>

definition page_ok :: "page \<Rightarrow> bool" where
  "page_ok p \<longleftrightarrow> mode_ok p \<and> delays_ok p \<and> loops p = 1 \<and> store_ok p \<and> list_ok p \<and> talks_ok p"

lemmas page_ok_defs = page_ok_def mode_ok_def delays_ok_def loops_def store_ok_def list_ok_def talks_ok_def

lemma page_ok_core: "core p' = core p \<Longrightarrow> page_ok p' = page_ok p"
proof -
  assume "core p' = core p"
  moreover have "page_ok (core q) = page_ok q" for q by (simp only: page_ok_defs core_simps)
  ultimately show ?thesis by metis
qed

lemma delay_ok_next: "delay_ok d \<Longrightarrow> delay_ok (next_delay ok d)"
  by (auto simp: delay_ok_def next_delay_def)

subsection \<open>The store and the lists\<close>

lemma list_ok_append: "list_ok p \<Longrightarrow> list_ok (appendBlog ms p)"
  by (auto simp: list_ok_def appendBlog_def Let_def visible_messages_def)

lemma list_ok_fill: "list_ok (clearAndFillLazyList p)"
  by (auto simp: list_ok_def appendBlog_def Let_def visible_messages_def clearAndFillLazyList_def)

lemma list_ok_autoLoad: "list_ok (autoLoad b p) = list_ok p"
  by (simp add: list_ok_def frame_simps)

lemma list_ok_load:
  assumes "list_ok p" shows "list_ok (loadMessagesResults ms p)"
proof -
  have store: "list_ok (p\<lparr>cached_list := c\<rparr>)" "list_ok (appendChat ms q) = list_ok q"
    "list_ok (q\<lparr>popup_unread := b, unread := n\<rparr>) = list_ok q" for c q b n
    using assms by (simp_all add: list_ok_def frame_simps)
  show ?thesis
    by (simp add: loadMessagesResults_def Let_def store list_ok_autoLoad list_ok_append)
qed

lemma store_ok_load: "store_ok p \<Longrightarrow> store_ok (loadMessagesResults ms p)"
  using cache.append_bound[of "cached_list p" ms] by (auto simp: store_ok_def loadMessagesResults_def Let_def frame_simps)

subsection \<open>The mode\<close>

lemma mode_ok_autoLoad: "mode_ok p \<Longrightarrow> mode_ok (autoLoad b p)"
  by (cases b) (auto simp: mode_ok_def frame_simps autoLoad_def Let_def)

lemma mode_ok_appendBlog: "mode_ok p \<Longrightarrow> mode_ok (appendBlog ms p)"
  by (simp add: mode_ok_def frame_simps)

lemma mode_ok_load:
  assumes "mode_ok p" shows "mode_ok (loadMessagesResults ms p)"
proof (cases "current_mode p = EAGER")
  case True
  then show ?thesis using assms by (simp add: loadMessagesResults_def Let_def mode_ok_def frame_simps)
next
  case False
  define q where "q = autoLoad None (p\<lparr>cached_list := cache_append (cached_list p) ms\<rparr>)"
  have "mode_ok (p\<lparr>cached_list := c\<rparr>)" for c using assms by (simp add: mode_ok_def)
  then have q: "mode_ok q" by (simp add: q_def mode_ok_autoLoad)
  have l: "current_mode q = LAZY" using assms False by (auto simp: q_def mode_ok_def frame_simps)
  have m: "(current_mode (p\<lparr>cached_list := c\<rparr>) = EAGER) = False" for c using False by simp
  have e: "loadMessagesResults ms p = (if auto_load q then autoLoad (Some False) (appendBlog ms q)
      else if 0 < unread q + length ms then q\<lparr>popup_unread := True, unread := unread q + length ms\<rparr> else q)"
    unfolding loadMessagesResults_def Let_def q_def[symmetric] by (simp only: m if_False)
  have "mode_ok (q\<lparr>popup_unread := b, unread := n\<rparr>)" for b n using q l by (simp add: mode_ok_def)
  then show ?thesis unfolding e using q by (simp add: mode_ok_autoLoad mode_ok_appendBlog)
qed

subsection \<open>Answers of the server and timers\<close>

lemma length_filter_remove_at:
  assumes "i < length xs"
  shows "length (filter P xs) = length (filter P (remove_at i xs)) + (if P (xs ! i) then 1 else 0)"
proof -
  have "xs = take i xs @ xs ! i # drop (Suc i) xs" using assms by (rule id_take_nth_drop)
  then have "filter P xs = filter P (take i xs) @ filter P [xs ! i] @ filter P (drop (Suc i) xs)"
    by (metis append_Cons append_Nil filter_append)
  then show ?thesis by (simp add: remove_at_def)
qed

lemma set_remove_at: "set (remove_at i xs) \<subseteq> set xs"
  by (auto simp: remove_at_def dest: in_set_takeD in_set_dropD)

lemma success_delay:
  "adaptive_delay (poll_success inner answer p) = next_delay (\<exists>ms. answer = Messages ms) (adaptive_delay p)"
  by (cases answer) (simp_all add: poll_success_def Let_def frame_simps, simp_all add: completeOk_def)

lemma error_delay:
  "adaptive_delay (poll_error aborted p) = (if aborted then adaptive_delay p else next_delay False (adaptive_delay p))"
  by (simp add: poll_error_def Let_def frame_simps) (simp add: completeOk_def)

lemma success_lists:
  assumes "mode_ok p" "store_ok p" "list_ok p" "talks_ok p"
  shows "mode_ok (poll_success inner answer p)" "store_ok (poll_success inner answer p)"
    "list_ok (poll_success inner answer p)" "talks_ok (poll_success inner answer p)"
proof -
  have upd: "mode_ok (q\<lparr>loading := b\<rparr>) = mode_ok q" "store_ok (q\<lparr>loading := b\<rparr>) = store_ok q"
    "list_ok (q\<lparr>loading := b\<rparr>) = list_ok q" for q b
    by (simp_all add: mode_ok_def store_ok_def list_ok_def)
  have q: "mode_ok (completeOk ok p)" "store_ok (completeOk ok p)" "list_ok (completeOk ok p)" for ok
    using assms by (simp_all add: mode_ok_def store_ok_def list_ok_def frame_simps)
  have d: "mode_ok (displayError c r) = mode_ok r" "store_ok (displayError c r) = store_ok r"
    "list_ok (displayError c r) = list_ok r" for c r
    by (simp_all add: mode_ok_def store_ok_def list_ok_def frame_simps)
  have a: "store_ok (autoLoad b r) = store_ok r" for b r by (simp add: store_ok_def frame_simps)
  show "mode_ok (poll_success inner answer p)"
    by (cases answer) (simp_all add: poll_success_def Let_def upd q d mode_ok_load mode_ok_autoLoad)
  show "store_ok (poll_success inner answer p)"
    by (cases answer) (simp_all add: poll_success_def Let_def upd q d a store_ok_load)
  show "list_ok (poll_success inner answer p)"
    by (cases answer) (simp_all add: poll_success_def Let_def upd q d list_ok_load list_ok_autoLoad)
  show "talks_ok (poll_success inner answer p)" using assms(4) by (simp add: talks_ok_def frame_simps)
qed

lemma page_ok_complete:
  assumes "page_ok p" "i < length (polls p)" "polls p ! i = (once, inner, sent)"
    and "polls q = remove_at i (polls p)" "timers q = timers p" "delay_ok (adaptive_delay q)"
    and "mode_ok q" "store_ok q" "list_ok q" "talks_ok q"
  shows "page_ok (poll_complete once q)"
proof -
  let ?q = "poll_complete once q"
  have same: "mode_ok ?q" "store_ok ?q" "list_ok ?q" "talks_ok ?q"
    using assms(7-) by (simp_all add: mode_ok_def store_ok_def list_ok_def talks_ok_def frame_simps)
  have t: "timers ?q = timers p @ (if once then [] else [(None, adaptive_delay q)])"
    using assms(5) by (simp add: poll_complete_def)
  have "delays_ok ?q" using assms(1,6) by (auto simp: page_ok_def delays_ok_def t frame_simps)
  moreover have "loops ?q = loops p"
    using length_filter_remove_at[OF assms(2), of "\<lambda>q. \<not> fst q"] assms(3,4) by (simp add: loops_def t frame_simps)
  ultimately show ?thesis using same assms(1) by (simp add: page_ok_def)
qed

lemma page_ok_answered:
  assumes "page_ok p" "i < length (polls p)" "polls p ! i = (once, inner, sent)"
  shows "page_ok (poll_complete once (poll_success inner answer (p\<lparr>polls := remove_at i (polls p)\<rparr>)))"
proof (rule page_ok_complete[OF assms])
  let ?p = "p\<lparr>polls := remove_at i (polls p)\<rparr>"
  have ok: "mode_ok ?p" "store_ok ?p" "list_ok ?p" "talks_ok ?p"
    using assms(1) by (simp_all add: page_ok_defs)
  show "mode_ok (poll_success inner answer ?p)" "store_ok (poll_success inner answer ?p)"
    "list_ok (poll_success inner answer ?p)" "talks_ok (poll_success inner answer ?p)"
    by (rule success_lists[OF ok])+
  show "delay_ok (adaptive_delay (poll_success inner answer ?p))"
    using assms(1) by (simp add: success_delay delay_ok_next page_ok_def delays_ok_def)
qed (simp_all add: frame_simps)

lemma page_ok_failed:
  assumes "page_ok p" "i < length (polls p)" "polls p ! i = (once, inner, sent)"
  shows "page_ok (poll_complete once (poll_error aborted (p\<lparr>polls := remove_at i (polls p)\<rparr>)))"
  by (rule page_ok_complete[OF assms])
    (use assms(1) in \<open>simp_all add: page_ok_defs frame_simps error_delay delay_ok_next\<close>)

lemma page_ok_poll_once:
  assumes "page_ok p" shows "page_ok (poll_impl logined True inner p)"
proof -
  let ?q = "poll_impl logined True inner p"
  have "timers ?q = timers p" "adaptive_delay ?q = adaptive_delay p"
    "filter (\<lambda>q. \<not> fst q) (polls ?q) = filter (\<lambda>q. \<not> fst q) (polls p)"
    by (simp_all add: poll_impl_def Let_def)
  then show ?thesis using assms by (simp add: page_ok_defs frame_simps)
qed

lemma page_ok_timer:
  assumes "page_ok p" "i < length (timers p)"
  shows "page_ok (poll_impl logined False inner (p\<lparr>timers := remove_at i (timers p)\<rparr>))"
proof -
  let ?p = "p\<lparr>timers := remove_at i (timers p)\<rparr>"
  let ?q = "poll_impl logined False inner ?p"
  have len: "length (timers p) = Suc (length (remove_at i (timers p)))"
    using length_filter_remove_at[OF assms(2), of "\<lambda>_. True"] by simp
  have sub: "\<forall>t\<in>set (remove_at i (timers p)). delay_ok (snd t)"
    using assms(1) set_remove_at by (fastforce simp: page_ok_def delays_ok_def)
  have "delays_ok ?q"
    using assms(1) sub by (auto simp: poll_impl_def Let_def page_ok_def delays_ok_def completeOk_def delay_ok_next)
  moreover have "loops ?q = 1"
    using assms(1) len by (simp add: poll_impl_def Let_def page_ok_def loops_def frame_simps)
  ultimately show ?thesis using assms(1) by (simp add: page_ok_def mode_ok_def store_ok_def list_ok_def talks_ok_def frame_simps)
qed

subsection \<open>The buttons of the lists\<close>

lemma page_ok_upd:
  "page_ok (p\<lparr>loading := b\<rparr>) = page_ok p" "page_ok (p\<lparr>talk_disabled := b\<rparr>) = page_ok p"
  "page_ok (p\<lparr>popup_unread := b\<rparr>) = page_ok p" "page_ok (p\<lparr>confirm_clear := b\<rparr>) = page_ok p"
  "page_ok (p\<lparr>toasts := t\<rparr>) = page_ok p" "page_ok (p\<lparr>chat_auto_scroll := b\<rparr>) = page_ok p"
  "page_ok (p\<lparr>eager_rows := r\<rparr>) = page_ok p" "page_ok (p\<lparr>talk_expanded := b\<rparr>) = page_ok p"
  "page_ok (p\<lparr>input_talk := x\<rparr>) = page_ok p" "page_ok (p\<lparr>disabled_votes := v\<rparr>) = page_ok p"
  by (rule page_ok_core, simp add: core_def)+

lemma page_ok_toast: "page_ok (toast t p) = page_ok p" "page_ok (displayError c p) = page_ok p"
  by (rule page_ok_core, simp add: core_def frame_simps)+

lemma page_ok_autoLoad:
  assumes "page_ok p" shows "page_ok (autoLoad b p)"
  using assms mode_ok_autoLoad[of p b] by (simp add: page_ok_def delays_ok_def loops_def store_ok_def list_ok_def talks_ok_def frame_simps)

lemma page_ok_fillLazy: "page_ok p \<Longrightarrow> page_ok (clearAndFillLazyList p)"
  using list_ok_fill[of p] by (simp add: page_ok_def mode_ok_def delays_ok_def loops_def store_ok_def talks_ok_def frame_simps)

lemma page_ok_fillEager: "page_ok p \<Longrightarrow> page_ok (clearAndFillEagerList p)"
  by (simp add: page_ok_defs frame_simps)

lemma page_ok_refresh: "page_ok p \<Longrightarrow> page_ok (onButtonRefreshClicked logined p)"
  by (simp add: onButtonRefreshClicked_def page_ok_fillLazy page_ok_poll_once page_ok_autoLoad)

lemma page_ok_view: "page_ok p \<Longrightarrow> page_ok (onButtonViewClicked p)"
  using page_ok_fillLazy[of p] by (auto simp: onButtonViewClicked_def page_ok_defs)

lemma page_ok_switch:
  assumes "page_ok p" shows "page_ok (onButtonPollSwitchClicked logined p)"
proof (cases "current_mode p = EAGER")
  case True
  let ?q = "p\<lparr>current_mode := LAZY, unread := 0, loading := True, eager_panel := False, talk_function := True,
              refresh_disabled := False, talk_expanded := False, lazy_panel := True\<rparr>"
  have "page_ok ?q" using assms by (auto simp: page_ok_defs)
  moreover have "onButtonPollSwitchClicked logined p = (clearAndFillLazyList ?q)\<lparr>loading := False\<rparr>"
    using True by (simp add: onButtonPollSwitchClicked_def Let_def)
  ultimately show ?thesis by (simp add: page_ok_upd page_ok_fillLazy)
next
  case False
  let ?q = "p\<lparr>current_mode := EAGER, unread := 0, loading := True, eager_rows := [], eager_panel := True, talk_function := False,
              refresh_disabled := True, talk_expanded := True, lazy_panel := False\<rparr>"
  have "page_ok ?q" using assms by (auto simp: page_ok_defs)
  moreover have "onButtonPollSwitchClicked logined p =
      (clearAndFillEagerList (poll_impl logined True (Some EAGER) ?q))\<lparr>loading := False\<rparr>"
    using False by (simp add: onButtonPollSwitchClicked_def Let_def)
  ultimately show ?thesis by (simp add: page_ok_upd page_ok_fillEager page_ok_poll_once)
qed

subsection \<open>Sending\<close>

lemma page_ok_ready: "page_ok (makeInputTalkReadyState p) = page_ok p"
  by (rule page_ok_core) (rule core_ready)

lemma page_ok_talk_done:
  assumes "page_ok p" shows "page_ok (talk_complete (talk_success logined refused p))" "page_ok (talk_complete (talk_error p))"
proof -
  have c: "page_ok (talk_complete q) = page_ok q" for q by (rule page_ok_core) (simp add: core_def frame_simps)
  show "page_ok (talk_complete (talk_success logined refused p))"
    using assms by (cases refused) (simp_all add: c talk_success_def page_ok_ready page_ok_toast page_ok_poll_once page_ok_autoLoad)
  show "page_ok (talk_complete (talk_error p))"
    using assms by (simp add: c talk_error_def page_ok_toast)
qed

lemma page_ok_talks: "page_ok p \<Longrightarrow> page_ok (p\<lparr>talks := remove_at i (talks p)\<rparr>)"
  using set_remove_at[of i "talks p"] by (auto simp: page_ok_defs list_all_iff)

lemma page_ok_send:
  assumes "page_ok p" and "\<And>ref file. (case ref of None \<Rightarrow> True | Some i \<Rightarrow> verifyIdBytes i) \<Longrightarrow> talk_ok (json, ref, file)"
  shows "page_ok (send_talk json p)"
proof (cases "reference_id p \<noteq> None \<and> \<not> verifyIdBytes (the (reference_id p))")
  case True
  then show ?thesis using assms(1) by (auto simp add: send_talk_def page_ok_toast)
next
  case False
  have "talk_ok (json, reference_id p, share_file p)"
    using False by (intro assms(2)) (auto split: option.splits)
  moreover have "send_talk json p = p\<lparr>talks := talks p @ [(json, reference_id p, share_file p)], loading := True, talk_disabled := True\<rparr>"
    unfolding send_talk_def using False by (rule if_not_P)
  ultimately show ?thesis using assms(1) by (simp add: page_ok_defs)
qed

lemma vote_results:
  "vote_results rows v = (if v \<in> set rows \<and> \<not> isEmptyString v then Some 0 else None)"
proof -
  have "fold (\<lambda>v m. if isEmptyString v then m else m(v \<mapsto> 0)) rows m v =
      (if v \<in> set rows \<and> \<not> isEmptyString v then Some 0 else m v)" for m :: "js_string \<rightharpoonup> nat"
    by (induction rows arbitrary: m) auto
  then show ?thesis by (simp add: vote_results_def)
qed

lemma dom_vote_results: "dom (vote_results rows) = {v \<in> set rows. \<not> isEmptyString v}"
  by (auto simp: vote_results split: if_splits)

lemma object_text_not_empty: "\<not> isEmptyString (lit ''[object Object]'')"
  by (simp add: isEmptyString_def white_space_def)

lemma check_vote_cases:
  "checkValidVoteTopic topic rows =
     (let n = length (filter (\<lambda>v. \<not> isEmptyString v) rows)
      in if n \<le> 1 then Inl (Reference_Error ''ERROR_VOTE_OPTION_INVALID'')
         else if 65500 \<le> length topic + n then Inl (Reference_Error ''sprintf'') else Inr None)"
  by (simp add: checkValidVoteTopic_def object_text_not_empty Let_def del: lit_Cons)

lemma talk_ok_vote:
  assumes "checkValidVoteTopic topic rows = Inr None" and "case ref of None \<Rightarrow> True | Some i \<Rightarrow> verifyIdBytes i"
  shows "talk_ok (Vote_Topic_Json topic (vote_results rows) d b, ref, file)"
proof -
  have n: "1 < length (filter (\<lambda>v. \<not> isEmptyString v) rows)" "length topic < 65500"
    using assms(1) by (auto simp: check_vote_cases Let_def split: if_splits)
  then have "filter (\<lambda>v. \<not> isEmptyString v) rows \<noteq> []" by auto
  then have "dom (vote_results rows) \<noteq> {}" unfolding dom_vote_results by (auto simp: filter_empty_conv)
  moreover have "\<forall>v\<in>dom (vote_results rows). \<not> isEmptyString v \<and> vote_results rows v = Some 0"
    by (simp add: vote_results dom_vote_results)
  ultimately show ?thesis using assms(2) n(2) by (simp add: talk_ok_def del: dom_eq_empty_conv)
qed

lemma page_ok_talk:
  assumes "page_ok p" and "onButtonTalkClicked p = Inr p'"
  shows "page_ok p'"
proof (cases "vote_container p")
  case True
  then obtain e where e: "checkValidVoteTopic (vote_topic p) (vote_inputs p) = Inr e"
    and p': "p' = (case e of Some code \<Rightarrow> displayError code p
      | None \<Rightarrow> send_talk (Vote_Topic_Json (vote_topic p) (vote_results (vote_inputs p)) (input_talk p) (vote_multi p)) p)"
    using assms(2) by (auto simp: onButtonTalkClicked_def bind_ok_Inr_iff split: option.splits)
  show ?thesis
  proof (cases e)
    case None
    then show ?thesis using e p' assms(1) page_ok_send talk_ok_vote by simp
  qed (use p' assms(1) in \<open>simp add: page_ok_toast\<close>)
next
  case False
  show ?thesis
  proof (cases "vote_choice p")
    case (Some os)
    have "p' = send_talk (Vote_Of_Me_Json os (input_talk p)) (p\<lparr>disabled_votes := disabled_votes p @ [reference_id p]\<rparr>)"
      using assms(2) False Some by (simp add: onButtonTalkClicked_def)
    then show ?thesis using assms(1) by (simp add: page_ok_send page_ok_upd talk_ok_def)
  next
    case None
    then show ?thesis
      using assms False by (auto simp: onButtonTalkClicked_def page_ok_toast page_ok_upd page_ok_send talk_ok_def split: if_splits)
  qed
qed

section \<open>Reachable states\<close>

lemma page_ok_created: "page_ok (page_create logined initial_page)"
  by (simp add: page_create_def initial_page_def Let_def poll_impl_def autoLoad_def completeOk_def page_ok_defs
      makeInputTalkReadyState_def clearVoteTopicInput_def next_delay_def delay_ok_def)

lemma page_ok_step: "page_step logined p p' \<Longrightarrow> page_ok p \<Longrightarrow> page_ok p'"
proof (induction rule: page_step.induct)
  case talk_answered then show ?case by (intro page_ok_talk_done page_ok_talks)
next
  case talk_failed then show ?case by (intro page_ok_talk_done page_ok_talks)
next
  case talk_clicked then show ?case using page_ok_talk by blast
qed (simp_all add: page_ok_answered page_ok_failed page_ok_timer page_ok_refresh page_ok_view page_ok_switch
    page_ok_core[OF core_input(1)] page_ok_core[OF core_input(2)] page_ok_core[OF core_input(3)]
    page_ok_core[OF core_input(4)] page_ok_core[OF core_input(5)] page_ok_core[OF core_input(6)]
    page_ok_core[OF core_input(7)] page_ok_core[OF core_input(8)] page_ok_core[OF core_input(9)]
    page_ok_core[OF core_input(10)] page_ok_core[OF core_input(11)] page_ok_core[OF core_links(1)]
    page_ok_core[OF core_links(2)] page_ok_core[OF core_links(3)] page_ok_core[OF core_file])

lemma page_ok_reachable: "reachable p \<Longrightarrow> page_ok p"
  by (induction rule: reachable.induct) (auto intro: page_ok_created page_ok_step)

lemma load_stores: "cached_list (loadMessagesResults ms p) = cache_append (cached_list p) ms"
  by (simp add: loadMessagesResults_def Let_def frame_simps)

lemma answer_stores:
  "ms \<noteq> [] \<Longrightarrow> cached_list (poll_complete once (poll_success inner (Messages ms) p)) = cache_append (cached_list p) ms"
  by (simp add: poll_success_def Let_def load_stores frame_simps)

lemma answer_enables:
  assumes "mode_ok p" "current_mode p = LAZY" "ms \<noteq> []"
  shows "\<not> refresh_disabled (poll_complete once (poll_success inner (Messages ms) p))"
proof -
  let ?p = "(completeOk True p)\<lparr>cached_list := cache_append (cached_list p) ms\<rparr>"
  have dead: "refresh_disabled p \<longrightarrow> auto_load p" using assms(1,2) by (auto simp: mode_ok_def)
  have "\<not> refresh_disabled (loadMessagesResults ms (completeOk True p))"
    using assms(2,3) dead
    by (auto simp: loadMessagesResults_def Let_def frame_simps autoLoad_flags) (auto simp: autoLoad_def frame_simps)
  then show ?thesis using assms(3) by (simp add: poll_success_def Let_def frame_simps)
qed

lemma continuing_poll:
  assumes "page_ok p"
  obtains i inner sent where "i < length (polls p)" "polls p ! i = (False, inner, sent)"
  | inner d where "timers p = [(inner, d)]"
proof (cases "timers p")
  case Nil
  then have "filter (\<lambda>q. \<not> fst q) (polls p) \<noteq> []" using assms by (auto simp: page_ok_def loops_def)
  then obtain q where "q \<in> set (polls p)" "\<not> fst q" by (auto simp: filter_empty_conv)
  then obtain i where "i < length (polls p)" "polls p ! i = q" "\<not> fst q" by (auto simp: in_set_conv_nth)
  then show ?thesis using that(1) by (cases q) auto
next
  case (Cons t ts)
  then have "ts = []" using assms by (auto simp: page_ok_def loops_def)
  then show ?thesis using Cons that(2) by (cases t) auto
qed

section \<open>Properties\<close>



text \<open>
  C23: The two modes of the page exclude each other in every reachable state: with the chat the
  other list and the refresh button are off and nothing counts as unread; with the blog the refresh
  button is off only while a load is going on.
\<close>

theorem modes_exclude:
  assumes "reachable p"
  shows "current_mode p = LAZY \<and> lazy_panel p \<and> \<not> eager_panel p \<and> (\<not> refresh_disabled p \<or> auto_load p) \<or>
    current_mode p = EAGER \<and> eager_panel p \<and> \<not> lazy_panel p \<and> refresh_disabled p \<and> unread p = 0"
  using page_ok_reachable[OF assms] by (auto simp: page_ok_def mode_ok_def)

theorem modes_exclude_witness: "\<not> eager_panel (page_create True initial_page)"
  using modes_exclude[OF reachable.created[of True]] by (simp add: page_create_def initial_page_def Let_def
      poll_impl_def autoLoad_def makeInputTalkReadyState_def clearVoteTopicInput_def)





text \<open>
  C24: Failing polls back off exponentially: the waiting time after \<open>k\<close> failures in a row is
  \<open>2 ^ k\<close> seconds, at most 20, and the user is told from the fourth failure on.
\<close>

theorem polling_backs_off:
  assumes "adaptive_delay p = 0" and "toasts p = []"
  shows "adaptive_delay ((poll_error False ^^ k) p) = (if k = 0 then 0 else min 20000 (1000 * 2 ^ k)) \<and>
    length (toasts ((poll_error False ^^ k) p)) = k - 3"
proof (induction k)
  case (Suc k)
  let ?d = "adaptive_delay ((poll_error False ^^ k) p)"
  have d: "next_delay False ?d = min 20000 (1000 * 2 ^ Suc k)"
  proof (cases k)
    case (Suc n)
    define w :: nat where "w = 2 ^ n"
    have w: "1 \<le> w" by (simp add: w_def)
    have "?d = min 20000 (2000 * w)" using Suc.IH Suc by (simp add: w_def)
    then have "next_delay False ?d = min 20000 (4000 * w)" using w by (auto simp: next_delay_def min_def max_def)
    then show ?thesis by (simp add: w_def Suc)
  qed (use Suc in \<open>simp add: next_delay_def\<close>)
  have big: "10000 < min 20000 (1000 * 2 ^ Suc k :: nat) \<longleftrightarrow> 3 \<le> k"
  proof (cases "3 \<le> k")
    case True
    then have "(2 :: nat) ^ 4 \<le> 2 ^ Suc k" by (intro power_increasing) simp_all
    then show ?thesis using True by simp
  next
    case False
    then have "k = 0 \<or> k = 1 \<or> k = 2" by auto
    then show ?thesis using False by auto
  qed
  have t: "length (toasts (poll_error False q)) = length (toasts q) + (if 10000 < next_delay False (adaptive_delay q) then 1 else 0)" for q
    by (simp add: poll_error_def Let_def completeOk_def toast_def)
  let ?q = "(poll_error False ^^ k) p"
  have "adaptive_delay (poll_error False ?q) = min 20000 (1000 * 2 ^ Suc k)"
    unfolding error_delay d by simp
  moreover have "length (toasts (poll_error False ?q)) = Suc k - 3"
    unfolding t d big using Suc by (cases "3 \<le> k") auto
  ultimately show ?case by simp
qed (use assms in simp)

theorem polling_backs_off_witness: "length (toasts ((poll_error False ^^ 7) initial_page)) = 4"
  using polling_backs_off[of initial_page 7] by (simp add: initial_page_def)



text \<open>
  Resetting the input line leaves nothing behind: no text, no file, no reference, no vote; an
  open vote is closed and emptied, and what the server is still to answer is untouched.
\<close>

lemma ready_state_is_clean:
  "let q = makeInputTalkReadyState p
   in wait_for_input q \<and> input_talk q = [] \<and> share_file q = None \<and> \<not> share_preview q \<and> reference_id q = None \<and>
      \<not> reference_preview q \<and> is_broadcast q = None \<and> vote_choice q = None \<and> vote_field_set q = None \<and> \<not> vote_container q \<and>
      (if vote_container p then vote_topic q = [] \<and> (\<forall>v\<in>set (vote_inputs q). v = [])
       else vote_topic q = vote_topic p \<and> vote_inputs q = vote_inputs p) \<and>
      talks q = talks p \<and> polls q = polls p \<and> timers q = timers p"
  by (simp add: makeInputTalkReadyState_def clearVoteTopicInput_def Let_def clear_rows_eq)

text \<open>
  C26: The check of a new vote never reports an error: it accepts the vote, whatever the topic is,
  or it throws. It accepts exactly the votes with two filled options, equal ones counted
  twice, and a topic below the limit; a vote sent with two equal options has one choice.
\<close>

theorem vote_check_accepts_or_throws:
  "(checkValidVoteTopic topic rows = Inr None \<longleftrightarrow>
      2 \<le> length (filter (\<lambda>v. \<not> isEmptyString v) rows) \<and>
      length topic + length (filter (\<lambda>v. \<not> isEmptyString v) rows) < 65500) \<and>
   checkValidVoteTopic topic rows \<in> {Inr None, Inl (Reference_Error ''ERROR_VOTE_OPTION_INVALID''), Inl (Reference_Error ''sprintf'')} \<and>
   checkValidVoteTopic [] [[65], [65]] = Inr None \<and> dom (vote_results [[65], [65]]) = {[65]}"
proof -
  have a: "\<not> isEmptyString [65]" by (simp add: isEmptyString_def white_space_def)
  show ?thesis unfolding dom_vote_results by (auto simp: check_vote_cases Let_def a)
qed

end
