(* ===== verification/Json.thy ===== *)
theory Json
  imports Prelude
begin

text \<open>
  JSON as the client uses it: \<open>JSON.stringify\<close> of an object whose members are strings, and \<open>JSON.parse\<close> of any
  text. Numbers stay as their text. The parser is a recursive descent with fuel; one unit per
  nested value or member is used, so the length of the text is always enough.
\<close>

datatype json =
    JNull
  | JBool bool
  | JNumber js_string
  | JString js_string
  | JArray "json list"
  | JObject "(js_string \<times> json) list"

section \<open>Writing\<close>

definition hex_char :: "nat \<Rightarrow> code_unit" where
  "hex_char n = (if n < 10 then of_nat (48 + n) else of_nat (87 + n))"

definition quote_char :: "code_unit \<Rightarrow> js_string" where
  "quote_char c =
     (if c = 34 then [92, 34] else if c = 92 then [92, 92]
      else if c = 8 then [92, 98] else if c = 12 then [92, 102] else if c = 10 then [92, 110]
      else if c = 13 then [92, 114] else if c = 9 then [92, 116]
      else if unat c < 32 then [92, 117, 48, 48, hex_char (unat c div 16), hex_char (unat c mod 16)]
      else [c])"

definition quote :: "js_string \<Rightarrow> js_string" where
  "quote s = [34] @ concat (map quote_char s) @ [34]"

fun stringify_members :: "(js_string \<times> js_string) list \<Rightarrow> js_string" where
  "stringify_members [] = []"
| "stringify_members [(k, v)] = quote k @ [58] @ quote v"
| "stringify_members ((k, v) # m # ms) = quote k @ [58] @ quote v @ [44] @ stringify_members (m # ms)"

definition stringify :: "(js_string \<times> js_string) list \<Rightarrow> js_string" where
  "stringify ms = [123] @ stringify_members ms @ [125]"

section \<open>Reading\<close>

definition json_space :: "code_unit \<Rightarrow> bool" where
  "json_space c \<longleftrightarrow> c = 32 \<or> c = 9 \<or> c = 10 \<or> c = 13"

definition skip :: "js_string \<Rightarrow> js_string" where
  "skip s = dropWhile json_space s"

definition hex_value :: "code_unit \<Rightarrow> nat option" where
  "hex_value c =
     (if 48 \<le> unat c \<and> unat c \<le> 57 then Some (unat c - 48)
      else if 97 \<le> unat c \<and> unat c \<le> 102 then Some (unat c - 87)
      else if 65 \<le> unat c \<and> unat c \<le> 70 then Some (unat c - 55)
      else None)"

definition hex4 :: "code_unit \<Rightarrow> code_unit \<Rightarrow> code_unit \<Rightarrow> code_unit \<Rightarrow> code_unit option" where
  "hex4 a b c d =
     (case (hex_value a, hex_value b, hex_value c, hex_value d) of
        (Some a, Some b, Some c, Some d) \<Rightarrow> Some (of_nat (4096 * a + 256 * b + 16 * c + d))
      | _ \<Rightarrow> None)"

definition escaped :: "code_unit \<Rightarrow> code_unit option" where
  "escaped e =
     (if e = 34 \<or> e = 92 \<or> e = 47 then Some e
      else if e = 98 then Some 8 else if e = 102 then Some 12 else if e = 110 then Some 10
      else if e = 114 then Some 13 else if e = 116 then Some 9 else None)"

text \<open>The characters of a string behind its opening quote, and what follows the closing one.\<close>

definition put_char :: "code_unit option \<Rightarrow> (js_string \<times> js_string) option \<Rightarrow> (js_string \<times> js_string) option" where
  "put_char c r = (case (c, r) of (Some c, Some (s, rest)) \<Rightarrow> Some (c # s, rest) | _ \<Rightarrow> None)"

fun parse_chars :: "nat \<Rightarrow> js_string \<Rightarrow> (js_string \<times> js_string) option" where
  "parse_chars 0 s = None"
| "parse_chars (Suc k) [] = None"
| "parse_chars (Suc k) (c # s) =
     (if c = 34 then Some ([], s)
      else if unat c < 32 then None
      else if c = 92 then
        (case s of
           [] \<Rightarrow> None
         | e # r \<Rightarrow>
             if e = 117 then
               (case r of
                  a # b # d # e # r \<Rightarrow> put_char (hex4 a b d e) (parse_chars k r)
                | _ \<Rightarrow> None)
             else put_char (escaped e) (parse_chars k r))
      else put_char (Some c) (parse_chars k s))"


definition parse_string :: "js_string \<Rightarrow> (js_string \<times> js_string) option" where
  "parse_string s = parse_chars (Suc (length s)) s"

text \<open>Numbers: an optional sign, an integer without leading zeros, an optional fraction and exponent.\<close>

definition json_digit :: "code_unit \<Rightarrow> bool" where
  "json_digit c \<longleftrightarrow> 48 \<le> unat c \<and> unat c \<le> 57"

definition digits_part :: "js_string \<Rightarrow> (js_string \<times> js_string) option" where
  "digits_part s =
     (let ds = takeWhile json_digit s in if ds = [] then None else Some (ds, dropWhile json_digit s))"

definition int_part :: "js_string \<Rightarrow> (js_string \<times> js_string) option" where
  "int_part s = (if take 1 s = [48] then Some ([48], drop 1 s) else digits_part s)"

definition fraction_part :: "js_string \<Rightarrow> (js_string \<times> js_string) option" where
  "fraction_part s =
     (if take 1 s = [46] then map_option (\<lambda>(ds, r). (46 # ds, r)) (digits_part (drop 1 s)) else Some ([], s))"

definition exponent_part :: "js_string \<Rightarrow> (js_string \<times> js_string) option" where
  "exponent_part s =
     (if take 1 s = [101] \<or> take 1 s = [69] then
        (let sign = (if take 1 (drop 1 s) = [43] \<or> take 1 (drop 1 s) = [45] then 1 else 0)
         in map_option (\<lambda>(ds, r). (take (1 + sign) s @ ds, r)) (digits_part (drop (1 + sign) s)))
      else Some ([], s))"

definition parse_number :: "js_string \<Rightarrow> (js_string \<times> js_string) option" where
  "parse_number s =
     (let sign = (if take 1 s = [45] then [45] else []) in
      case int_part (drop (length sign) s) of
        None \<Rightarrow> None
      | Some (ds, s) \<Rightarrow>
          (case fraction_part s of
             None \<Rightarrow> None
           | Some (fs, s) \<Rightarrow> map_option (\<lambda>(es, s). (sign @ ds @ fs @ es, s)) (exponent_part s)))"

definition starts :: "js_string \<Rightarrow> js_string \<Rightarrow> bool" where
  "starts w s \<longleftrightarrow> take (length w) s = w"

fun parse_value :: "nat \<Rightarrow> js_string \<Rightarrow> (json \<times> js_string) option"
  and parse_elements :: "nat \<Rightarrow> js_string \<Rightarrow> (json list \<times> js_string) option"
  and parse_members :: "nat \<Rightarrow> js_string \<Rightarrow> ((js_string \<times> json) list \<times> js_string) option" where
  "parse_value 0 s = None"
| "parse_value (Suc k) s =
     (case skip s of
        [] \<Rightarrow> None
      | c # r \<Rightarrow>
          if c = 34 then map_option (\<lambda>(x, r). (JString x, r)) (parse_string r)
          else if c = 123 then
            (if take 1 (skip r) = [125] then Some (JObject [], drop 1 (skip r))
             else map_option (\<lambda>(ms, r). (JObject ms, r)) (parse_members k r))
          else if c = 91 then
            (if take 1 (skip r) = [93] then Some (JArray [], drop 1 (skip r))
             else map_option (\<lambda>(vs, r). (JArray vs, r)) (parse_elements k r))
          else if starts (lit ''null'') (c # r) then Some (JNull, drop 3 r)
          else if starts (lit ''true'') (c # r) then Some (JBool True, drop 3 r)
          else if starts (lit ''false'') (c # r) then Some (JBool False, drop 4 r)
          else map_option (\<lambda>(x, r). (JNumber x, r)) (parse_number (c # r)))"
| "parse_elements 0 s = None"
| "parse_elements (Suc k) s =
     (case parse_value k s of
        None \<Rightarrow> None
      | Some (v, r) \<Rightarrow>
          if take 1 (skip r) = [44] then map_option (\<lambda>(vs, r). (v # vs, r)) (parse_elements k (drop 1 (skip r)))
          else if take 1 (skip r) = [93] then Some ([v], drop 1 (skip r))
          else None)"
| "parse_members 0 s = None"
| "parse_members (Suc k) s =
     (if take 1 (skip s) = [34] then
        (case parse_string (drop 1 (skip s)) of
           None \<Rightarrow> None
         | Some (key, r) \<Rightarrow>
             if take 1 (skip r) = [58] then
               (case parse_value k (drop 1 (skip r)) of
                  None \<Rightarrow> None
                | Some (v, r) \<Rightarrow>
                    if take 1 (skip r) = [44] then
                      map_option (\<lambda>(ms, r). ((key, v) # ms, r)) (parse_members k (drop 1 (skip r)))
                    else if take 1 (skip r) = [125] then Some ([(key, v)], drop 1 (skip r))
                    else None)
             else None)
      else None)"

definition parse_json :: "js_string \<Rightarrow> json option" where
  "parse_json s =
     (case parse_value (Suc (length s)) s of
        Some (v, r) \<Rightarrow> if skip r = [] then Some v else None
      | None \<Rightarrow> None)"

text \<open>A member of an object; of several with the same name the last one counts.\<close>

definition member_of :: "(js_string \<times> json) list \<Rightarrow> js_string \<Rightarrow> json option" where
  "member_of ms k = map_of (rev ms) k"

section \<open>Reading what was written\<close>

lemma hex_value_char: "n < 16 \<Longrightarrow> hex_value (hex_char n) = Some n"
  by (auto simp: hex_value_def hex_char_def unat_of_nat take_bit_nat_eq_self simp del: of_nat_add)

lemma hex_value_zero: "hex_value 48 = Some 0"
  by (simp add: hex_value_def)

lemma hex4_control:
  assumes "unat c < 32"
  shows "hex4 48 48 (hex_char (unat c div 16)) (hex_char (unat c mod 16)) = Some c"
proof -
  have "unat c div 16 < 16" "unat c mod 16 < 16" using assms by linarith+
  then show ?thesis by (simp add: hex4_def hex_value_zero hex_value_char del: of_nat_add)
qed

lemma parse_quoted_char:
  "parse_chars (Suc k) (quote_char c @ s) = put_char (Some c) (parse_chars k s)"
proof -
  consider "c = 34" | "c = 92" | "c = 8" | "c = 12" | "c = 10" | "c = 13" | "c = 9"
    | (control) "c \<notin> {34, 92, 8, 12, 10, 13, 9}" "unat c < 32"
    | (normal) "c \<notin> {34, 92, 8, 12, 10, 13, 9}" "\<not> unat c < 32" by blast
  then show ?thesis
  proof cases
    case control
    then show ?thesis by (simp add: quote_char_def hex4_control)
  next
    case normal
    then show ?thesis by (simp add: quote_char_def)
  qed (simp_all add: quote_char_def escaped_def)
qed

lemma length_quote_char: "1 \<le> length (quote_char c)"
  by (simp add: quote_char_def)

lemma parse_quoted_chars:
  "length x < k \<Longrightarrow> parse_chars k (concat (map quote_char x) @ 34 # s) = Some (x, s)"
proof (induction x arbitrary: k)
  case Nil
  then show ?case by (cases k) simp_all
next
  case (Cons c x)
  then show ?case by (cases k) (simp_all add: parse_quoted_char put_char_def)
qed

lemma length_quoted: "length x \<le> length (concat (map quote_char x))"
proof (induction x)
  case (Cons c x)
  then show ?case using length_quote_char[of c] by simp
qed simp

lemma parse_string_quoted: "parse_string (concat (map quote_char x) @ 34 # s) = Some (x, s)"
  unfolding parse_string_def by (rule parse_quoted_chars) (use length_quoted[of x] in simp)

lemma quote_append: "quote x @ s = 34 # concat (map quote_char x) @ 34 # s"
  by (simp add: quote_def)

lemma skip_mark: "\<not> json_space c \<Longrightarrow> skip (c # s) = c # s"
  by (simp add: skip_def)

lemma marks: "\<not> json_space 34" "\<not> json_space 44" "\<not> json_space 58" "\<not> json_space 123" "\<not> json_space 125"
  by (simp_all add: json_space_def)

lemma parse_value_quoted: "parse_value (Suc k) (quote x @ s) = Some (JString x, s)"
  unfolding quote_append by (simp add: skip_mark marks parse_string_quoted)

definition as_json :: "(js_string \<times> js_string) list \<Rightarrow> (js_string \<times> json) list" where
  "as_json ms = map (\<lambda>(k, v). (k, JString v)) ms"

lemma parse_members_step:
  assumes "parse_value k (quote v @ 44 # rest) = Some (JString v, 44 # rest)"
  shows "parse_members (Suc k) (quote key @ 58 # quote v @ 44 # rest) =
    map_option (\<lambda>(ms, r). ((key, JString v) # ms, r)) (parse_members k rest)"
  unfolding quote_append[of key] using assms by (simp add: skip_mark marks parse_string_quoted)

lemma parse_members_written:
  "ms \<noteq> [] \<Longrightarrow> length ms < k \<Longrightarrow> parse_members k (stringify_members ms @ 125 # s) = Some (as_json ms, s)"
proof (induction ms arbitrary: k rule: stringify_members.induct)
  case (2 key v)
  then obtain j where "k = Suc (Suc j)" by (cases k; cases "k - 1") auto
  then show ?case by (simp add: quote_append skip_mark marks parse_string_quoted as_json_def)
next
  case (3 key v m ms)
  then obtain j where k: "k = Suc (Suc j)" by (cases k; cases "k - 1") auto
  have "parse_members (Suc j) (stringify_members (m # ms) @ 125 # s) = Some (as_json (m # ms), s)"
    by (rule 3(1)) (use 3(3) k in simp_all)
  then have "parse_members k (quote key @ 58 # quote v @ 44 # stringify_members (m # ms) @ 125 # s) =
      Some ((key, JString v) # as_json (m # ms), s)"
    unfolding k parse_members_step[OF parse_value_quoted] by simp
  then show ?case by (simp add: as_json_def del: parse_members.simps)
qed simp

lemma length_stringify_members: "length ms \<le> length (stringify_members ms)"
  by (induction ms rule: stringify_members.induct) (simp_all add: quote_def)

lemma parse_stringify:
  assumes "ms \<noteq> []" shows "parse_json (stringify ms) = Some (JObject (as_json ms))"
proof -
  obtain r where r: "stringify_members ms = 34 # r"
    using assms by (cases ms rule: stringify_members.cases) (auto simp: quote_def)
  have "parse_members (length (stringify ms)) (stringify_members ms @ [125]) = Some (as_json ms, [])"
    using parse_members_written[OF assms, of "length (stringify ms)" "[]"] length_stringify_members[of ms]
    by (simp add: stringify_def)
  then have "parse_value (Suc (length (stringify ms))) (stringify ms) = Some (JObject (as_json ms), [])"
    by (simp add: stringify_def skip_mark marks r)
  then show ?thesis by (simp add: parse_json_def skip_def)
qed

end
