(* ===== verification/Utf8.thy ===== *)
theory Utf8
  imports Prelude
begin

text \<open>
  The conversions of session.js between a text and its UTF-8 bytes as a string of characters below
  256: \<open>unescape(encodeURIComponent(s))\<close> and \<open>decodeURIComponent(escape(s))\<close>. Both throw on text that is not
  well formed, which is None here.
\<close>

section \<open>Code points of a text\<close>

definition high_surrogate :: "nat \<Rightarrow> bool" where
  "high_surrogate n \<longleftrightarrow> 0xD800 \<le> n \<and> n < 0xDC00"

definition low_surrogate :: "nat \<Rightarrow> bool" where
  "low_surrogate n \<longleftrightarrow> 0xDC00 \<le> n \<and> n < 0xE000"

definition scalar :: "nat \<Rightarrow> bool" where
  "scalar n \<longleftrightarrow> n < 0xD800 \<or> 0xE000 \<le> n \<and> n < 0x110000"

fun code_points :: "js_string \<Rightarrow> nat list option" where
  "code_points [] = Some []"
| "code_points [c] = (if high_surrogate (unat c) \<or> low_surrogate (unat c) then None else Some [unat c])"
| "code_points (c # d # s) =
     (if high_surrogate (unat c) then
        (if low_surrogate (unat d) then
           map_option (\<lambda>ps. (0x10000 + 0x400 * (unat c - 0xD800) + (unat d - 0xDC00)) # ps) (code_points s)
         else None)
      else if low_surrogate (unat c) then None
      else map_option (\<lambda>ps. unat c # ps) (code_points (d # s)))"

definition code_units :: "nat \<Rightarrow> js_string" where
  "code_units n =
     (if n < 0x10000 then [of_nat n]
      else [of_nat (0xD800 + (n - 0x10000) div 0x400), of_nat (0xDC00 + (n - 0x10000) mod 0x400)])"

section \<open>Bytes\<close>

definition utf8_char :: "nat \<Rightarrow> js_string" where
  "utf8_char n =
     (if n < 0x80 then [of_nat n]
      else if n < 0x800 then [of_nat (0xC0 + n div 0x40), of_nat (0x80 + n mod 0x40)]
      else if n < 0x10000 then
        [of_nat (0xE0 + n div 0x1000), of_nat (0x80 + n div 0x40 mod 0x40), of_nat (0x80 + n mod 0x40)]
      else [of_nat (0xF0 + n div 0x40000), of_nat (0x80 + n div 0x1000 mod 0x40),
            of_nat (0x80 + n div 0x40 mod 0x40), of_nat (0x80 + n mod 0x40)])"

definition to_utf8 :: "js_string \<Rightarrow> js_string option" where
  "to_utf8 s = map_option (\<lambda>ps. concat (map utf8_char ps)) (code_points s)"

text \<open>Reading one character: the first byte tells how many follow; short forms only, and no surrogates.\<close>

fun continuation :: "nat \<Rightarrow> nat \<Rightarrow> js_string \<Rightarrow> (nat \<times> js_string) option" where
  "continuation 0 acc s = Some (acc, s)"
| "continuation (Suc k) acc [] = None"
| "continuation (Suc k) acc (d # s) =
     (if 0x80 \<le> unat d \<and> unat d < 0xC0 then continuation k (0x40 * acc + (unat d - 0x80)) s else None)"

definition checked :: "nat \<Rightarrow> (nat \<times> js_string) option \<Rightarrow> (nat \<times> js_string) option" where
  "checked least r = (case r of None \<Rightarrow> None | Some (n, s) \<Rightarrow> if least \<le> n \<and> scalar n then Some (n, s) else None)"

definition decode_char :: "code_unit \<Rightarrow> js_string \<Rightarrow> (nat \<times> js_string) option" where
  "decode_char c s =
     (let n = unat c in
      if n < 0x80 then Some (n, s)
      else if n < 0xC0 then None
      else if n < 0xE0 then checked 0x80 (continuation 1 (n - 0xC0) s)
      else if n < 0xF0 then checked 0x800 (continuation 2 (n - 0xE0) s)
      else if n < 0xF8 then checked 0x10000 (continuation 3 (n - 0xF0) s)
      else None)"

lemma continuation_shorter: "continuation k acc s = Some (n, r) \<Longrightarrow> length r \<le> length s"
  by (induction k acc s rule: continuation.induct) (auto split: if_splits)

lemma decode_char_shorter: "decode_char c s = Some (n, r) \<Longrightarrow> length r \<le> length s"
  by (auto simp: decode_char_def checked_def Let_def split: if_splits option.splits dest!: continuation_shorter)

function from_utf8 :: "js_string \<Rightarrow> js_string option" where
  "from_utf8 [] = Some []"
| "from_utf8 (c # s) =
     (case decode_char c s of
        None \<Rightarrow> None
      | Some (n, r) \<Rightarrow> map_option (\<lambda>t. code_units n @ t) (from_utf8 r))"
  by pat_completeness auto
termination by (relation "measure length") (auto dest: decode_char_shorter)

section \<open>Reading what was written\<close>

lemma unat_of_nat_16: "n < 0x10000 \<Longrightarrow> unat (of_nat n :: code_unit) = n"
  by (simp add: unat_of_nat take_bit_nat_eq_self)

lemma continuation_byte:
  "b < 0x40 \<Longrightarrow> continuation (Suc k) acc (of_nat (0x80 + b) # s) = continuation k (0x40 * acc + b) s"
  by (simp add: unat_of_nat_16 del: of_nat_add)

lemma decode_two:
  assumes "a < 0x20" "b < 0x40"
  shows "decode_char (of_nat (0xC0 + a)) (of_nat (0x80 + b) # s) = checked 0x80 (Some (0x40 * a + b, s))"
proof -
  have "continuation 1 a (of_nat (0x80 + b) # s) = Some (0x40 * a + b, s)"
    using assms(2) continuation_byte[of b 0 a s] by (simp del: of_nat_add continuation.simps(3))
  then show ?thesis using assms(1) by (simp add: decode_char_def Let_def unat_of_nat_16 del: of_nat_add)
qed

lemma decode_three:
  assumes "a < 0x10" "b < 0x40" "c < 0x40"
  shows "decode_char (of_nat (0xE0 + a)) (of_nat (0x80 + b) # of_nat (0x80 + c) # s) =
    checked 0x800 (Some (0x40 * (0x40 * a + b) + c, s))"
proof -
  have "continuation (Suc (Suc 0)) a (of_nat (0x80 + b) # of_nat (0x80 + c) # s) = Some (0x40 * (0x40 * a + b) + c, s)"
    using assms(2,3) by (simp only: continuation_byte continuation.simps(1))
  then show ?thesis using assms(1) by (simp add: decode_char_def Let_def unat_of_nat_16 numeral_2_eq_2 del: of_nat_add)
qed

lemma decode_four:
  assumes "a < 8" "b < 0x40" "c < 0x40" "d < 0x40"
  shows "decode_char (of_nat (0xF0 + a)) (of_nat (0x80 + b) # of_nat (0x80 + c) # of_nat (0x80 + d) # s) =
    checked 0x10000 (Some (0x40 * (0x40 * (0x40 * a + b) + c) + d, s))"
proof -
  have "continuation (Suc (Suc (Suc 0))) a (of_nat (0x80 + b) # of_nat (0x80 + c) # of_nat (0x80 + d) # s) =
      Some (0x40 * (0x40 * (0x40 * a + b) + c) + d, s)"
    using assms(2-4) by (simp only: continuation_byte continuation.simps(1))
  then show ?thesis using assms(1) by (simp add: decode_char_def Let_def unat_of_nat_16 numeral_3_eq_3 del: of_nat_add)
qed

lemma sextets:
  "0x40 * (n div 0x1000) + n div 0x40 mod 0x40 = n div (0x40 :: nat)"
  "0x40 * (n div 0x40000) + n div 0x1000 mod 0x40 = n div (0x1000 :: nat)"
  "0x40 * (n div 0x40) + n mod 0x40 = (n :: nat)"
proof -
  have "n div 0x1000 = n div 0x40 div 0x40" "n div 0x40000 = n div 0x1000 div 0x40"
    by (simp_all add: div_mult2_eq[symmetric])
  then show "0x40 * (n div 0x1000) + n div 0x40 mod 0x40 = n div 0x40"
    "0x40 * (n div 0x40000) + n div 0x1000 mod 0x40 = n div 0x1000" "0x40 * (n div 0x40) + n mod 0x40 = n"
    by simp_all
qed

lemma decode_utf8_char:
  assumes "scalar n"
  obtains c cs where "utf8_char n = c # cs" and "\<And>s. decode_char c (cs @ s) = Some (n, s)"
proof -
  have n: "n < 0x110000" using assms by (auto simp: scalar_def)
  have b: "n mod 0x40 < 0x40" "n div 0x40 mod 0x40 < 0x40" "n div 0x1000 mod 0x40 < 0x40" by simp_all
  consider (1) "n < 0x80" | (2) "0x80 \<le> n" "n < 0x800" | (3) "0x800 \<le> n" "n < 0x10000" | (4) "0x10000 \<le> n" by linarith
  then show ?thesis
  proof cases
    case 1
    then show ?thesis by (intro that[of "of_nat n" "[]"]) (simp_all add: utf8_char_def decode_char_def unat_of_nat_16)
  next
    case 2
    have "n div 0x40 < 0x20" using 2 by linarith
    moreover have "0x40 * (n div 0x40) + n mod 0x40 = n" by simp
    ultimately have "decode_char (of_nat (0xC0 + n div 0x40)) (of_nat (0x80 + n mod 0x40) # s) = Some (n, s)" for s
      using decode_two[of "n div 0x40" "n mod 0x40" s] 2 assms b by (simp add: checked_def del: of_nat_add)
    then show ?thesis using 2
      by (intro that[of "of_nat (0xC0 + n div 0x40)" "[of_nat (0x80 + n mod 0x40)]"]) (simp_all add: utf8_char_def)
  next
    case 3
    have "n div 0x1000 < 0x10" using 3 by linarith
    moreover have "0x40 * (0x40 * (n div 0x1000) + n div 0x40 mod 0x40) + n mod 0x40 = n"
      unfolding sextets by (rule refl)
    ultimately have "decode_char (of_nat (0xE0 + n div 0x1000))
        (of_nat (0x80 + n div 0x40 mod 0x40) # of_nat (0x80 + n mod 0x40) # s) = Some (n, s)" for s
      using decode_three[of "n div 0x1000" "n div 0x40 mod 0x40" "n mod 0x40" s] 3 assms b
      by (simp add: checked_def del: of_nat_add)
    then show ?thesis using 3
      by (intro that[of "of_nat (0xE0 + n div 0x1000)" "[of_nat (0x80 + n div 0x40 mod 0x40), of_nat (0x80 + n mod 0x40)]"])
        (simp_all add: utf8_char_def)
  next
    case 4
    have "n div 0x40000 < 8" using n by linarith
    moreover have "0x40 * (0x40 * (0x40 * (n div 0x40000) + n div 0x1000 mod 0x40) + n div 0x40 mod 0x40) + n mod 0x40 = n"
      unfolding sextets by (rule refl)
    ultimately have "decode_char (of_nat (0xF0 + n div 0x40000)) (of_nat (0x80 + n div 0x1000 mod 0x40) #
        of_nat (0x80 + n div 0x40 mod 0x40) # of_nat (0x80 + n mod 0x40) # s) = Some (n, s)" for s
      using decode_four[of "n div 0x40000" "n div 0x1000 mod 0x40" "n div 0x40 mod 0x40" "n mod 0x40" s] 4 assms b
      by (simp add: checked_def del: of_nat_add)
    then show ?thesis using 4
      by (intro that[of "of_nat (0xF0 + n div 0x40000)"
          "[of_nat (0x80 + n div 0x1000 mod 0x40), of_nat (0x80 + n div 0x40 mod 0x40), of_nat (0x80 + n mod 0x40)]"])
        (simp_all add: utf8_char_def)
  qed
qed

lemma from_utf8_chars: "\<forall>n\<in>set ps. scalar n \<Longrightarrow> from_utf8 (concat (map utf8_char ps)) = Some (concat (map code_units ps))"
proof (induction ps)
  case (Cons n ps)
  obtain c cs where "utf8_char n = c # cs" "\<And>s. decode_char c (cs @ s) = Some (n, s)"
    using decode_utf8_char[of n] Cons.prems by auto
  then show ?case using Cons by simp
qed simp

lemma code_points_back:
  "code_points s = Some ps \<Longrightarrow> (\<forall>n\<in>set ps. scalar n) \<and> concat (map code_units ps) = s"
proof (induction s arbitrary: ps rule: code_points.induct)
  case (2 c)
  have "unat c < 0x10000" using unsigned_less[of c] by simp
  then show ?case using 2 by (auto simp: scalar_def high_surrogate_def low_surrogate_def code_units_def split: if_splits)
next
  case (3 c d s)
  have c: "unat c < 0x10000" and d: "unat d < 0x10000" using unsigned_less[of c] unsigned_less[of d] by simp_all
  show ?case
  proof (cases "high_surrogate (unat c)")
    case True
    then obtain qs where qs: "code_points s = Some qs" "low_surrogate (unat d)"
      and ps: "ps = (0x10000 + 0x400 * (unat c - 0xD800) + (unat d - 0xDC00)) # qs"
      using 3(3) by (auto split: if_splits)
    define x y where "x = unat c - 0xD800" and "y = unat d - 0xDC00"
    have xy: "x < 0x400" "y < 0x400" "unat c = 0xD800 + x" "unat d = 0xDC00 + y"
      using True qs(2) by (auto simp: high_surrogate_def low_surrogate_def x_def y_def)
    have cd: "of_nat (0xD800 + x) = c" "of_nat (0xDC00 + y) = d"
      unfolding xy(3)[symmetric] xy(4)[symmetric] by simp_all
    have "code_units (0x10000 + 0x400 * x + y) = [of_nat (0xD800 + x), of_nat (0xDC00 + y)]"
      using xy by (simp add: code_units_def del: of_nat_add)
    then have "code_units (0x10000 + 0x400 * x + y) = [c, d]" unfolding cd .
    moreover have "scalar (0x10000 + 0x400 * x + y)" using xy by (simp add: scalar_def)
    ultimately show ?thesis using 3(1)[OF True qs(2) qs(1)] ps by (simp add: x_def y_def)
  next
    case False
    then obtain qs where "code_points (d # s) = Some qs" "\<not> low_surrogate (unat c)" "ps = unat c # qs"
      using 3(3) by (auto split: if_splits)
    then show ?thesis using 3(2)[OF False] c False
      by (auto simp: scalar_def high_surrogate_def low_surrogate_def code_units_def)
  qed
qed simp

lemma from_to_utf8: "to_utf8 s = Some b \<Longrightarrow> from_utf8 b = Some s"
  using code_points_back[of s] from_utf8_chars by (auto simp: to_utf8_def)

lemma utf8_char_bytes: "scalar n \<Longrightarrow> \<forall>c\<in>set (utf8_char n). unat c < 256"
proof -
  assume "scalar n"
  then have n: "n < 0x110000" by (auto simp: scalar_def)
  then have "n div 0x40000 < 5" by linarith
  moreover have "n < 0x800 \<Longrightarrow> n div 0x40 < 0x20" "n < 0x10000 \<Longrightarrow> n div 0x1000 < 0x10" by linarith+
  moreover have "n mod 0x40 < 0x80" "n div 0x40 mod 0x40 < 0x80" "n div 0x1000 mod 0x40 < 0x80" by linarith+
  ultimately show ?thesis by (auto simp: utf8_char_def unat_of_nat_16 simp del: of_nat_add)
qed

lemma to_utf8_bytes: "to_utf8 s = Some b \<Longrightarrow> \<forall>c\<in>set b. unat c < 256"
  using code_points_back[of s] utf8_char_bytes by (fastforce simp: to_utf8_def)


lemma code_points_ascii: "\<forall>c\<in>set s. unat c < 0x80 \<Longrightarrow> code_points s = Some (map unat s)"
  by (induction s rule: code_points.induct) (auto simp: high_surrogate_def low_surrogate_def)

lemma to_utf8_ascii:
  assumes "\<forall>c\<in>set s. unat c < 0x80" shows "to_utf8 s = Some s"
proof -
  have "concat (map (\<lambda>c. utf8_char (unat c)) s) = s"
    using assms by (induction s) (simp_all add: utf8_char_def)
  then show ?thesis using code_points_ascii[OF assms] by (simp add: to_utf8_def comp_def)
qed

end
