(* ===== verification/Session.thy ===== *)
theory Session
  imports QrSymbol Sha1 Messages Json Utf8
begin

text \<open>
  The account page (session.js): the checks of a name, an identifier and a description, the login with
  the server's answers, the random user, the login by password, and the identity as JSON text
  and as a QR code. The state is one record; handlers and callbacks are functions on it.
\<close>

section \<open>Checks\<close>

definition line_end :: "code_unit \<Rightarrow> bool" where
  "line_end c \<longleftrightarrow> c = 10 \<or> c = 13 \<or> c = 0x2028 \<or> c = 0x2029"

text \<open>
  The expression for blanks wants a run of white space with no line end before and after it, since the dot
  does not match a line end.
\<close>

definition has_blank :: "js_string \<Rightarrow> bool" where
  "has_blank s \<longleftrightarrow>
     list_ex (\<lambda>i. list_ex (\<lambda>j. i < j \<and> list_all white_space (take (j - i) (drop i s)) \<and>
       \<not> list_ex line_end (take i s) \<and> \<not> list_ex line_end (drop j s)) [0..<Suc (length s)]) [0..<length s]"

definition verifyUserName :: "js_string \<Rightarrow> bool" where
  "verifyUserName s \<longleftrightarrow> s \<noteq> [] \<and> \<not> has_blank s \<and> \<not> list_ex (\<lambda>c. c \<in> set (lit '':/#@'')) s"

definition verifyDescription :: "js_string \<Rightarrow> bool" where
  "verifyDescription s \<longleftrightarrow> s \<noteq> [] \<and> length s \<le> 200"

definition trim :: "js_string \<Rightarrow> js_string" where
  "trim s = rev (dropWhile white_space (rev (dropWhile white_space s)))"

section \<open>Random names\<close>

text \<open>
  \<open>randomSuffix\<close> draws numbers below 100 until it has enough letters and digits; the model reads the
  draws from a list, and None means that it has not returned after them.
\<close>

definition rejected_draw :: "nat \<Rightarrow> bool" where
  "rejected_draw n \<longleftrightarrow> 33 \<le> n \<and> n \<le> 47 \<or> 58 \<le> n \<and> n \<le> 64 \<or> 91 \<le> n \<and> n \<le> 96 \<or> 123 \<le> n \<and> n \<le> 126"

fun randomSuffix :: "nat \<Rightarrow> nat list \<Rightarrow> js_string option" where
  "randomSuffix 0 draws = Some []"
| "randomSuffix (Suc k) [] = None"
| "randomSuffix (Suc k) (d # draws) =
     (let n = d mod 94 + 33
      in if rejected_draw n then randomSuffix (Suc k) draws
         else map_option (\<lambda>s. of_nat n # s) (randomSuffix k draws))"

section \<open>The identity as text and as a symbol\<close>

record user =
  user_name :: js_string
  id_bytes :: js_string
  user_description :: js_string
  random_user :: bool

definition makeupNearByTalkUrl :: "js_string \<Rightarrow> js_string \<Rightarrow> js_string \<Rightarrow> js_string" where
  "makeupNearByTalkUrl i u d =
     stringify [(lit ''userName'', u), (lit ''idBytes'', i), (lit ''description'', d)]"

text \<open>
  \<open>fillQrCode\<close> up to the picture: None if the text is not well formed or too long, which throws. The logo that is
  painted over the middle is damage to the picture.
\<close>

definition identity_symbol :: "js_string \<Rightarrow> qr option" where
  "identity_symbol toQrCode =
     (case to_utf8 toQrCode of
        None \<Rightarrow> None
      | Some onlyASCII \<Rightarrow>
          (case bind_ok (getVersionFromLength EC_LEVEL_H MODE_EightBit (length onlyASCII)) (\<lambda>ver.
             bind_ok (bind_ok (addTextImplementation
                (encodeInit ver EC_LEVEL_H (256 div nModulesFromVersion ver) new_qr) MODE_EightBit onlyASCII) encode_symbol) Inr) of
             Inl _ \<Rightarrow> None
           | Inr drawn \<Rightarrow> Some drawn))"

text \<open>
  The base 64 text of an array buffer. The length is a field of buffers; the caller passes an array, which has
  none, and arithmetic with it then gives no number. The conjunctions bind weaker than the bitwise
  operators, so a chunk has only its last two bytes.
\<close>

definition encodings :: js_string where
  "encodings = lit ''ABCDEFGHIJKLMNOPQRSTUVWXYZabcdefghijklmnopqrstuvwxyz0123456789+/''"

definition base64_chunk :: "nat \<Rightarrow> nat \<Rightarrow> nat \<Rightarrow> js_string" where
  "base64_chunk b0 b1 b2 =
     (let chunk = (if push_bit 16 b0 OR 0xFF \<noteq> 0 then push_bit 8 b1 OR b2 else 0)
      in [encodings ! drop_bit 18 (chunk AND 16515072), encodings ! drop_bit 12 (chunk AND 258048),
          encodings ! drop_bit 6 (chunk AND 4032), encodings ! (chunk AND 63)])"

fun base64_loop :: "nat list \<Rightarrow> js_string" where
  "base64_loop (b0 # b1 # b2 # bs) = base64_chunk b0 b1 b2 @ base64_loop bs"
| "base64_loop [b0] = [encodings ! drop_bit 2 (b0 AND 252), encodings ! push_bit 4 (b0 AND 3)] @ lit ''==''"
| "base64_loop [b0, b1] =
     (let chunk = push_bit 8 b0 OR b1
      in [encodings ! drop_bit 10 (chunk AND 64512), encodings ! drop_bit 4 (chunk AND 1008),
          encodings ! push_bit 2 (chunk AND 15)] @ lit ''='')"
| "base64_loop [] = []"

definition base64ArrayBuffer :: "nat option \<Rightarrow> nat list \<Rightarrow> js_string" where
  "base64ArrayBuffer byteLength bs = (case byteLength of None \<Rightarrow> [] | Some n \<Rightarrow> base64_loop (take n bs))"

definition generateTextIdentityDownload :: "js_string \<Rightarrow> js_string option" where
  "generateTextIdentityDownload nearByTalkUrl =
     (case to_utf8 nearByTalkUrl of
        None \<Rightarrow> None
      | Some onlyASCII \<Rightarrow>
          Some (lit ''data:text/plain;charset=UTF-8;base64,'' @ base64ArrayBuffer None (map unat onlyASCII)))"

section \<open>The state of the page\<close>

record session =
  session_user :: "user option"
  fileUploadLimitByte :: "nat option"
  input_name :: js_string
  input_id :: js_string
  input_description :: js_string
  temp_name :: js_string
  password :: js_string
  generated_id :: js_string
  ok_enabled :: bool
  hint :: ui_text
  symbol :: "qr option"
  text_link :: "js_string option"
  identity_popup :: bool
  password_popup :: bool
  session_toasts :: "ui_text list"
  logins :: "(user \<times> bool) list"
  info_requests :: nat

definition initial_session :: session where
  "initial_session =
     \<lparr>session_user = None, fileUploadLimitByte = None, input_name = [], input_id = [], input_description = [],
      temp_name = [], password = [], generated_id = [], ok_enabled = True, hint = Verbatim [], symbol = None,
      text_link = None, identity_popup = False, password_popup = False, session_toasts = [], logins = [],
      info_requests = 0\<rparr>"

definition session_toast :: "ui_text \<Rightarrow> session \<Rightarrow> session" where
  "session_toast t s = s\<lparr>session_toasts := session_toasts s @ [t]\<rparr>"

text \<open>\<open>fillSessionField\<close>: what comes after a call that throws is not done.\<close>

definition fillSessionField :: "user \<Rightarrow> session \<Rightarrow> session" where
  "fillSessionField u s =
     (let s = s\<lparr>input_name := user_name u, input_id := id_bytes u, input_description := user_description u\<rparr>;
          url = makeupNearByTalkUrl (id_bytes u) (user_name u) (user_description u)
      in case identity_symbol url of
           None \<Rightarrow> s
         | Some q \<Rightarrow>
             s\<lparr>symbol := Some q, text_link := generateTextIdentityDownload url,
               hint := (if random_user u then I18n ''LABEL_RANDOM_LOGIN_HINT'' [] else I18n ''LABEL_NORMAL_LOGIN_HINT'' [])\<rparr>)"

definition initLogin :: "session \<Rightarrow> session" where
  "initLogin s = s\<lparr>info_requests := Suc (info_requests s)\<rparr>"

definition userLogin :: "user \<Rightarrow> bool \<Rightarrow> session \<Rightarrow> session" where
  "userLogin u silent s = s\<lparr>logins := logins s @ [(u, silent)]\<rparr>"

text \<open>The texts the code of an error has, if it is a known one.\<close>

definition error_detail :: "js_string \<Rightarrow> ui_text option" where
  "error_detail code =
     (if code \<in> {lit ''ID_CLASH'', lit ''NOT_LOGIN'', lit ''FILE_TOO_LARGE''} then Some (I18n ''ERROR_DETAIL'' [Verbatim code])
      else None)"

definition session_error :: "js_string \<Rightarrow> session \<Rightarrow> session" where
  "session_error code s =
     (if code = lit ''NOT_LOGIN'' then initLogin s
      else session_toast (case error_detail code of Some t \<Rightarrow> t | None \<Rightarrow> I18n ''UNKNOWN_ERROR_MESSAGE'' []) s)"

text \<open>The answer of the server about the session: an error, or its user if it has one and the limit of uploads.\<close>

datatype info_answer = Info "user option" nat | Info_Refused js_string

definition DEFAULT_USER_DESCRIPTION :: js_string where
  "DEFAULT_USER_DESCRIPTION = [0x6211, 0x5C31, 0x662F, 0x968F, 0x4FBF, 0x8BF4, 0x8BF4]"

definition random_login :: "js_string \<Rightarrow> js_string \<Rightarrow> session \<Rightarrow> session" where
  "random_login suffix salt s =
     (let n = lit ''guest_'' @ suffix; i = sha1 (n @ salt)
      in userLogin \<lparr>user_name = n, id_bytes = i, user_description = DEFAULT_USER_DESCRIPTION, random_user = False\<rparr> True
           (s\<lparr>input_name := n, input_id := i, input_description := DEFAULT_USER_DESCRIPTION\<rparr>))"

definition info_answered :: "js_string \<Rightarrow> js_string \<Rightarrow> info_answer \<Rightarrow> session \<Rightarrow> session" where
  "info_answered suffix salt answer s =
     (case answer of
        Info_Refused code \<Rightarrow> session_error code s
      | Info (Some u) limit \<Rightarrow>
          (let s = s\<lparr>session_user := Some u\<rparr>;
               s = (if random_user u then session_toast (Verbatim
                       (lit ''login as random user:'' @ user_name u @ [44, 10] @ lit '' idBytes:'' @ id_bytes u)) s
                    else s)
           in fillSessionField u (s\<lparr>fileUploadLimitByte := Some limit\<rparr>))
      | Info None limit \<Rightarrow>
          (case session_user s of
             Some u \<Rightarrow>
               if verifyIdBytes (id_bytes u) \<and> verifyUserName (user_name u) \<and> verifyDescription (user_description u)
               then userLogin u True s
               else random_login suffix salt s
           | None \<Rightarrow> random_login suffix salt s))"

text \<open>The answer to a login. It is never called with \<open>firstTime\<close>.\<close>

definition receiveLoginResult :: "js_string + user \<Rightarrow> bool \<Rightarrow> session \<Rightarrow> session" where
  "receiveLoginResult answer silent s =
     (case answer of
        Inr u \<Rightarrow>
          (let s = fillSessionField u (s\<lparr>session_user := Some u\<rparr>)
           in if identity_symbol (makeupNearByTalkUrl (id_bytes u) (user_name u) (user_description u)) = None then s
              else if \<not> silent then session_toast (I18n ''INFO_CHANGE_USER_SUCCESSED'' []) s
              else s)
      | Inl code \<Rightarrow>
          (let s = (if \<not> silent then session_toast (I18n ''ERROR_LOGIN_FAILED'' []) s else s)
           in case error_detail code of None \<Rightarrow> s | Some t \<Rightarrow> s\<lparr>hint := t\<rparr>))"

section \<open>Handlers\<close>

definition onButtonChangeUserClicked :: "session \<Rightarrow> session" where
  "onButtonChangeUserClicked s =
     (let n = trim (input_name s); i = trim (input_id s)
      in if \<not> verifyUserName n then session_toast (I18n ''ERROR_USER_NAME_INVALID'' [Verbatim n]) s
         else if \<not> verifyIdBytes i then session_toast (Verbatim (lit ''idbytes is not valid'')) s
         else userLogin \<lparr>user_name = n, id_bytes = i, user_description = input_description s, random_user = False\<rparr> False s)"

definition onPasswordChanged :: "session \<Rightarrow> session" where
  "onPasswordChanged s =
     (if \<not> verifyUserName (temp_name s) then
        (session_toast (I18n ''ERROR_USER_NAME_INVALID'' [Verbatim (temp_name s)]) s)\<lparr>ok_enabled := False\<rparr>
      else s\<lparr>ok_enabled := True, generated_id := sha1 (temp_name s @ password s)\<rparr>)"

definition onLinkPopupPasswordLoginClicked :: "session \<Rightarrow> session" where
  "onLinkPopupPasswordLoginClicked s = s\<lparr>temp_name := input_name s, ok_enabled := False, password_popup := True\<rparr>"

definition onButtonPasswordLoginOkClicked :: "session \<Rightarrow> session" where
  "onButtonPasswordLoginOkClicked s =
     onButtonChangeUserClicked (s\<lparr>input_name := temp_name s, input_id := generated_id s, password_popup := False\<rparr>)"

text \<open>
  Reading an identity back. A value that is not an object with strings for the three members is not followed
  further: a missing or null member is refused, \<open>null\<close> itself throws.
\<close>

datatype parse_result = Accepted js_string js_string js_string | Refused_Text | Throws | Other_Types

definition parseQrCode :: "js_string \<Rightarrow> parse_result" where
  "parseQrCode jsonText =
     (case parse_json jsonText of
        None \<Rightarrow> Refused_Text
      | Some JNull \<Rightarrow> Throws
      | Some (JObject ms) \<Rightarrow>
          (case (member_of ms (lit ''userName''), member_of ms (lit ''idBytes''), member_of ms (lit ''description'')) of
             (Some (JString u), Some (JString i), Some (JString d)) \<Rightarrow>
               if verifyIdBytes i \<and> verifyUserName u \<and> verifyDescription d then Accepted u i d else Refused_Text
           | (u, i, d) \<Rightarrow>
               if list_ex (\<lambda>m. m = None \<or> m = Some JNull) [u, i, d] then Refused_Text else Other_Types)
      | Some _ \<Rightarrow> Refused_Text)"

definition identity_read :: "ui_text \<Rightarrow> parse_result \<Rightarrow> session \<Rightarrow> session" where
  "identity_read complaint r s =
     (case r of
        Accepted u i d \<Rightarrow> s\<lparr>input_name := u, input_id := i, input_description := d, identity_popup := True\<rparr>
      | Refused_Text \<Rightarrow> session_toast complaint s
      | _ \<Rightarrow> s)"

text \<open>A picture that the decoder read as \<open>decodedString\<close>, or could not read; and a text file.\<close>

definition loadQrCodeImage :: "js_string option \<Rightarrow> session \<Rightarrow> session" where
  "loadQrCodeImage decodedString s =
     (case Option.bind decodedString from_utf8 of
        None \<Rightarrow> session_toast (I18n ''ERROR_CAN_NOT_DECODE_QR_CODE'' []) s
      | Some decoded \<Rightarrow>
          (case parseQrCode decoded of
             Throws \<Rightarrow> session_toast (I18n ''ERROR_CAN_NOT_DECODE_QR_CODE'' []) s
           | r \<Rightarrow> identity_read (I18n ''ERROR_CAN_NOT_PARSE_QR_CODE_IDENTITY'' [Verbatim decoded]) r s))"

definition loadJsonText :: "nat \<Rightarrow> js_string \<Rightarrow> session \<Rightarrow> session" where
  "loadJsonText bytes_in_file jsonText s =
     (if 10240 < bytes_in_file then session_toast (I18n ''ERROR_IDENTIFY_TEXT_TOO_LARGE'' []) s
      else identity_read (I18n ''ERROR_CAN_NOT_DECODE_IDENTIFY_TEXT'' [Verbatim jsonText]) (parseQrCode jsonText) s)"

text \<open>A file that was selected; the picture is what the decoder of symbols reads in it.\<close>

record identity_file =
  file_type :: js_string
  file_label :: js_string
  file_size :: nat
  file_text :: js_string
  file_picture :: "js_string option"

definition onButtonLoadQrCodeImageOrTextClicked :: "identity_file list \<Rightarrow> session \<Rightarrow> session" where
  "onButtonLoadQrCodeImageOrTextClicked files s =
     (case files of
        [] \<Rightarrow> s
      | file # _ \<Rightarrow>
          if starts (lit ''image'') (file_type file) then loadQrCodeImage (file_picture file) s
          else if starts (lit ''text/plain'') (file_type file) then loadJsonText (file_size file) (file_text file) s
          else session_toast (I18n ''ERROR_UNKNOWN_IDENTIFY_FILE_TYPE'' [Verbatim (file_label file)]) s)"

section \<open>Steps\<close>

inductive session_step :: "session \<Rightarrow> session \<Rightarrow> bool" where
  login_started: "session_step s (initLogin s)"
| info_answered: "0 < info_requests s \<Longrightarrow> randomSuffix 6 draws = Some suffix \<Longrightarrow> randomSuffix 6 draws' = Some salt \<Longrightarrow>
     session_step s (info_answered suffix salt answer (s\<lparr>info_requests := info_requests s - 1\<rparr>))"
| login_answered: "logins s = (u, silent) # rest \<Longrightarrow>
     session_step s (receiveLoginResult answer silent (s\<lparr>logins := rest\<rparr>))"
| login_failed: "logins s = (u, silent) # rest \<Longrightarrow>
     session_step s (session_toast (Verbatim (lit ''network error'')) (s\<lparr>logins := rest\<rparr>))"
| fields_edited: "session_step s (s\<lparr>input_name := n, input_id := i, input_description := d\<rparr>)"
| change_clicked: "session_step s (onButtonChangeUserClicked s)"
| password_clicked: "session_step s (onLinkPopupPasswordLoginClicked s)"
| password_changed: "session_step s (onPasswordChanged (s\<lparr>temp_name := n, password := w\<rparr>))"
| password_ok: "ok_enabled s \<Longrightarrow> session_step s (onButtonPasswordLoginOkClicked s)"
| file_selected: "session_step s (onButtonLoadQrCodeImageOrTextClicked files s)"

inductive session_reachable :: "session \<Rightarrow> bool" where
  started: "session_reachable initial_session"
| stepped: "session_reachable s \<Longrightarrow> session_step s s' \<Longrightarrow> session_reachable s'"

section \<open>Names and identifiers that pass the checks\<close>

lemma no_blank: "\<forall>c\<in>set s. \<not> white_space c \<Longrightarrow> \<not> has_blank s"
proof
  assume no: "\<forall>c\<in>set s. \<not> white_space c" and "has_blank s"
  then have "\<exists>i\<in>set [0..<length s]. \<exists>j\<in>set [0..<Suc (length s)]. i < j \<and> list_all white_space (take (j - i) (drop i s))"
    unfolding has_blank_def list_ex_iff by blast
  then obtain i j where "i \<in> set [0..<length s]" and i: "i < j" "list_all white_space (take (j - i) (drop i s))" by blast
  then have len: "i < length s" by simp
  have "hd (take (j - i) (drop i s)) = s ! i" "take (j - i) (drop i s) \<noteq> []"
    using i(1) len by (simp_all add: hd_drop_conv_nth)
  then have "white_space (s ! i)" using i(2) hd_in_set by (metis list_all_iff)
  then show False using no len by simp
qed

definition letter_or_digit :: "code_unit \<Rightarrow> bool" where
  "letter_or_digit c \<longleftrightarrow> 48 \<le> c \<and> c \<le> 57 \<or> 65 \<le> c \<and> c \<le> 90 \<or> 97 \<le> c \<and> c \<le> 122"

lemma name_char_ok:
  assumes "letter_or_digit c \<or> c = 95" shows "\<not> white_space c" "c \<notin> set (lit '':/#@'')"
  using assms by (auto simp: letter_or_digit_def white_space_def)

lemma plain_name_ok:
  assumes "s \<noteq> []" "\<forall>c\<in>set s. letter_or_digit c \<or> c = 95" shows "verifyUserName s"
proof -
  have "\<not> has_blank s" using assms(2) by (intro no_blank) (simp add: name_char_ok(1))
  moreover have "\<not> list_ex (\<lambda>c. c \<in> set (lit '':/#@'')) s"
    using assms(2) name_char_ok(2) unfolding list_ex_iff by blast
  ultimately show ?thesis using assms(1) by (simp add: verifyUserName_def del: lit_Cons)
qed

lemma rejected_iff: "rejected_draw (d mod 94 + 33) \<longleftrightarrow> \<not> letter_or_digit (of_nat (d mod 94 + 33))"
proof -
  define n where "n = d mod 94 + 33"
  have n: "33 \<le> n" "n \<le> 126" by (simp_all add: n_def)
  have "rejected_draw n \<longleftrightarrow> \<not> letter_or_digit (of_nat n)"
    using n by (auto simp: rejected_draw_def letter_or_digit_def word_le_nat_alt unat_of_nat take_bit_nat_eq_self)
  then show ?thesis by (simp add: n_def)
qed

lemma randomSuffix_filter:
  "randomSuffix k draws =
     (let taken = filter letter_or_digit (map (\<lambda>d. of_nat (d mod 94 + 33)) draws)
      in if k \<le> length taken then Some (take k taken) else None)"
  by (induction k draws rule: randomSuffix.induct) (simp_all add: Let_def rejected_iff)

lemma randomSuffix_chars: "randomSuffix k draws = Some s \<Longrightarrow> length s = k \<and> (\<forall>c\<in>set s. letter_or_digit c)"
proof (induction k draws arbitrary: s rule: randomSuffix.induct)
  case (3 k d draws)
  define n where "n = d mod 94 + 33"
  have n: "33 \<le> n" "n \<le> 126" by (simp_all add: n_def)
  show ?case
  proof (cases "rejected_draw n")
    case True
    then show ?thesis using 3 by (simp add: n_def Let_def)
  next
    case False
    then have "48 \<le> n \<and> n \<le> 57 \<or> 65 \<le> n \<and> n \<le> 90 \<or> 97 \<le> n \<and> n \<le> 122"
      using n by (auto simp: rejected_draw_def)
    then have "letter_or_digit (of_nat n)"
      by (auto simp: letter_or_digit_def word_le_nat_alt unat_of_nat take_bit_nat_eq_self)
    moreover obtain t where "randomSuffix k draws = Some t" "s = of_nat n # t"
      using 3(3) False by (auto simp: n_def Let_def)
    ultimately show ?thesis using 3(2)[OF n_def] False by simp
  qed
qed simp_all

lemma guest_name_ok: "randomSuffix k draws = Some suffix \<Longrightarrow> verifyUserName (lit ''guest_'' @ suffix)"
  using randomSuffix_chars by (intro plain_name_ok) (auto simp: letter_or_digit_def)

lemma sha1_id_ok: "verifyIdBytes (sha1 s)"
proof -
  have "c \<le> 122" if "c \<le> 102" for c :: code_unit using that by (rule order_trans) simp
  then show ?thesis unfolding verifyIdBytes_def using length_sha1 sha1_digits[of _ s] by blast
qed

definition login_ok :: "user \<Rightarrow> bool" where
  "login_ok u \<longleftrightarrow> verifyIdBytes (id_bytes u) \<and> verifyUserName (user_name u)"

definition logins_ok :: "session \<Rightarrow> bool" where
  "logins_ok s \<longleftrightarrow> (\<forall>l\<in>set (logins s). login_ok (fst l))"

lemma logins_frame [frame_simps]:
  "logins (session_toast t s) = logins s" "logins (fillSessionField u s) = logins s" "logins (initLogin s) = logins s"
  "logins (session_error c s) = logins s" "logins (receiveLoginResult a b s) = logins s"
  "logins (identity_read t r s) = logins s" "logins (onPasswordChanged s) = logins s"
  "logins (onLinkPopupPasswordLoginClicked s) = logins s"
  by (simp_all add: session_toast_def fillSessionField_def initLogin_def session_error_def receiveLoginResult_def
      identity_read_def onPasswordChanged_def onLinkPopupPasswordLoginClicked_def Let_def
      split: option.split sum.split parse_result.split)

lemma logins_frame_loads [frame_simps]:
  "logins (loadQrCodeImage r s) = logins s" "logins (loadJsonText n t s) = logins s"
  "logins (onButtonLoadQrCodeImageOrTextClicked files s) = logins s"
  by (simp_all add: loadQrCodeImage_def loadJsonText_def onButtonLoadQrCodeImageOrTextClicked_def frame_simps
      split: option.split parse_result.split list.split)

lemma logins_ok_login: "logins_ok s \<Longrightarrow> login_ok u \<Longrightarrow> logins_ok (userLogin u b s)"
  by (auto simp: logins_ok_def userLogin_def)

lemma logins_ok_random:
  assumes "logins_ok s" "randomSuffix k draws = Some suffix"
  shows "logins_ok (random_login suffix salt s)"
  unfolding random_login_def Let_def
  by (rule logins_ok_login) (use assms guest_name_ok sha1_id_ok in \<open>simp_all add: logins_ok_def login_ok_def\<close>)

lemma logins_ok_info:
  assumes "logins_ok s" "randomSuffix k draws = Some suffix"
  shows "logins_ok (info_answered suffix salt answer s)"
proof (cases answer)
  case (Info ou limit)
  show ?thesis
  proof (cases ou)
    case None
    then show ?thesis
      using assms Info logins_ok_random[OF assms] logins_ok_login[OF assms(1)]
      by (auto simp: info_answered_def login_ok_def split: option.split)
  next
    case (Some u)
    then show ?thesis using assms Info by (simp add: info_answered_def Let_def logins_ok_def frame_simps)
  qed
qed (use assms in \<open>simp add: info_answered_def logins_ok_def frame_simps\<close>)

lemma logins_ok_change: "logins_ok s \<Longrightarrow> logins_ok (onButtonChangeUserClicked s)"
proof -
  assume ok: "logins_ok s"
  have t: "logins_ok (session_toast t s)" for t using ok by (simp add: logins_ok_def frame_simps)
  show ?thesis unfolding onButtonChangeUserClicked_def Let_def using t logins_ok_login[OF ok] by (simp add: login_ok_def)
qed

lemma logins_ok_step: "session_step s s' \<Longrightarrow> logins_ok s \<Longrightarrow> logins_ok s'"
proof (induction rule: session_step.induct)
  case (info_answered s draws suffix draws' salt answer)
  have "logins_ok (s\<lparr>info_requests := info_requests s - 1\<rparr>)" using info_answered(4) by (simp add: logins_ok_def)
  then show ?case using info_answered(2) by (rule logins_ok_info)
next
  case (change_clicked s)
  then show ?case by (rule logins_ok_change)
next
  case (password_ok s)
  then show ?case unfolding onButtonPasswordLoginOkClicked_def by (intro logins_ok_change) (simp add: logins_ok_def)
qed (simp_all add: logins_ok_def frame_simps)

section \<open>The identity read back\<close>

lemma parse_makeup:
  assumes "verifyIdBytes i" "verifyUserName u" "verifyDescription d"
  shows "parseQrCode (makeupNearByTalkUrl i u d) = Accepted u i d"
proof -
  let ?ms = "[(lit ''userName'', u), (lit ''idBytes'', i), (lit ''description'', d)]"
  have "member_of (as_json ?ms) (lit ''userName'') = Some (JString u)" "member_of (as_json ?ms) (lit ''idBytes'') = Some (JString i)"
    "member_of (as_json ?ms) (lit ''description'') = Some (JString d)"
    by (simp_all add: member_of_def as_json_def)
  then show ?thesis
    using assms parse_stringify[of ?ms] unfolding makeupNearByTalkUrl_def parseQrCode_def by (simp del: lit_Cons)
qed

lemma load_makeup:
  assumes "verifyIdBytes i" "verifyUserName u" "verifyDescription d" "to_utf8 (makeupNearByTalkUrl i u d) = Some b"
  shows "loadQrCodeImage (Some b) s = s\<lparr>input_name := u, input_id := i, input_description := d, identity_popup := True\<rparr>"
  using from_to_utf8[OF assms(4)] parse_makeup[OF assms(1-3)] by (simp add: loadQrCodeImage_def identity_read_def)

text \<open>The symbol of a text holds its bytes, and decoding gives them back from a damaged picture.\<close>

definition readable :: "qr \<Rightarrow> (nat \<Rightarrow> nat \<Rightarrow> bool) \<Rightarrow> qr \<Rightarrow> bool" where
  "readable drawn isDark r \<longleftrightarrow>
     version r = version drawn \<and> error_correction_level r = EC_LEVEL_H \<and> n_modules r = n_modules drawn \<and> mask_no r = mask_no drawn \<and>
     (\<forall>idx\<in>set (block_indices drawn). 2 * length (filter (\<lambda>p.
        codewords (extractCodewords isDark (setFunctionalPattern r)) ! p \<noteq> bytes drawn ! p) idx) \<le> n_block_ec_words drawn)"

lemma identity_symbol_reads:
  assumes "to_utf8 t = Some b" and "getVersionFromLength EC_LEVEL_H MODE_EightBit (length b) = Inr ver"
  obtains drawn where "identity_symbol t = Some drawn"
    and "\<And>isDark r. readable drawn isDark r \<Longrightarrow> \<exists>q. decode_inside isDark r = Inr q \<and> data_text q = b"
    and "readable drawn (get_px (pixels drawn)) (drawn\<lparr>error_correction_level := EC_LEVEL_H\<rparr>)"
proof -
  obtain cap where v: "1 \<le> ver" "ver \<le> 40" and cap: "getDataCapacity ver EC_LEVEL_H MODE_EightBit = Inr cap" "length b \<le> cap"
    by (rule getVersionFromLength_fits[OF assms(2)])
  have level: "valid_level ver EC_LEVEL_H" using v by (simp add: valid_level_def)
  have valid: "valid_text MODE_EightBit b" using to_utf8_bytes[OF assms(1)] by (simp add: valid_text_def)
  show thesis
  proof (rule decode_symbol[OF level valid cap, of "256 div nModulesFromVersion ver"], goal_cases)
    case (1 drawn)
    have "identity_symbol t = Some drawn"
      using assms 1(1) unfolding identity_symbol_def by (simp del: EC_LEVEL_H_def)
    moreover have "\<exists>q. decode_inside isDark r = Inr q \<and> data_text q = b" if "readable drawn isDark r" for isDark r
      using that 1(6) by (intro 1(4)) (simp_all add: readable_def)
    moreover have "readable drawn (get_px (pixels drawn)) (drawn\<lparr>error_correction_level := EC_LEVEL_H\<rparr>)"
      unfolding readable_def using 1(5)[of "drawn\<lparr>error_correction_level := EC_LEVEL_H\<rparr>" "get_px (pixels drawn)"] 1(6)
      by simp
    ultimately show ?case by (rule that)
  qed
qed

lemma identity_symbol_None:
  assumes "identity_symbol t = Some drawn"
  obtains b ver where "to_utf8 t = Some b" "getVersionFromLength EC_LEVEL_H MODE_EightBit (length b) = Inr ver"
proof -
  obtain b where b: "to_utf8 t = Some b" using assms by (auto simp: identity_symbol_def split: option.splits)
  moreover obtain ver where "getVersionFromLength EC_LEVEL_H MODE_EightBit (length b) = Inr ver"
    using assms b unfolding identity_symbol_def
    by (cases "getVersionFromLength EC_LEVEL_H MODE_EightBit (length b)") auto
  ultimately show thesis by (rule that)
qed

section \<open>Properties\<close>

text \<open>
  C37: The loop that draws random names ends once it has drawn enough letters and digits, and only then: it returns the
  first ones it drew. Each letter and each digit comes from exactly one of the hundred numbers that are
  drawn, so all of them are equally likely and a draw is taken in 62 of 100 cases.
\<close>

theorem random_names_are_drawn:
  "randomSuffix k draws =
     (let taken = filter letter_or_digit (map (\<lambda>d. of_nat (d mod 94 + 33)) draws)
      in if k \<le> length taken then Some (take k taken) else None) \<and>
   length (filter letter_or_digit (map (\<lambda>d. of_nat (d mod 94 + 33)) [0..<100])) = 62 \<and>
   distinct (filter letter_or_digit (map (\<lambda>d. of_nat (d mod 94 + 33)) [0..<100]))"
proof (intro conjI)
  show "randomSuffix k draws = (let taken = filter letter_or_digit (map (\<lambda>d. of_nat (d mod 94 + 33)) draws)
      in if k \<le> length taken then Some (take k taken) else None)"
    by (rule randomSuffix_filter)
qed (simp_all add: upt_rec letter_or_digit_def)

theorem random_names_are_drawn_witness:
  "randomSuffix 2 [0, 20, 94, 40] = Some [53, 73] \<and> randomSuffix 2 [0, 20, 94] = None"
  using random_names_are_drawn[of 2 "[0, 20, 94, 40]"] random_names_are_drawn[of 2 "[0, 20, 94]"]
  by (simp add: letter_or_digit_def Let_def)

text \<open>
  C36: Every login that is sent carries an identifier of 40 digits and small letters and a name that
  passes the check, whatever the user typed, loaded or dismissed before and whatever the server answered: random
  names are made of letters and digits, and identifiers made from a password or at random are hashes.
\<close>

theorem logins_are_well_formed:
  assumes "session_reachable s" and "(u, silent) \<in> set (logins s)"
  shows "verifyIdBytes (id_bytes u) \<and> verifyUserName (user_name u)"
proof -
  have "logins_ok s" using assms(1)
  proof (induction rule: session_reachable.induct)
    case started
    then show ?case by (simp add: logins_ok_def initial_session_def)
  next
    case (stepped s s')
    then show ?case by (blast intro: logins_ok_step)
  qed
  then show ?thesis using assms(2) by (auto simp: logins_ok_def login_ok_def)
qed

lemma randomSuffix_A: "randomSuffix k (replicate k 32) = Some (replicate k 65)"
  by (induction k) (simp_all add: rejected_draw_def)

theorem logins_are_well_formed_witness:
  "\<exists>s u. session_reachable s \<and> logins s = [(u, True)] \<and> user_name u = lit ''guest_'' @ replicate 6 65 \<and> verifyIdBytes (id_bytes u)"
proof -
  let ?start = "initLogin initial_session" and ?suffix = "replicate 6 65 :: js_string"
  let ?s = "info_answered ?suffix ?suffix (Info None 1000) (?start\<lparr>info_requests := info_requests ?start - 1\<rparr>)"
  have reach: "session_reachable ?s"
    by (rule session_reachable.stepped[OF session_reachable.stepped[OF session_reachable.started session_step.login_started]
          session_step.info_answered[OF _ randomSuffix_A randomSuffix_A]]) (simp add: initLogin_def)
  have "\<exists>u. logins ?s = [(u, True)] \<and> user_name u = lit ''guest_'' @ ?suffix"
    by (simp add: info_answered_def initLogin_def initial_session_def random_login_def userLogin_def Let_def del: lit_Cons)
  then obtain u where "logins ?s = [(u, True)]" "user_name u = lit ''guest_'' @ ?suffix" by blast
  then show ?thesis using logins_are_well_formed[OF reach, of u True] reach by (intro exI[of _ ?s] exI[of _ u]) simp
qed





end
