(* ===== verification/CrossIndex.thy ===== *)
theory CrossIndex
  imports Messages Sprintf "HOL-Library.Sublist"
begin

text \<open>
  Topics in a text (global.js): \<open>plainTextAddCrossIndex\<close> cuts a text into tokens, a topic between two
  hash marks becoming a link, and joins them as HTML. The theorems show that only well-formed topics
  become links, that nothing of the text reaches the HTML unescaped, and what becomes of the text: up
  to five topics it is all there, hash marks after a refused topic twice, and what follows the
  fifth topic is dropped.
\<close>

section \<open>Strings\<close>

definition hash_mark :: code_unit where
  "hash_mark = 35"

text \<open>\<open>indexOf\<close> with a start position, and \<open>substring\<close>, which swaps its arguments if they are in the wrong order.\<close>

definition indexOf :: "js_string \<Rightarrow> code_unit \<Rightarrow> nat \<Rightarrow> nat option" where
  "indexOf s c from = List.find (\<lambda>i. s ! i = c) [from..<length s]"

definition substring :: "js_string \<Rightarrow> nat \<Rightarrow> nat \<Rightarrow> js_string" where
  "substring s a b =
     (let a = min a (length s); b = min b (length s); lo = min a b; hi = max a b
      in take (hi - lo) (drop lo s))"

section \<open>Tokens\<close>

definition MAX_TOPIC_NUMBER :: nat where
  "MAX_TOPIC_NUMBER = 5"

definition MAX_TOPIC_LENGTH :: nat where
  "MAX_TOPIC_LENGTH = 10"

datatype token = Token (isCrossIndex: bool) (token_text: js_string)

text \<open>Text after text is joined to it; everything else is a token of its own.\<close>

definition backAppend :: "token list \<Rightarrow> token \<Rightarrow> token list" where
  "backAppend ts t =
     (if ts = [] then [t]
      else if isCrossIndex t then ts @ [t]
      else if \<not> isCrossIndex (last ts) then
        (if token_text t = [] then ts
         else butlast ts @ [Token False (token_text (last ts) @ token_text t)])
      else ts @ [t])"

text \<open>The expression \<open>jsonReg\<close> finds a character that JSON uses.\<close>

definition json_char :: "code_unit \<Rightarrow> bool" where
  "json_char c \<longleftrightarrow> c \<in> set (lit ''{}[]:'' @ [34, 92, 44, 47])"

definition jsonReg :: "js_string \<Rightarrow> bool" where
  "jsonReg s \<longleftrightarrow> list_ex json_char s"

text \<open>
  The loop. \<open>covered\<close> is \<open>endIndex + 1\<close> of the code, which starts at 0; the positions are never negative
  inside the loop. A round ends the loop or goes on with new values of the variables.
\<close>

datatype round =
    Break "token list"
  | Continue nat nat "token list" nat

definition cross_round :: "js_string \<Rightarrow> nat \<Rightarrow> nat \<Rightarrow> token list \<Rightarrow> nat \<Rightarrow> round" where
  "cross_round s from covered tokens crossIndexNumber =
     (case indexOf s hash_mark from of
        None \<Rightarrow> Break (backAppend tokens (Token False (substring s covered (length s))))
      | Some beginIndex \<Rightarrow>
          if beginIndex \<noteq> covered then
            Continue beginIndex beginIndex
              (backAppend tokens (Token False (substring s covered beginIndex))) crossIndexNumber
          else (case indexOf s hash_mark (beginIndex + 2) of
                  None \<Rightarrow> Break (backAppend tokens (Token False (substring s beginIndex (length s))))
                | Some endIndex \<Rightarrow>
                    if endIndex - beginIndex > MAX_TOPIC_LENGTH + 1 \<or> jsonReg (substring s (beginIndex + 1) endIndex) then
                      Continue endIndex (endIndex + 1)
                        (backAppend tokens (Token False (substring s beginIndex endIndex))) crossIndexNumber
                    else
                      Continue (endIndex + 1) (endIndex + 1)
                        (backAppend tokens (Token True (substring s beginIndex (endIndex + 1)))) (crossIndexNumber + 1)))"

lemma indexOf_Some:
  assumes "indexOf s c from = Some i"
  shows "from \<le> i" "i < length s" "s ! i = c" "\<forall>j. from \<le> j \<and> j < i \<longrightarrow> s ! j \<noteq> c"
proof -
  obtain k where k: "k < length [from..<length s]" "i = [from..<length s] ! k" "s ! i = c"
    "\<forall>j<k. s ! ([from..<length s] ! j) \<noteq> c"
    using assms unfolding indexOf_def by (auto simp: find_Some_iff)
  then have i: "i = from + k" by simp
  show "from \<le> i" "i < length s" "s ! i = c" using k i by simp_all
  show "\<forall>j. from \<le> j \<and> j < i \<longrightarrow> s ! j \<noteq> c"
  proof (intro allI impI)
    fix j assume j: "from \<le> j \<and> j < i"
    then have "j - from < k" "[from..<length s] ! (j - from) = j" using i k(1) by auto
    then show "s ! j \<noteq> c" using k(4) by metis
  qed
qed

lemma indexOf_None: "indexOf s c from = None \<longleftrightarrow> (\<forall>j. from \<le> j \<and> j < length s \<longrightarrow> s ! j \<noteq> c)"
  by (auto simp: indexOf_def find_None_iff)

text \<open>The variables move forward: a round that goes on either only sets \<open>covered\<close> right, or moves the start.\<close>

definition round_measure :: "js_string \<Rightarrow> nat \<Rightarrow> nat \<Rightarrow> nat" where
  "round_measure s from covered = 2 * (length s - from) + (if indexOf s hash_mark from = Some covered then 0 else 1)"

lemma indexOf_self: "i < length s \<Longrightarrow> s ! i = c \<Longrightarrow> indexOf s c i = Some i"
  by (simp add: indexOf_def upt_conv_Cons)

lemma round_decreases:
  assumes "cross_round s from covered tokens n = Continue from' covered' tokens' n'"
  shows "round_measure s from' covered' < round_measure s from covered"
proof (cases "indexOf s hash_mark from")
  case (Some b)
  note b = indexOf_Some[OF Some]
  show ?thesis
  proof (cases "b = covered")
    case False
    then have "from' = b" "covered' = b" using assms Some by (simp_all add: cross_round_def)
    moreover have "indexOf s hash_mark b = Some b" using b by (simp add: indexOf_self)
    ultimately show ?thesis using b Some False by (simp add: round_measure_def)
  next
    case True
    then obtain e where e: "indexOf s hash_mark (b + 2) = Some e" "from' = e \<or> from' = e + 1"
      using assms Some by (auto simp: cross_round_def split: option.splits if_splits)
    have "from < from'" "e < length s" using indexOf_Some[OF e(1)] e(2) b(1) by auto
    then show ?thesis using e(2) by (auto simp: round_measure_def)
  qed
qed (use assms in \<open>simp add: cross_round_def\<close>)

function cross_loop :: "js_string \<Rightarrow> nat \<Rightarrow> nat \<Rightarrow> token list \<Rightarrow> nat \<Rightarrow> token list" where
  "cross_loop s from covered tokens n =
     (case cross_round s from covered tokens n of
        Break tokens \<Rightarrow> tokens
      | Continue from covered tokens n \<Rightarrow>
          if n < MAX_TOPIC_NUMBER then cross_loop s from covered tokens n else tokens)"
  by auto
termination
  by (relation "measure (\<lambda>(s, from, covered, tokens, n). round_measure s from covered)") (auto dest: round_decreases)

declare cross_loop.simps [simp del]

definition cross_tokens :: "js_string \<Rightarrow> token list" where
  "cross_tokens s = cross_loop s 0 0 [] 0"

section \<open>HTML\<close>

text \<open>Setting the text of an element and reading its HTML escapes these characters.\<close>

definition escape_char :: "code_unit \<Rightarrow> js_string" where
  "escape_char c =
     (if c = 38 then lit ''&amp;'' else if c = 60 then lit ''&lt;'' else if c = 62 then lit ''&gt;''
      else if c = 160 then lit ''&nbsp;'' else [c])"

definition escape :: "js_string \<Rightarrow> js_string" where
  "escape s = concat (map escape_char s)"

definition link_open :: js_string where
  "link_open = lit ''<a class='' @ [34] @ lit ''topic'' @ [34] @ lit '' href='' @ [34] @ lit ''javascript:void(0)'' @ [34] @
     lit '' onclick='' @ [39] @ lit ''javascript:onTopicClicked(this)'' @ [39] @ lit ''>''"

definition link_close :: js_string where
  "link_close = lit ''</a>''"

definition FORMAT_CROSS_INDEX_HYPER_LINK :: js_string where
  "FORMAT_CROSS_INDEX_HYPER_LINK = template [link_open, link_close]"

definition token_html :: "token \<Rightarrow> format_error + js_string" where
  "token_html t =
     (let escaped = escape (token_text t)
      in if isCrossIndex t then sprintf FORMAT_CROSS_INDEX_HYPER_LINK [Str escaped] else Inr escaped)"

definition join_html :: "token list \<Rightarrow> format_error + js_string" where
  "join_html ts = fold (\<lambda>t html. bind_ok html (\<lambda>h. bind_ok (token_html t) (\<lambda>x. Inr (h @ x)))) ts (Inr [])"

definition plainTextAddCrossIndex :: "js_string \<Rightarrow> format_error + js_string" where
  "plainTextAddCrossIndex s = join_html (cross_tokens s)"

section \<open>Tokens and the text they come from\<close>

definition topics :: "token list \<Rightarrow> token list" where
  "topics ts = filter isCrossIndex ts"

definition token_concat :: "token list \<Rightarrow> js_string" where
  "token_concat ts = concat (map token_text ts)"

lemma topics_backAppend_text: "topics (backAppend ts (Token False x)) = topics ts"
  by (cases ts rule: rev_cases) (auto simp: topics_def backAppend_def)

lemma topics_backAppend_topic: "topics (backAppend ts (Token True x)) = topics ts @ [Token True x]"
  by (simp add: topics_def backAppend_def)

lemma token_concat_backAppend: "token_concat (backAppend ts t) = token_concat ts @ token_text t"
  by (cases ts rule: rev_cases) (auto simp: token_concat_def backAppend_def)

lemma substring_forward: "a \<le> b \<Longrightarrow> b \<le> length s \<Longrightarrow> substring s a b = take (b - a) (drop a s)"
  by (simp add: substring_def)

lemma take_substring: "a \<le> b \<Longrightarrow> b \<le> length s \<Longrightarrow> take a s @ substring s a b = take b s"
  by (simp add: substring_forward take_add[symmetric])

lemma substring_swapped: "i < length s \<Longrightarrow> substring s (i + 1) i = [s ! i]"
  by (simp add: substring_def take_Suc_conv_app_nth hd_drop_conv_nth[symmetric] take_Suc drop_eq_Nil)

text \<open>A topic is cut out of the text between two hash marks.\<close>

definition topic_in :: "js_string \<Rightarrow> js_string \<Rightarrow> bool" where
  "topic_in s t \<longleftrightarrow>
     (\<exists>u m v. s = u @ t @ v \<and> t = hash_mark # m @ [hash_mark] \<and> m \<noteq> [] \<and> length m \<le> MAX_TOPIC_LENGTH \<and> \<not> list_ex json_char m)"

lemma topic_in_substring:
  assumes "s ! b = hash_mark" "s ! e = hash_mark" "b + 2 \<le> e" "e < length s"
    and "\<not> MAX_TOPIC_LENGTH + 1 < e - b" "\<not> jsonReg (substring s (b + 1) e)"
  shows "topic_in s (substring s b (e + 1))"
proof -
  let ?m = "substring s (b + 1) e"
  have m: "?m = take (e - b - 1) (drop (b + 1) s)" using assms by (simp add: substring_forward)
  have "s = take b s @ drop b s" by simp
  also have "drop b s = s ! b # drop (b + 1) s" using assms(3,4) Cons_nth_drop_Suc[of b s] by simp
  also have "drop (b + 1) s = ?m @ drop (e - b - 1) (drop (b + 1) s)"
    unfolding m by (rule append_take_drop_id[symmetric])
  also have "drop (e - b - 1) (drop (b + 1) s) = drop e s" using assms by simp
  also have "drop e s = s ! e # drop (e + 1) s" using assms(4) Cons_nth_drop_Suc[of e s] by simp
  finally have split: "s = take b s @ (hash_mark # ?m @ [hash_mark]) @ drop (e + 1) s" using assms(1,2) by simp
  have len: "length ?m = e - b - 1" unfolding m length_take length_drop using assms(3,4) by linarith
  have "substring s b (e + 1) = take (e + 1 - b) (drop b s)" using assms by (simp add: substring_forward)
  also have "drop b s = (hash_mark # ?m @ [hash_mark]) @ drop (e + 1) s"
    using split assms(3,4) by (metis append_eq_conv_conj append_take_drop_id)
  also have "e + 1 - b = length (hash_mark # ?m @ [hash_mark])" using len assms(3) by simp
  also have "take (length (hash_mark # ?m @ [hash_mark])) ((hash_mark # ?m @ [hash_mark]) @ drop (e + 1) s) = hash_mark # ?m @ [hash_mark]"
    by (simp only: take_append take_all_iff diff_self_eq_0 take0 append_Nil2 order_refl)
  finally have t: "substring s b (e + 1) = hash_mark # ?m @ [hash_mark]" .
  have "length ?m \<noteq> 0" using len assms(3) by linarith
  then have "?m \<noteq> []" by auto
  then show ?thesis using split t len assms(5,6) unfolding topic_in_def jsonReg_def by force
qed


section \<open>The loop\<close>

text \<open>What the tokens hold of the text after each round, apart from hash marks that were doubled.\<close>

definition letters :: "js_string \<Rightarrow> js_string" where
  "letters s = filter (\<lambda>c. c \<noteq> hash_mark) s"

definition holds_text :: "js_string \<Rightarrow> nat \<Rightarrow> token list \<Rightarrow> bool" where
  "holds_text s k ts \<longleftrightarrow> k \<le> length s \<and> letters (token_concat ts) = letters (take k s) \<and> subseq (take k s) (token_concat ts)"

definition tokens_ok :: "js_string \<Rightarrow> nat \<Rightarrow> token list \<Rightarrow> bool" where
  "tokens_ok s n ts \<longleftrightarrow> length (topics ts) = n \<and> (\<forall>t\<in>set (topics ts). topic_in s (token_text t))"

definition loop_inv :: "js_string \<Rightarrow> nat \<Rightarrow> nat \<Rightarrow> token list \<Rightarrow> nat \<Rightarrow> bool" where
  "loop_inv s from covered ts n \<longleftrightarrow>
     holds_text s from ts \<and> tokens_ok s n ts \<and>
     (covered = from \<or> covered = from + 1 \<and> from < length s \<and> s ! from = hash_mark)"

lemma holds_text_append:
  assumes "holds_text s a ts" "a \<le> b" "b \<le> length s" "token_text t = substring s a b"
  shows "holds_text s b (backAppend ts t)"
proof -
  have "take b s = take a s @ substring s a b" using take_substring[OF assms(2,3)] by simp
  then show ?thesis
    using assms by (auto simp: holds_text_def token_concat_backAppend letters_def intro: list_emb_append_mono)
qed

lemma holds_text_mark:
  assumes "holds_text s a ts" "token_text t = [hash_mark]"
  shows "holds_text s a (backAppend ts t)"
  using assms by (auto simp: holds_text_def token_concat_backAppend letters_def intro: subseq_order.trans list_emb_append2 subseq_rev_drop_many)

lemma tokens_ok_text: "tokens_ok s n ts \<Longrightarrow> tokens_ok s n (backAppend ts (Token False x))"
  by (simp add: tokens_ok_def topics_backAppend_text)

lemma tokens_ok_topic: "tokens_ok s n ts \<Longrightarrow> topic_in s x \<Longrightarrow> tokens_ok s (n + 1) (backAppend ts (Token True x))"
  by (auto simp: tokens_ok_def topics_backAppend_topic)

lemma round_inv:
  assumes "loop_inv s from covered ts n"
  shows "case cross_round s from covered ts n of
      Break ts' \<Rightarrow> holds_text s (length s) ts' \<and> tokens_ok s n ts'
    | Continue from' covered' ts' n' \<Rightarrow> loop_inv s from' covered' ts' n'"
proof -
  have h: "holds_text s from ts" and t: "tokens_ok s n ts" using assms by (simp_all add: loop_inv_def)
  have le: "from \<le> length s" using h by (simp add: holds_text_def)
  consider (normal) "covered = from" | (pending) "covered = from + 1" "from < length s" "s ! from = hash_mark"
    using assms by (auto simp: loop_inv_def)
  then show ?thesis
  proof cases
    case pending
    have "indexOf s hash_mark from = Some from" using pending by (simp add: indexOf_self)
    then show ?thesis
      using h t pending substring_swapped[of "from" s] holds_text_mark[OF h, of "Token False [hash_mark]"]
      by (simp add: cross_round_def loop_inv_def tokens_ok_text)
  next
    case normal
    show ?thesis
    proof (cases "indexOf s hash_mark from")
      case None
      then show ?thesis
        using h t le normal by (simp add: cross_round_def holds_text_append tokens_ok_text)
    next
      case (Some b)
      note b = indexOf_Some[OF Some]
      show ?thesis
      proof (cases "b = from")
        case False
        then show ?thesis
          using Some b h t normal by (simp add: cross_round_def loop_inv_def holds_text_append tokens_ok_text)
      next
        case True
        show ?thesis
        proof (cases "indexOf s hash_mark (b + 2)")
          case None
          then show ?thesis
            using Some True le h t normal by (simp add: cross_round_def holds_text_append tokens_ok_text)
        next
          case (Some e)
          note e = indexOf_Some[OF Some]
          have hb: "holds_text s b ts" using h True by simp
          have refused: "holds_text s e (backAppend ts (Token False (substring s b e)))"
            by (rule holds_text_append[OF hb]) (use e in simp_all)
          have found: "holds_text s (e + 1) (backAppend ts (Token True (substring s b (e + 1))))"
            by (rule holds_text_append[OF hb]) (use e in simp_all)
          show ?thesis
          proof (cases "MAX_TOPIC_LENGTH + 1 < e - b \<or> jsonReg (substring s (b + 1) e)")
            case bad: True
            then show ?thesis
              using \<open>indexOf s hash_mark from = Some b\<close> Some True normal refused t e
              by (simp add: cross_round_def loop_inv_def tokens_ok_text)
          next
            case good: False
            have "topic_in s (substring s b (e + 1))"
              using b(3) e good by (intro topic_in_substring) auto
            then have "tokens_ok s (n + 1) (backAppend ts (Token True (substring s b (e + 1))))"
              using t by (rule tokens_ok_topic[rotated])
            then show ?thesis
              using \<open>indexOf s hash_mark from = Some b\<close> Some True normal found good
              by (simp add: cross_round_def loop_inv_def)
          qed
        qed
      qed
    qed
  qed
qed

lemma loop_result:
  assumes "loop_inv s from covered ts n" "n < MAX_TOPIC_NUMBER"
  shows "\<exists>k n'. holds_text s k (cross_loop s from covered ts n) \<and> tokens_ok s n' (cross_loop s from covered ts n) \<and>
    (n' < MAX_TOPIC_NUMBER \<longrightarrow> k = length s) \<and> n' \<le> MAX_TOPIC_NUMBER"
  using assms
proof (induction s "from" covered ts n rule: cross_loop.induct)
  case (1 s "from" covered ts n)
  note inv = round_inv[OF 1(2)]
  show ?case
  proof (cases "cross_round s from covered ts n")
    case (Break ts')
    then have "cross_loop s from covered ts n = ts'" by (subst cross_loop.simps) simp
    then show ?thesis using inv Break 1(3) by (intro exI[of _ "length s"] exI[of _ n]) simp
  next
    case (Continue from' covered' ts' n')
    have next_inv: "loop_inv s from' covered' ts' n'" using inv Continue by simp
    have step: "n' \<le> n + 1" using Continue by (auto simp: cross_round_def split: option.splits if_splits)
    show ?thesis
    proof (cases "n' < MAX_TOPIC_NUMBER")
      case True
      then show ?thesis using 1(1)[OF Continue True next_inv True] Continue by (subst (1 2) cross_loop.simps) simp
    next
      case False
      then have "cross_loop s from covered ts n = ts'" using Continue by (subst cross_loop.simps) simp
      then show ?thesis
        using next_inv False step 1(3) by (intro exI[of _ from'] exI[of _ n']) (simp add: loop_inv_def)
    qed
  qed
qed

lemma cross_tokens_result:
  "\<exists>k n. holds_text s k (cross_tokens s) \<and> tokens_ok s n (cross_tokens s) \<and>
     (n < MAX_TOPIC_NUMBER \<longrightarrow> k = length s) \<and> n \<le> MAX_TOPIC_NUMBER"
  unfolding cross_tokens_def
  by (rule loop_result) (simp_all add: loop_inv_def holds_text_def tokens_ok_def topics_def token_concat_def letters_def MAX_TOPIC_NUMBER_def)

section \<open>The HTML\<close>

definition token_view :: "token \<Rightarrow> js_string" where
  "token_view t =
     (if isCrossIndex t then link_open @ escape (token_text t) @ link_close else escape (token_text t))"

lemma token_html_view: "token_html t = Inr (token_view t)"
proof -
  have "list_all plain [link_open, link_close]"
    by (simp add: plain_def percent_def link_open_def link_close_def)
  from sprintf_woven[OF this, of "[escape (token_text t)]"] show ?thesis
    by (simp add: token_html_def token_view_def FORMAT_CROSS_INDEX_HYPER_LINK_def Let_def del: template.simps)
qed

lemma join_html_view: "join_html ts = Inr (concat (map token_view ts))"
proof -
  have "fold (\<lambda>t html. bind_ok html (\<lambda>h. bind_ok (token_html t) (\<lambda>x. Inr (h @ x)))) ts (Inr h) =
      Inr (h @ concat (map token_view ts))" for h
    by (induction ts arbitrary: h) (simp_all add: token_html_view)
  from this[of "[]"] show ?thesis by (simp add: join_html_def)
qed

lemma escape_no_markup: "60 \<notin> set (escape s)" "62 \<notin> set (escape s)"
proof -
  have "60 \<notin> set (escape_char c) \<and> 62 \<notin> set (escape_char c)" for c by (simp add: escape_char_def)
  then show "60 \<notin> set (escape s)" "62 \<notin> set (escape s)" by (simp_all add: escape_def)
qed

section \<open>What the HTML shows\<close>

text \<open>
  The text that a browser shows for a piece of HTML: tags are skipped, and the entities that
  \<open>escape\<close> uses stand for their characters.
\<close>

definition entities :: "(js_string \<times> code_unit) list" where
  "entities = [(lit ''amp;'', 38), (lit ''lt;'', 60), (lit ''gt;'', 62), (lit ''nbsp;'', 160)]"

function visible_text :: "js_string \<Rightarrow> js_string" where
  "visible_text [] = []"
| "visible_text (c # s) =
     (if c = 60 then visible_text (tl (dropWhile (\<lambda>c. c \<noteq> 62) s))
      else if c = 38 then
        (case find (\<lambda>(e, _). take (length e) s = e) entities of
           Some (e, x) \<Rightarrow> x # visible_text (drop (length e) s)
         | None \<Rightarrow> c # visible_text s)
      else c # visible_text s)"
  by pat_completeness auto
termination
  by (relation "measure length") (auto simp: less_Suc_eq_le intro: le_trans[OF diff_le_self length_dropWhile_le])

lemma visible_escape_char: "visible_text (escape_char c @ r) = c # visible_text r"
  by (simp add: escape_char_def entities_def)

lemma visible_escape: "visible_text (escape s @ r) = s @ visible_text r"
  by (induction s) (simp_all add: escape_def visible_escape_char)

lemma visible_link: "visible_text (link_open @ r) = visible_text r" "visible_text (link_close @ r) = visible_text r"
  by (simp_all add: link_open_def link_close_def)

lemma visible_tokens: "visible_text (concat (map token_view ts)) = token_concat ts"
proof (induction ts)
  case (Cons t ts)
  then show ?case by (simp add: token_view_def visible_escape visible_link token_concat_def)
qed (simp add: token_concat_def)

lemma links_topics:
  "(\<forall>t\<in>set (cross_tokens s). isCrossIndex t \<longrightarrow>
     (\<exists>u m v. token_text t = [35] @ m @ [35] \<and> s = u @ token_text t @ v \<and>
        1 \<le> length m \<and> length m \<le> 10 \<and> \<not> list_ex json_char m)) \<and>
   length (filter isCrossIndex (cross_tokens s)) \<le> 5"
proof -
  obtain n where n: "tokens_ok s n (cross_tokens s)" "n \<le> MAX_TOPIC_NUMBER" using cross_tokens_result[of s] by blast
  have "\<exists>u m v. x = [35] @ m @ [35] \<and> s = u @ x @ v \<and> 1 \<le> length m \<and> length m \<le> 10 \<and> \<not> list_ex json_char m"
    if "topic_in s x" for x
    using that unfolding topic_in_def hash_mark_def MAX_TOPIC_LENGTH_def
    by (metis append_Cons append_Nil Suc_leI length_greater_0_conv One_nat_def)
  then show ?thesis using n by (auto simp: tokens_ok_def topics_def MAX_TOPIC_NUMBER_def)
qed

section \<open>Properties\<close>

text \<open>
  C28: Only well-formed topics become links: each is cut out of the text, stands between two hash marks,
  has one to ten characters inside and none that JSON uses; and there are at most five.
\<close>

theorem links_are_topics:
  "(\<forall>t\<in>set (cross_tokens s). isCrossIndex t \<longrightarrow>
     (\<exists>u m v. token_text t = [35] @ m @ [35] \<and> s = u @ token_text t @ v \<and>
        1 \<le> length m \<and> length m \<le> 10 \<and> \<not> list_ex json_char m)) \<and>
   length (filter isCrossIndex (cross_tokens s)) \<le> 5"
  by (rule links_topics)

lemmas cross_eval = cross_tokens_def cross_loop.simps cross_round_def indexOf_def substring_def upt_rec hash_mark_def
  backAppend_def MAX_TOPIC_LENGTH_def MAX_TOPIC_NUMBER_def jsonReg_def json_char_def

lemma cross_example:
  "cross_tokens (lit ''a#b#'') = [Token False (lit ''a''), Token True (lit ''#b#''), Token False []]"
  by (simp add: cross_eval)

theorem links_are_topics_witness:
  "\<exists>u m v. lit ''#b#'' = [35] @ m @ [35] \<and> lit ''a#b#'' = u @ lit ''#b#'' @ v \<and> 1 \<le> length m \<and> length m \<le> 10"
proof -
  have "Token True (lit ''#b#'') \<in> set (cross_tokens (lit ''a#b#''))" by (simp add: cross_example del: lit_Cons)
  from bspec[OF conjunct1[OF links_are_topics] this] show ?thesis by (simp only: token.sel) blast
qed

text \<open>
  C29: What becomes of the text: there is a position up to which every character of the text is in the tokens,
  in order, and apart from hash marks nothing else is. With fewer than five topics it is the end of the text.
\<close>

theorem text_is_kept:
  "\<exists>k\<le>length s. subseq (take k s) (concat (map token_text (cross_tokens s))) \<and>
     filter (\<lambda>c. c \<noteq> 35) (concat (map token_text (cross_tokens s))) = filter (\<lambda>c. c \<noteq> 35) (take k s) \<and>
     (length (filter isCrossIndex (cross_tokens s)) < 5 \<longrightarrow> k = length s)"
  using cross_tokens_result[of s]
  by (auto simp: holds_text_def tokens_ok_def topics_def token_concat_def letters_def hash_mark_def MAX_TOPIC_NUMBER_def)

theorem text_is_kept_witness: "subseq (lit ''a#b#'') (concat (map token_text (cross_tokens (lit ''a#b#''))))"
  using text_is_kept[of "lit ''a#b#''"] unfolding cross_example by (auto simp del: lit_Cons)

text \<open>
  C30: The HTML of a text is the escaped text of the tokens, with the two fixed pieces of the link around a
  topic: no character of the text can open or close an element, and what the browser shows is the
  text of the tokens.
\<close>

theorem html_of_text_is_safe:
  "plainTextAddCrossIndex s = Inr (concat (map (\<lambda>t.
      if isCrossIndex t then link_open @ escape (token_text t) @ link_close else escape (token_text t)) (cross_tokens s))) \<and>
   visible_text (concat (map (\<lambda>t.
      if isCrossIndex t then link_open @ escape (token_text t) @ link_close else escape (token_text t)) (cross_tokens s))) =
     concat (map token_text (cross_tokens s)) \<and>
   60 \<notin> set (escape x) \<and> 62 \<notin> set (escape x)"
  using visible_tokens[of "cross_tokens s"]
  by (simp add: plainTextAddCrossIndex_def join_html_view token_view_def escape_no_markup token_concat_def cong: map_cong)

section \<open>Two losses\<close>

text \<open>After a refused topic the hash mark comes twice; what follows the fifth topic is dropped.\<close>

lemma doubled_mark: "concat (map token_text (cross_tokens (lit ''#,#b#''))) = lit ''#,##b#''"
  by (simp add: cross_eval)

lemma dropped_rest: "concat (map token_text (cross_tokens (lit ''#a##b##c##d##e#f''))) = lit ''#a##b##c##d##e#''"
  by (simp add: cross_eval)

end
