(* ===== verification/HtmlFormat.thy ===== *)
theory HtmlFormat
  imports Sprintf
begin

text \<open>
  The templates of html_format.js and the localised texts of i18n_zh_CN.js that rows of messages are built
  from, character by character. A template is given by its pieces, between which the
  conversions stand.
\<close>

section \<open>Templates\<close>

definition FORMAT_REFERENCE_TEXT_MESSAGE_pieces :: "js_string list" where
  "FORMAT_REFERENCE_TEXT_MESSAGE_pieces =
    [lit ''<br/>                             <div class='' @ [34] @ lit ''referenced-message'' @ [34] @
     lit '' data-role='' @ [34] @ lit ''collapsible'' @ [34] @ lit '' '' @ [10] @
     lit ''                             data-collapsed='' @ [34] @ lit ''false'' @ [34] @ lit '' '' @ [10] @
     lit '' data-theme='' @ [34] @ lit ''a'' @ [34] @ lit '' '' @ [10] @
     lit ''                             data-content-theme='' @ [34] @ lit ''a'' @ [34] @
     lit '' data-mini='' @ [34] @ lit ''true'' @ [34] @ lit ''> '' @ [10] @
     lit ''                             <h6><small class='' @ [34] @ lit ''user-name-text'' @ [34] @
     lit ''>'',
     lit ''</small><small>'',
     lit ''</small></h6> <p>'',
     lit ''</p> </div>'']"

definition FORMAT_REFERENCE_TEXT_MESSAGE :: js_string where
  "FORMAT_REFERENCE_TEXT_MESSAGE = template FORMAT_REFERENCE_TEXT_MESSAGE_pieces"

definition FORMAT_REFERENCE_IMAGE_SHARE_pieces :: "js_string list" where
  "FORMAT_REFERENCE_IMAGE_SHARE_pieces =
    [lit ''<br/>                                  <div align='' @ [34] @ lit ''center'' @ [34] @
     lit ''>                                  <a class='' @ [34] @ lit ''fancybox'' @ [34] @ lit '' href='' @
     [34] @ lit ''upload/'',
     [34] @ lit ''                                  title='' @ [34],
     [34] @ lit ''>                                  <img src='' @ [34] @ lit ''upload/'',
     [34] @ lit ''                                  class='' @ [34] @ lit ''message-share-img'' @ [34] @
     lit ''></img></a></div>'']"

definition FORMAT_REFERENCE_IMAGE_SHARE :: js_string where
  "FORMAT_REFERENCE_IMAGE_SHARE = template FORMAT_REFERENCE_IMAGE_SHARE_pieces"

definition FORMAT_REFERENCE_AUDIO_SHARE_pieces :: "js_string list" where
  "FORMAT_REFERENCE_AUDIO_SHARE_pieces =
    [lit ''<div><a href='' @ [34] @ lit ''javascript:popupAndPlay(false,'' @ [39],
     [39] @ lit '')'' @ [34] @ lit ''>'',
     lit ''</a> '' @ [9, 9, 9, 9] @ lit '' <a href='' @ [34] @ lit ''upload/'',
     [34] @ lit '' target='' @ [34] @ lit ''_blank'' @ [34] @ lit ''>'',
     lit ''</a> '' @ [9, 9, 9, 9] @ lit '' <a href='' @ [34] @ lit ''upload/'',
     [34] @ lit '' target='' @ [34] @ lit ''_blank'' @ [34] @ lit '' download='' @ [34],
     [34] @ lit ''>'',
     lit ''</a></div>'']"

definition FORMAT_REFERENCE_AUDIO_SHARE :: js_string where
  "FORMAT_REFERENCE_AUDIO_SHARE = template FORMAT_REFERENCE_AUDIO_SHARE_pieces"

definition FORMAT_REFERENCE_VIDEO_SHARE_pieces :: "js_string list" where
  "FORMAT_REFERENCE_VIDEO_SHARE_pieces =
    [lit ''<div><a href='' @ [34] @ lit ''javascript:popupAndPlay(true,'' @ [39],
     [39] @ lit '')'' @ [34] @ lit ''>'',
     lit ''</a> '' @ [9, 9, 9, 9] @ lit '' <a href='' @ [34] @ lit ''upload/'',
     [34] @ lit '' target='' @ [34] @ lit ''_blank'' @ [34] @ lit ''>'',
     lit ''</a> '' @ [9, 9, 9, 9] @ lit '' <a href='' @ [34] @ lit ''upload/'',
     [34] @ lit '' target='' @ [34] @ lit ''_blank'' @ [34] @ lit '' download='' @ [34],
     [34] @ lit ''>'',
     lit ''</a></div>'']"

definition FORMAT_REFERENCE_VIDEO_SHARE :: js_string where
  "FORMAT_REFERENCE_VIDEO_SHARE = template FORMAT_REFERENCE_VIDEO_SHARE_pieces"

definition FORMAT_NORMAL_FILE_SHARE_pieces :: "js_string list" where
  "FORMAT_NORMAL_FILE_SHARE_pieces =
    [lit ''<a href='' @ [34] @ lit ''upload/'',
     [34] @ lit '' download='' @ [34],
     [34] @ lit '' target='' @ [34] @ lit ''_blank'' @ [34] @ lit ''>'',
     lit ''</a>'']"

definition FORMAT_NORMAL_FILE_SHARE :: js_string where
  "FORMAT_NORMAL_FILE_SHARE = template FORMAT_NORMAL_FILE_SHARE_pieces"

definition FORMAT_LAZY_MESSAGE_ROW_pieces :: "js_string list" where
  "FORMAT_LAZY_MESSAGE_ROW_pieces =
    [lit ''<li id='' @ [34],
     [34] @ lit '' data-role='' @ [34] @ lit ''fieldcontain'' @ [34] @ lit '' class='' @ [34] @
     lit ''lazyMessageList-li'' @ [34] @ lit ''> '' @ [10] @ lit ''                                <div> '' @
     [10] @ lit ''                                    <img src='' @ [34] @ lit ''img/avatar.jpg'' @ [34] @
     lit '' class='' @ [34] @ lit ''user-avatar-img'' @ [34] @ lit ''></img> '' @ [10] @
     lit ''                                    <a href='' @ [34] @ lit ''javascript:void(0)'' @ [34] @
     lit '' style='' @ [34] @ lit ''padding-top:3px;'' @ [34] @ lit '' '' @ [10] @
     lit ''                                        onclick='' @ [39] @
     lit ''onLinkPopupMessageMenuClicked(this)'' @ [39] @ lit ''> '' @ [10] @
     lit ''                                    <h4 class='' @ [34] @ lit ''user-name-text'' @ [34] @
     lit ''>'',
     lit ''</h4></a> '' @ [10] @ lit ''                                </div> '' @ [10] @
     lit ''                                <div class='' @ [34] @ lit ''message-info-bar'' @ [34] @
     lit ''>'',
     lit '' '',
     lit '' '',
     lit ''</div></li>'']"

definition FORMAT_LAZY_MESSAGE_ROW :: js_string where
  "FORMAT_LAZY_MESSAGE_ROW = template FORMAT_LAZY_MESSAGE_ROW_pieces"

definition FORMAT_PLAIN_TEXT_MESSAGE_HTML_pieces :: "js_string list" where
  "FORMAT_PLAIN_TEXT_MESSAGE_HTML_pieces =
    [lit ''<p class='' @ [34],
     lit '' plain-text lazyMessageList-li-p'' @ [34] @ lit ''>'',
     lit ''</p>'']"

definition FORMAT_PLAIN_TEXT_MESSAGE_HTML :: js_string where
  "FORMAT_PLAIN_TEXT_MESSAGE_HTML = template FORMAT_PLAIN_TEXT_MESSAGE_HTML_pieces"

definition FORMAT_VOTE_OPTION_VOTED_TEXT_pieces :: "js_string list" where
  "FORMAT_VOTE_OPTION_VOTED_TEXT_pieces =
    [lit ''<p>'',
     lit ''</p>'']"

definition FORMAT_VOTE_OPTION_VOTED_TEXT :: js_string where
  "FORMAT_VOTE_OPTION_VOTED_TEXT = template FORMAT_VOTE_OPTION_VOTED_TEXT_pieces"

definition FORMAT_VOTE_OF_ME_VOTED_pieces :: "js_string list" where
  "FORMAT_VOTE_OF_ME_VOTED_pieces =
    [lit ''<div><p>'',
     lit ''</p></div>'']"

definition FORMAT_VOTE_OF_ME_VOTED :: js_string where
  "FORMAT_VOTE_OF_ME_VOTED = template FORMAT_VOTE_OF_ME_VOTED_pieces"

definition FORMAT_VOTE_TOPIC_OPTION_MULTI_SELECTION_ROW_pieces :: "js_string list" where
  "FORMAT_VOTE_TOPIC_OPTION_MULTI_SELECTION_ROW_pieces =
    [lit ''<input name='' @ [34],
     [34] @ lit '' id='' @ [34],
     [34] @ lit '' type='' @ [34] @ lit ''checkbox'' @ [34] @ lit '' data-mini='' @ [34] @ lit ''true'' @
     [34] @ lit ''> '' @ [10] @ lit ''             <label for='' @ [34],
     [34] @ lit ''>'',
     lit ''</label> '' @ [10]]"

definition FORMAT_VOTE_TOPIC_OPTION_MULTI_SELECTION_ROW :: js_string where
  "FORMAT_VOTE_TOPIC_OPTION_MULTI_SELECTION_ROW = template FORMAT_VOTE_TOPIC_OPTION_MULTI_SELECTION_ROW_pieces"

definition FORMAT_VOTE_TOPIC_OPTION_ROW_pieces :: "js_string list" where
  "FORMAT_VOTE_TOPIC_OPTION_ROW_pieces =
    [lit ''<input name='' @ [34],
     [34] @ lit '' id='' @ [34],
     [34] @ lit ''  type='' @ [34] @ lit ''radio'' @ [34] @ lit ''> '' @ [10] @
     lit ''             <label for='' @ [34],
     [34] @ lit ''>'',
     lit ''</label> '' @ [10]]"

definition FORMAT_VOTE_TOPIC_OPTION_ROW :: js_string where
  "FORMAT_VOTE_TOPIC_OPTION_ROW = template FORMAT_VOTE_TOPIC_OPTION_ROW_pieces"

definition FORMAT_USER_QUERY_RESULT_ROW_pieces :: "js_string list" where
  "FORMAT_USER_QUERY_RESULT_ROW_pieces =
    [lit ''<li data-role='' @ [34] @ lit ''fieldcontain'' @ [34] @
     lit ''>                                  <img src='' @ [34] @ lit ''img/avatar.jpg'' @ [34] @
     lit '' class='' @ [34] @ lit ''user-avatar-img'' @ [34] @
     lit ''></img>                                  <h4 class='' @ [34] @ lit ''user-name-text'' @ [34] @
     lit ''>'',
     lit ''</h4>                                  <p class='' @ [34] @ lit ''shortMessage'' @ [34] @
     lit ''>'',
     lit ''</p></li>'']"

definition FORMAT_USER_QUERY_RESULT_ROW :: js_string where
  "FORMAT_USER_QUERY_RESULT_ROW = template FORMAT_USER_QUERY_RESULT_ROW_pieces"

definition TEXT_VOTE_TOPIC_VOTED_NUMBER_pieces :: "js_string list" where
  "TEXT_VOTE_TOPIC_VOTED_NUMBER_pieces =
    [lit ''('' @ [0x5DF2, 0x6709],
     [0x4EBA, 0x53C2, 0x4E0E] @ lit ''):'']"

definition TEXT_VOTE_TOPIC_VOTED_NUMBER :: js_string where
  "TEXT_VOTE_TOPIC_VOTED_NUMBER = template TEXT_VOTE_TOPIC_VOTED_NUMBER_pieces"

definition TEXT_USER_QUERY_RESULT_ROW_pieces :: "js_string list" where
  "TEXT_USER_QUERY_RESULT_ROW_pieces =
    [[0x521B, 0x5EFA, 0x65F6, 0x95F4] @ lit '':'',
     lit '' '' @ [0x4ED6, 0x7684, 0x5FAE, 0x535A] @ lit '':'',
     lit '' <br> '' @ [0x4E2A, 0x4EBA, 0x8BF4, 0x660E] @ lit '':'',
     []]"

definition TEXT_USER_QUERY_RESULT_ROW :: js_string where
  "TEXT_USER_QUERY_RESULT_ROW = template TEXT_USER_QUERY_RESULT_ROW_pieces"

definition TEXT_VOTE_OF_ME_TITILE_pieces :: "js_string list" where
  "TEXT_VOTE_OF_ME_TITILE_pieces =
    [[0x6295, 0x7968, 0x7ED9] @ lit '':'',
     []]"

definition TEXT_VOTE_OF_ME_TITILE :: js_string where
  "TEXT_VOTE_OF_ME_TITILE = template TEXT_VOTE_OF_ME_TITILE_pieces"

definition TEXT_VOTE_TOPIC_SENDER_INFO_pieces :: "js_string list" where
  "TEXT_VOTE_TOPIC_SENDER_INFO_pieces =
    [[],
     [0x53D1, 0x8D77, 0x6295, 0x7968] @ lit '':'']"

definition TEXT_VOTE_TOPIC_SENDER_INFO :: js_string where
  "TEXT_VOTE_TOPIC_SENDER_INFO = template TEXT_VOTE_TOPIC_SENDER_INFO_pieces"

section \<open>Texts\<close>

definition TEXT_IMAGE :: js_string where
  "TEXT_IMAGE = [0x56FE, 0x7247]"

definition TEXT_FILE_SHARE :: js_string where
  "TEXT_FILE_SHARE = [0x4E0B, 0x8F7D]"

definition TEXT_OPEN_VIDEO_PLAYER :: js_string where
  "TEXT_OPEN_VIDEO_PLAYER = [0x76F4, 0x64AD]"

definition TEXT_OPEN_AUDIO_PLAYER :: js_string where
  "TEXT_OPEN_AUDIO_PLAYER = [0x76F4, 0x64AD]"

definition TEXT_OPEN_VIDEO_BROWSER :: js_string where
  "TEXT_OPEN_VIDEO_BROWSER = [0x76F4, 0x64AD] @ lit ''2''"

definition TEXT_OPEN_AUDIO_BROWSER :: js_string where
  "TEXT_OPEN_AUDIO_BROWSER = [0x76F4, 0x64AD] @ lit ''2''"

definition TEXT_ORIGINAL_MESSAGE :: js_string where
  "TEXT_ORIGINAL_MESSAGE = lit ''  '' @ [0x7684, 0x539F, 0x5FAE, 0x535A] @ lit '':''"

definition TEXT_AGREE :: js_string where
  "TEXT_AGREE = [0x9876]"

definition TEXT_DISAGREE :: js_string where
  "TEXT_DISAGREE = [0x8E29]"

definition TEXT_REFERENCED :: js_string where
  "TEXT_REFERENCED = [0x8F6C, 0x53D1]"

definition TEXT_FLIP_OPTION_VOTE_MULTI :: js_string where
  "TEXT_FLIP_OPTION_VOTE_MULTI = [0x591A, 0x9009]"

definition TEXT_VOTE_TOPIC_NOT_VOTED :: js_string where
  "TEXT_VOTE_TOPIC_NOT_VOTED = [0x5C0F, 0x6295, 0x7968] @ lit '','' @ [0x60A8, 0x5C1A, 0x672A, 0x53C2, 0x4E0E] @ lit '':''"

definition TEXT_VOTE_OPTION_NOT_VOTED :: js_string where
  "TEXT_VOTE_OPTION_NOT_VOTED = lit ''('' @ [0x60A8, 0x53C2, 0x4E0E, 0x6295, 0x7968, 0x540E, 0x53EF, 0x89C1] @ lit '')''"

definition TEXT_VOTE_TOPIC_VOTED :: js_string where
  "TEXT_VOTE_TOPIC_VOTED = [0x5C0F, 0x6295, 0x7968]"

definition TEXT_VOTE_INVISIBLE :: js_string where
  "TEXT_VOTE_INVISIBLE = [0x533F, 0x540D, 0x6295, 0x7968]"

definition TEXT_VOTE_OPTION_VOTED_NUMBER :: js_string where
  "TEXT_VOTE_OPTION_VOTED_NUMBER = lit ''(%3.2f%%,%s'' @ [0x7968] @ lit '')''"

section \<open>The templates have only plain conversions\<close>

lemma plain_FORMAT_REFERENCE_TEXT_MESSAGE: "list_all plain FORMAT_REFERENCE_TEXT_MESSAGE_pieces"
  by (simp add: FORMAT_REFERENCE_TEXT_MESSAGE_pieces_def plain_def percent_def)

lemma plain_FORMAT_REFERENCE_IMAGE_SHARE: "list_all plain FORMAT_REFERENCE_IMAGE_SHARE_pieces"
  by (simp add: FORMAT_REFERENCE_IMAGE_SHARE_pieces_def plain_def percent_def)

lemma plain_FORMAT_REFERENCE_AUDIO_SHARE: "list_all plain FORMAT_REFERENCE_AUDIO_SHARE_pieces"
  by (simp add: FORMAT_REFERENCE_AUDIO_SHARE_pieces_def plain_def percent_def)

lemma plain_FORMAT_REFERENCE_VIDEO_SHARE: "list_all plain FORMAT_REFERENCE_VIDEO_SHARE_pieces"
  by (simp add: FORMAT_REFERENCE_VIDEO_SHARE_pieces_def plain_def percent_def)

lemma plain_FORMAT_NORMAL_FILE_SHARE: "list_all plain FORMAT_NORMAL_FILE_SHARE_pieces"
  by (simp add: FORMAT_NORMAL_FILE_SHARE_pieces_def plain_def percent_def)

lemma plain_FORMAT_LAZY_MESSAGE_ROW: "list_all plain FORMAT_LAZY_MESSAGE_ROW_pieces"
  by (simp add: FORMAT_LAZY_MESSAGE_ROW_pieces_def plain_def percent_def)

lemma plain_FORMAT_PLAIN_TEXT_MESSAGE_HTML: "list_all plain FORMAT_PLAIN_TEXT_MESSAGE_HTML_pieces"
  by (simp add: FORMAT_PLAIN_TEXT_MESSAGE_HTML_pieces_def plain_def percent_def)

lemma plain_FORMAT_VOTE_OPTION_VOTED_TEXT: "list_all plain FORMAT_VOTE_OPTION_VOTED_TEXT_pieces"
  by (simp add: FORMAT_VOTE_OPTION_VOTED_TEXT_pieces_def plain_def percent_def)

lemma plain_FORMAT_VOTE_OF_ME_VOTED: "list_all plain FORMAT_VOTE_OF_ME_VOTED_pieces"
  by (simp add: FORMAT_VOTE_OF_ME_VOTED_pieces_def plain_def percent_def)

lemma plain_FORMAT_VOTE_TOPIC_OPTION_MULTI_SELECTION_ROW: "list_all plain FORMAT_VOTE_TOPIC_OPTION_MULTI_SELECTION_ROW_pieces"
  by (simp add: FORMAT_VOTE_TOPIC_OPTION_MULTI_SELECTION_ROW_pieces_def plain_def percent_def)

lemma plain_FORMAT_VOTE_TOPIC_OPTION_ROW: "list_all plain FORMAT_VOTE_TOPIC_OPTION_ROW_pieces"
  by (simp add: FORMAT_VOTE_TOPIC_OPTION_ROW_pieces_def plain_def percent_def)

lemma plain_FORMAT_USER_QUERY_RESULT_ROW: "list_all plain FORMAT_USER_QUERY_RESULT_ROW_pieces"
  by (simp add: FORMAT_USER_QUERY_RESULT_ROW_pieces_def plain_def percent_def)

lemma plain_TEXT_VOTE_TOPIC_VOTED_NUMBER: "list_all plain TEXT_VOTE_TOPIC_VOTED_NUMBER_pieces"
  by (simp add: TEXT_VOTE_TOPIC_VOTED_NUMBER_pieces_def plain_def percent_def)

lemma plain_TEXT_USER_QUERY_RESULT_ROW: "list_all plain TEXT_USER_QUERY_RESULT_ROW_pieces"
  by (simp add: TEXT_USER_QUERY_RESULT_ROW_pieces_def plain_def percent_def)

lemma plain_TEXT_VOTE_OF_ME_TITILE: "list_all plain TEXT_VOTE_OF_ME_TITILE_pieces"
  by (simp add: TEXT_VOTE_OF_ME_TITILE_pieces_def plain_def percent_def)

lemma plain_TEXT_VOTE_TOPIC_SENDER_INFO: "list_all plain TEXT_VOTE_TOPIC_SENDER_INFO_pieces"
  by (simp add: TEXT_VOTE_TOPIC_SENDER_INFO_pieces_def plain_def percent_def)

lemmas plain_pieces =
  plain_FORMAT_REFERENCE_TEXT_MESSAGE plain_FORMAT_REFERENCE_IMAGE_SHARE plain_FORMAT_REFERENCE_AUDIO_SHARE plain_FORMAT_REFERENCE_VIDEO_SHARE
  plain_FORMAT_NORMAL_FILE_SHARE plain_FORMAT_LAZY_MESSAGE_ROW plain_FORMAT_PLAIN_TEXT_MESSAGE_HTML plain_FORMAT_VOTE_OPTION_VOTED_TEXT plain_FORMAT_VOTE_OF_ME_VOTED plain_FORMAT_VOTE_TOPIC_OPTION_MULTI_SELECTION_ROW plain_FORMAT_VOTE_TOPIC_OPTION_ROW plain_FORMAT_USER_QUERY_RESULT_ROW
  plain_TEXT_VOTE_TOPIC_VOTED_NUMBER
  plain_TEXT_USER_QUERY_RESULT_ROW
  plain_TEXT_VOTE_OF_ME_TITILE
  plain_TEXT_VOTE_TOPIC_SENDER_INFO

text \<open>Each of them is put together whatever the arguments are.\<close>

lemmas formatted =
  plain_pieces[THEN sprintf_args_woven, folded
    FORMAT_REFERENCE_TEXT_MESSAGE_def
    FORMAT_REFERENCE_IMAGE_SHARE_def
    FORMAT_REFERENCE_AUDIO_SHARE_def
    FORMAT_REFERENCE_VIDEO_SHARE_def
    FORMAT_NORMAL_FILE_SHARE_def
    FORMAT_LAZY_MESSAGE_ROW_def
    FORMAT_PLAIN_TEXT_MESSAGE_HTML_def
    FORMAT_VOTE_OPTION_VOTED_TEXT_def
    FORMAT_VOTE_OF_ME_VOTED_def
    FORMAT_VOTE_TOPIC_OPTION_MULTI_SELECTION_ROW_def
    FORMAT_VOTE_TOPIC_OPTION_ROW_def
    FORMAT_USER_QUERY_RESULT_ROW_def
    TEXT_VOTE_TOPIC_VOTED_NUMBER_def
    TEXT_USER_QUERY_RESULT_ROW_def
    TEXT_VOTE_OF_ME_TITILE_def
    TEXT_VOTE_TOPIC_SENDER_INFO_def]

end
