(* ===== verification/Search.thy ===== *)
theory Search
  imports Page CrossIndex HtmlFormat
begin

text \<open>
  The search page (search.js, and the search for topics of global.js). A query goes to the server with a kind
  and keywords; its answer is appended to the results, and a topic may be asked for twice, exactly and then
  loosely. The list of identifiers keeps a message from being shown twice: its contract is the locale
  \<open>seen_set\<close>, the client of which is the loop over the results.
\<close>

section \<open>Identifiers that were shown\<close>

definition resultIdList_append :: "'i \<Rightarrow> 'i list \<Rightarrow> bool \<times> 'i list" where
  "resultIdList_append i ids = (if i \<in> set ids then (False, ids) else (True, ids @ [i]))"

text \<open>A store of what was seen: adding answers whether it was new.\<close>

locale seen_set =
  fixes add :: "'i \<Rightarrow> 's \<Rightarrow> bool \<times> 's"
    and none :: 's
    and seen :: "'s \<Rightarrow> 'i set"
  assumes seen_none: "seen none = {}"
    and add_new: "fst (add i s) \<longleftrightarrow> i \<notin> seen s"
    and seen_add: "seen (snd (add i s)) = insert i (seen s)"
begin

text \<open>The loop that takes the new ones of a list, and the same loop over several lists.\<close>

definition take_new :: "('m \<Rightarrow> 'i) \<Rightarrow> 'm list \<Rightarrow> 's \<times> 'm list \<Rightarrow> 's \<times> 'm list" where
  "take_new key ms st = fold (\<lambda>m (s, rows). let (new, s) = add (key m) s in (s, if new then rows @ [m] else rows)) ms st"

lemma take_new_Nil: "take_new key [] st = st"
  by (simp add: take_new_def)

lemma take_new_snoc:
  "take_new key (ms @ [m]) st =
     (case take_new key ms st of (s, rows) \<Rightarrow> (snd (add (key m) s), if fst (add (key m) s) then rows @ [m] else rows))"
  by (simp add: take_new_def split_beta Let_def)

lemma take_new_append: "take_new key (ms @ ms') st = take_new key ms' (take_new key ms st)"
  by (simp add: take_new_def)

lemma remdups_snoc:
  "rev (remdups (rev (xs @ [x]))) = (if x \<in> set xs then rev (remdups (rev xs)) else rev (remdups (rev xs)) @ [x])"
  by simp

lemma take_new_first_seen:
  "seen (fst (take_new key ms (none, []))) = key ` set ms \<and>
   set (map key (snd (take_new key ms (none, [])))) = key ` set ms \<and>
   distinct (map key (snd (take_new key ms (none, [])))) \<and>
   set (snd (take_new key ms (none, []))) \<subseteq> set ms"
proof (induction ms rule: rev_induct)
  case Nil
  then show ?case by (simp add: take_new_Nil seen_none)
next
  case (snoc m ms)
  obtain s rows where st: "take_new key ms (none, []) = (s, rows)" by fastforce
  then show ?case
    using snoc by (auto simp: take_new_snoc add_new seen_add)
qed

end

interpretation shown_ids: seen_set resultIdList_append "[]" set
  by unfold_locales (auto simp: resultIdList_append_def)

section \<open>The state of the page\<close>

datatype target = User_Search | Message_Search
datatype search_type = FUZZY | EXACTLY | TOPIC_EXACTLY | TOPIC_FUZZY

text \<open>A user that was found, with the date and the number of messages as the server writes them, and the row made for it.\<close>

datatype found_user = Found_User (found_name: js_string) (createDate: js_string) (talkNumber: nat) (found_description: js_string)

definition user_row :: "found_user \<Rightarrow> format_error + js_string" where
  "user_row thisUser =
     bind_ok (sprintf TEXT_USER_QUERY_RESULT_ROW
        [Str (createDate thisUser), Num (of_nat (talkNumber thisUser)), Str (found_description thisUser)]) (\<lambda>fillText.
      sprintf FORMAT_USER_QUERY_RESULT_ROW [Str (found_name thisUser), Str fillText])"

lemma user_row_ok: "\<exists>h. user_row u = Inr h"
  by (simp add: user_row_def formatted)

text \<open>A query and what is sent once its answer is on the page.\<close>

datatype query = Query (target: target) (search_type: search_type) (query_words: js_string) (extra: "(search_type \<times> js_string) option")

record search =
  stored :: "(target \<times> js_string) option"
  search_input :: js_string
  search_option :: target
  result_ids :: "js_string list"
  message_rows :: "message list"
  user_rows :: "js_string list"
  list_in_page :: bool
  input_disabled :: bool
  queries :: "query list"
  search_toasts :: "ui_text list"

definition initial_search :: search where
  "initial_search =
     \<lparr>stored = None, search_input = [], search_option = Message_Search, result_ids = [], message_rows = [], user_rows = [],
      list_in_page = True, input_disabled = False, queries = [], search_toasts = []\<rparr>"

definition clearSearchResult :: "search \<Rightarrow> search" where
  "clearSearchResult s = (if list_in_page s then s\<lparr>user_rows := [], result_ids := []\<rparr> else s\<lparr>result_ids := []\<rparr>)"

text \<open>
  A new row is made for each new message, but the list is put into the row instead of the row into the list. The list
  leaves the page with the first row, and nothing that is put into it later is seen.
\<close>

definition append_message :: "message \<Rightarrow> search \<Rightarrow> search" where
  "append_message m s =
     (let (new, ids) = resultIdList_append (idBytes m) (result_ids s)
      in if new then s\<lparr>result_ids := ids, message_rows := message_rows s @ [m], list_in_page := False\<rparr> else s)"

definition appendQueryMessageResults :: "message list \<Rightarrow> search \<Rightarrow> search" where
  "appendQueryMessageResults ms s = fold append_message ms s"

definition prepend_user :: "found_user \<Rightarrow> search \<Rightarrow> search" where
  "prepend_user u s =
     (case user_row u of Inr html \<Rightarrow> if list_in_page s then s\<lparr>user_rows := html # user_rows s\<rparr> else s | Inl _ \<Rightarrow> s)"

definition appendQueryUserResults :: "found_user list \<Rightarrow> search \<Rightarrow> search" where
  "appendQueryUserResults us s = fold prepend_user us s"

definition sendSearchQuery :: "query \<Rightarrow> search \<Rightarrow> search" where
  "sendSearchQuery q s = s\<lparr>queries := queries s @ [q], input_disabled := True\<rparr>"

datatype query_answer = Found_Messages "message list" | Found_Users "found_user list" | Query_Refused js_string

definition query_success :: "query \<Rightarrow> query_answer \<Rightarrow> search \<Rightarrow> search" where
  "query_success q answer s =
     (case answer of
        Query_Refused code \<Rightarrow>
          if code = lit ''NOT_LOGIN'' then s else s\<lparr>search_toasts := search_toasts s @ [error_text code]\<rparr>
      | _ \<Rightarrow>
          (let s = (case answer of Found_Messages ms \<Rightarrow> appendQueryMessageResults ms s
                                 | Found_Users us \<Rightarrow> appendQueryUserResults us s | _ \<Rightarrow> s)
           in case extra q of
                Some (ty, kw) \<Rightarrow> sendSearchQuery (Query Message_Search ty kw None) s
              | None \<Rightarrow> s))"

definition query_error :: "search \<Rightarrow> search" where
  "query_error s = s\<lparr>search_toasts := search_toasts s @ [Verbatim (lit ''network error'')]\<rparr>"

definition query_complete :: "search \<Rightarrow> search" where
  "query_complete s = s\<lparr>input_disabled := False\<rparr>"

section \<open>Ways to search\<close>

text \<open>A short topic is also searched loosely, after the exact search.\<close>

definition sendQueryTopic :: "js_string \<Rightarrow> search \<Rightarrow> search" where
  "sendQueryTopic kw s =
     sendSearchQuery (Query Message_Search TOPIC_EXACTLY kw
       (if length kw < MAX_TOPIC_LENGTH then Some (TOPIC_FUZZY, kw) else None)) s"

text \<open>A topic that was clicked: on another page it is left for the search page, which cuts the marks off.\<close>

definition anyPageSearchTopic :: "bool \<Rightarrow> js_string \<Rightarrow> search \<Rightarrow> search" where
  "anyPageSearchTopic on_search_page topicWithMark s =
     (if \<not> on_search_page then s\<lparr>stored := Some (Message_Search, topicWithMark)\<rparr>
      else sendQueryTopic topicWithMark (s\<lparr>search_input := topicWithMark\<rparr>))"

text \<open>The author of a message is looked up, from its menu on the message page.\<close>

definition onLinkViewAuthorClicked :: "js_string \<Rightarrow> search \<Rightarrow> search" where
  "onLinkViewAuthorClicked u s = s\<lparr>stored := Some (User_Search, u)\<rparr>"

text \<open>
  The search page is shown: an author or a topic may have been left for it. Its kind is stored with it, so
  the last one that was left counts.
\<close>

definition page_search_shown :: "search \<Rightarrow> search" where
  "page_search_shown s =
     (case stored s of
        Some (User_Search, u) \<Rightarrow>
          sendSearchQuery (Query User_Search EXACTLY u None)
            ((clearSearchResult s)\<lparr>search_input := u, search_option := User_Search, stored := None\<rparr>)
      | Some (Message_Search, t) \<Rightarrow>
          sendQueryTopic (substring t 1 (length t - 1))
            ((clearSearchResult s)\<lparr>search_input := t, search_option := Message_Search, stored := None\<rparr>)
      | None \<Rightarrow> s\<lparr>search_input := []\<rparr>)"

definition onInputSearchChanged :: "search \<Rightarrow> search" where
  "onInputSearchChanged s =
     (if search_input s = [] then s
      else sendSearchQuery (Query (search_option s) FUZZY (search_input s) None) (clearSearchResult s))"

section \<open>What is shown\<close>

lemma append_results_run:
  "fold append_message ms s =
     s\<lparr>result_ids := fst (shown_ids.take_new idBytes ms (result_ids s, [])),
       message_rows := message_rows s @ snd (shown_ids.take_new idBytes ms (result_ids s, [])),
       list_in_page := list_in_page s \<and> snd (shown_ids.take_new idBytes ms (result_ids s, [])) = []\<rparr>"
proof (induction ms rule: rev_induct)
  case Nil
  then show ?case by (simp add: shown_ids.take_new_Nil)
next
  case (snoc m ms)
  have old: "ids' = ids" if "resultIdList_append i ids = (False, ids')" for i :: js_string and ids ids'
    using that by (auto simp: resultIdList_append_def split: if_splits)
  show ?case
    using snoc by (auto simp: shown_ids.take_new_snoc append_message_def Let_def dest: old split: prod.splits)
qed

lemma append_answers:
  "fold appendQueryMessageResults answers s = appendQueryMessageResults (concat answers) s"
  by (induction answers arbitrary: s) (simp_all add: appendQueryMessageResults_def)

lemma users_not_shown: "\<not> list_in_page s \<Longrightarrow> appendQueryUserResults us s = s"
  by (induction us arbitrary: s) (simp_all add: appendQueryUserResults_def prepend_user_def split: sum.split)

text \<open>While the list is on the page, the users that are found come first, the last of them at the top.\<close>

lemma users_shown:
  "list_in_page s \<Longrightarrow> map Inr (user_rows (appendQueryUserResults us s)) = rev (map user_row us) @ map Inr (user_rows s)"
proof (induction us arbitrary: s)
  case (Cons u us)
  obtain h where h: "user_row u = Inr h" using user_row_ok by blast
  have "appendQueryUserResults (u # us) s = appendQueryUserResults us (s\<lparr>user_rows := h # user_rows s\<rparr>)"
    using Cons.prems by (simp add: appendQueryUserResults_def prepend_user_def h)
  then show ?case using Cons.IH[of "s\<lparr>user_rows := h # user_rows s\<rparr>"] Cons.prems h by simp
qed (simp add: appendQueryUserResults_def)

text \<open>Once a message was found, the list is gone: users that are found are not shown any more.\<close>

lemma list_leaves_page:
  assumes "idBytes m \<notin> set (result_ids s)"
  shows "\<not> list_in_page (appendQueryMessageResults [m] s) \<and>
    user_rows (appendQueryUserResults us (appendQueryMessageResults [m] s)) = user_rows s"
  using assms users_not_shown
  by (simp add: appendQueryMessageResults_def append_message_def resultIdList_append_def)

text \<open>A topic clicked on the search page is searched with its marks, on another page without.\<close>

lemma topic_marks:
  "map query_words (queries (anyPageSearchTopic True (hash_mark # t @ [hash_mark]) s)) = map query_words (queries s) @ [hash_mark # t @ [hash_mark]] \<and>
   map query_words (queries (page_search_shown (anyPageSearchTopic False (hash_mark # t @ [hash_mark]) s))) = map query_words (queries s) @ [t]"
proof -
  have "substring (hash_mark # t @ [hash_mark]) 1 (length (hash_mark # t @ [hash_mark]) - 1) = t"
    by (simp add: substring_def)
  then show ?thesis
    by (simp add: anyPageSearchTopic_def sendQueryTopic_def sendSearchQuery_def page_search_shown_def clearSearchResult_def)
qed

lemma queries_appended [frame_simps]: "queries (appendQueryMessageResults ms s) = queries s"
  by (simp add: appendQueryMessageResults_def append_results_run)

section \<open>Properties\<close>



end
