(* ===== verification/Render.thy ===== *)
theory Render
  imports HtmlFormat CrossIndex Messages
begin

text \<open>
  The rows of the message lists (global.js 250-660): a message becomes HTML or a tree of elements, with
  the messages it refers to inside. The trees of votes are kept as the texts and data the code puts into
  them; where jQuery inserts them between the elements of a fieldset is left out. Rows of votes
  remember a vote that is hidden until the user has voted too.
\<close>

section \<open>What is shown\<close>

text \<open>
  A row of a vote: an option with its input, or a result with its bar. A box of a vote has the data of the topic
  (identifier, sender, topic) while the user has not voted.
\<close>

datatype vote_row = Option_Row (vote_option: js_string) (option_html: js_string)
  | Result_Row (result_html: js_string) (result_bar: rat)

datatype vote_box = Vote_Box
  (box_indented: bool)
  (box_title: js_string)
  (box_topic: "(js_string \<times> js_string \<times> js_string) option")
  (box_rows: "vote_row list")
  (box_description: js_string)

datatype rendered = Html js_string | Vote_Topic_Dom vote_box
  | Vote_Of_Me_Dom (vote_line: js_string) (hidden_content: "js_string option") vote_box | Not_Defined

text \<open>How a value looks when it is appended to a string.\<close>

definition rendered_text :: "rendered \<Rightarrow> js_string" where
  "rendered_text r =
     (case r of Html h \<Rightarrow> h | Not_Defined \<Rightarrow> lit ''undefined'' | _ \<Rightarrow> lit ''[object Object]'')"

definition type_error :: format_error where
  "type_error = Thrown (lit ''TypeError'')"

text \<open>A method of an array that may be null, and a loop over an array whose body may throw.\<close>

definition the_list :: "'a list option \<Rightarrow> format_error + 'a list" where
  "the_list xs = (case xs of None \<Rightarrow> Inl type_error | Some xs \<Rightarrow> Inr xs)"

fun each_ok :: "('a \<Rightarrow> 'e + 'b) \<Rightarrow> 'a list \<Rightarrow> 'e + 'b list" where
  "each_ok f [] = Inr []"
| "each_ok f (x # xs) = bind_ok (f x) (\<lambda>y. bind_ok (each_ok f xs) (\<lambda>ys. Inr (y # ys)))"

fun join_with :: "js_string \<Rightarrow> js_string list \<Rightarrow> js_string" where
  "join_with sep [] = []"
| "join_with sep [x] = x"
| "join_with sep (x # y # xs) = x @ sep @ join_with sep (y # xs)"

section \<open>Files\<close>

text \<open>Only the first backslash of a name becomes a slash. Extensions are compared without case.\<close>

fun replace_first :: "code_unit \<Rightarrow> code_unit \<Rightarrow> js_string \<Rightarrow> js_string" where
  "replace_first a b [] = []"
| "replace_first a b (c # s) = (if c = a then b # s else c # replace_first a b s)"

definition lower_case :: "code_unit \<Rightarrow> code_unit" where
  "lower_case c = (if 65 \<le> c \<and> c \<le> 90 then c + 32 else c)"

definition has_extension :: "string list \<Rightarrow> js_string \<Rightarrow> bool" where
  "has_extension es s \<longleftrightarrow> list_ex (\<lambda>e. suffix (lit (CHR ''.'' # e)) (map lower_case s)) es"

definition createRefUnique :: "message \<Rightarrow> message option \<Rightarrow> format_error + js_string" where
  "createRefUnique m parentMessage =
     (let urlLink = replace_first 92 47 (fileName m) in
      if has_extension [''jpg'', ''jpeg'', ''bmp'', ''png'', ''gif''] urlLink then
        (let imageDescription = (case parentMessage of None \<Rightarrow> TEXT_IMAGE | Some p \<Rightarrow> take BROADCAST_LIMIT (plainText p))
         in sprintf FORMAT_REFERENCE_IMAGE_SHARE [Str urlLink, Str imageDescription, Str urlLink])
      else
        (let linkText = TEXT_FILE_SHARE @ dropWhile (\<lambda>c. c \<noteq> 46) urlLink in
         if has_extension [''mp3'', ''m4a'', ''oga'', ''wav''] urlLink then
           sprintf FORMAT_REFERENCE_AUDIO_SHARE
             [Str urlLink, Str TEXT_OPEN_AUDIO_PLAYER, Str urlLink, Str TEXT_OPEN_AUDIO_BROWSER,
              Str urlLink, Str linkText, Str linkText]
         else if has_extension [''flv'', ''m4v'', ''avi'', ''ogg'', ''mpg'', ''mpeg'', ''ogv'', ''webm'', ''mp4''] urlLink then
           sprintf FORMAT_REFERENCE_VIDEO_SHARE
             [Str urlLink, Str TEXT_OPEN_VIDEO_PLAYER, Str urlLink, Str TEXT_OPEN_VIDEO_BROWSER,
              Str urlLink, Str linkText, Str linkText]
         else sprintf FORMAT_NORMAL_FILE_SHARE [Str urlLink, Str linkText, Str linkText]))"

section \<open>Votes\<close>

definition voteTopicTitleInfo :: "message \<Rightarrow> message option \<Rightarrow> format_error + js_string" where
  "voteTopicTitleInfo m parentMessage =
     bind_ok (case parentMessage of None \<Rightarrow> Inr [] | Some _ \<Rightarrow> sprintf TEXT_VOTE_TOPIC_SENDER_INFO [Str (userName m)])
       (\<lambda>prefix.
         let prefix = (if prefix = [] then
                prefix @ (if isProtectedProxy m then TEXT_VOTE_TOPIC_NOT_VOTED else TEXT_VOTE_TOPIC_VOTED) else prefix)
         in Inr (if isProtectedProxy m then
                   prefix @ voteTopic m @ (if multiSelection m then lit ''('' @ TEXT_FLIP_OPTION_VOTE_MULTI @ lit '')'' else [])
                 else prefix @ voteTopic m))"

text \<open>
  The inputs need names, which are random: \<open>names 0\<close> is the one of the group, \<open>names (i + 1)\<close> the one of option \<open>i\<close>.
\<close>

definition option_row :: "(nat \<Rightarrow> js_string) \<Rightarrow> bool \<Rightarrow> nat \<times> js_string \<Rightarrow> format_error + vote_row" where
  "option_row names multi io =
     (case io of (i, opt) \<Rightarrow>
        let randomName = names (Suc i); optionText = opt @ TEXT_VOTE_OPTION_NOT_VOTED
        in bind_ok
             (if multi then
                sprintf FORMAT_VOTE_TOPIC_OPTION_MULTI_SELECTION_ROW
                  [Str randomName, Str randomName, Str randomName, Str optionText]
              else sprintf FORMAT_VOTE_TOPIC_OPTION_ROW [Str (names 0), Str randomName, Str randomName, Str optionText])
             (\<lambda>h. Inr (Option_Row opt h)))"

definition createVoteTopicNoneVoted :: "(nat \<Rightarrow> js_string) \<Rightarrow> message \<Rightarrow> message option \<Rightarrow> format_error + vote_box" where
  "createVoteTopicNoneVoted names m parentMessage =
     bind_ok (voteTopicTitleInfo m parentMessage) (\<lambda>title.
     bind_ok (the_list (options m)) (\<lambda>os.
     bind_ok (each_ok (option_row names (multiSelection m)) (enumerate 0 os)) (\<lambda>rows.
       Inr (Vote_Box (parentMessage \<noteq> None) title (Some (idBytes m, userName m, voteTopic m)) rows (description m)))))"

definition vote_percent :: "nat \<Rightarrow> nat \<Rightarrow> rat" where
  "vote_percent totalNumber thisNumber = (if totalNumber = 0 then 0 else of_nat thisNumber / of_nat totalNumber * 100)"

definition total_votes :: "(js_string \<times> nat) list \<Rightarrow> nat" where
  "total_votes rs = fold (\<lambda>(key, n) totalNumber. totalNumber + n) rs 0"

definition result_row :: "nat \<Rightarrow> js_string \<times> nat \<Rightarrow> format_error + vote_row" where
  "result_row totalNumber kn =
     (case kn of (key, thisNumber) \<Rightarrow>
        let p = vote_percent totalNumber thisNumber
        in bind_ok (sprintf TEXT_VOTE_OPTION_VOTED_NUMBER [Num p, Num (of_nat thisNumber)]) (\<lambda>number.
           bind_ok (sprintf FORMAT_VOTE_OPTION_VOTED_TEXT [Str (key @ number)]) (\<lambda>h. Inr (Result_Row h p))))"

text \<open>
  The results of a vote in which the user took part. With it comes the identifier of a topic whose hidden votes are to
  be shown, unless the message is part of the first history.
\<close>

definition createVoteTopicVoted :: "message \<Rightarrow> message option \<Rightarrow> bool \<Rightarrow> format_error + (vote_box \<times> js_string list)" where
  "createVoteTopicVoted m parentMessage firstHistory =
     bind_ok (voteTopicTitleInfo m parentMessage) (\<lambda>info.
     bind_ok (sprintf TEXT_VOTE_TOPIC_VOTED_NUMBER [Num (of_nat (total_votes (results m)))]) (\<lambda>number.
     bind_ok (each_ok (result_row (total_votes (results m))) (results m)) (\<lambda>rows.
       Inr (Vote_Box (parentMessage \<noteq> None) (info @ number) None rows (description m),
            if firstHistory then [] else [idBytes m]))))"

definition createVoteTopic :: "(nat \<Rightarrow> js_string) \<Rightarrow> message \<Rightarrow> message option \<Rightarrow> bool \<Rightarrow> format_error + (vote_box \<times> js_string list)" where
  "createVoteTopic names m parentMessage firstHistory =
     (if isProtectedProxy m then bind_ok (createVoteTopicNoneVoted names m parentMessage) (\<lambda>b. Inr (b, []))
      else createVoteTopicVoted m parentMessage firstHistory)"

text \<open>The text of a vote, and if it is to be hidden.\<close>

definition vote_content :: "message \<Rightarrow> format_error + (js_string \<times> bool)" where
  "vote_content m =
     (case options m of
        None \<Rightarrow> Inr (TEXT_VOTE_INVISIBLE, False)
      | Some os \<Rightarrow>
          bind_ok (sprintf TEXT_VOTE_OF_ME_TITILE [Str (join_with (lit '','') os)]) (\<lambda>content.
            Inr (content @ (if isEmptyString (comment m) then [] else lit '','' @ comment m), isProtectedProxy m)))"

definition createVoteOfMe :: "(nat \<Rightarrow> js_string) \<Rightarrow> message \<Rightarrow> bool \<Rightarrow> format_error + (rendered \<times> js_string list)" where
  "createVoteOfMe names m firstHistory =
     (case referenceMessage m of
        None \<Rightarrow> Inl type_error
      | Some topic \<Rightarrow>
          bind_ok (createVoteTopic names topic (Some m) firstHistory) (\<lambda>(box, shown_topics).
          bind_ok (vote_content m) (\<lambda>(content, hidden).
          bind_ok (sprintf FORMAT_VOTE_OF_ME_VOTED [Str (if hidden then TEXT_VOTE_OPTION_NOT_VOTED else content)]) (\<lambda>html.
            Inr (Vote_Of_Me_Dom html (if hidden then Some content else None) box, shown_topics)))))"

section \<open>Messages and what they refer to\<close>

definition bool_string :: "bool \<Rightarrow> js_string" where
  "bool_string b = (if b then lit ''true'' else lit ''false'')"

text \<open>
  The class of a paragraph: the condition is the joined string, which is never empty.
\<close>

definition paragraph_class :: "bool \<Rightarrow> js_string" where
  "paragraph_class isShort =
     (if lit ''lazyMessageList-'' @ bool_string isShort \<noteq> [] then lit ''shortMessage'' else lit ''longMessage'')"

lemma reference_smaller: "size_option size (referenceMessage m) < size m"
  by (cases m) simp

lemma references_measure: "Suc (2 * size_option size (referenceMessage m)) < 2 * size m"
  using reference_smaller[of m] by linarith

function createPlainText :: "(nat \<Rightarrow> js_string) \<Rightarrow> message \<Rightarrow> nat \<Rightarrow> message option \<Rightarrow> format_error + (rendered \<times> js_string list)"
  and recursiveAppend :: "(nat \<Rightarrow> js_string) \<Rightarrow> message option \<Rightarrow> nat \<Rightarrow> message option \<Rightarrow> bool \<Rightarrow> format_error + (rendered \<times> js_string list)" where
  "createPlainText names m depth parentMessage =
     bind_ok (plainTextAddCrossIndex (plainText m)) (\<lambda>thisHtml.
     bind_ok (recursiveAppend names (referenceMessage m) (depth + 1) (Some m) False) (\<lambda>(inner, shown_topics).
       let content = thisHtml @ rendered_text inner in
       bind_ok (case parentMessage of
                  None \<Rightarrow> Inr content
                | Some _ \<Rightarrow> sprintf FORMAT_REFERENCE_TEXT_MESSAGE [Str (userName m), Str TEXT_ORIGINAL_MESSAGE, Str content])
         (\<lambda>innerInner.
       bind_ok (sprintf FORMAT_PLAIN_TEXT_MESSAGE_HTML
                  [Str (paragraph_class (length (plainText m) \<le> BROADCAST_LIMIT)), Str innerInner]) (\<lambda>h.
       Inr (Html h, shown_topics)))))"
| "recursiveAppend names message depth parentMessage firstHistory =
     (case message of
        None \<Rightarrow> Inr (Html [], [])
      | Some m \<Rightarrow>
          if 10 < depth then Inr (Html [], [])
          else (case messageType m of
             PLAIN_TEXT \<Rightarrow> createPlainText names m depth parentMessage
           | REF_UNIQUE \<Rightarrow> bind_ok (createRefUnique m parentMessage) (\<lambda>h. Inr (Html h, []))
           | VOTE_TOPIC \<Rightarrow>
               bind_ok (createVoteTopic names m parentMessage firstHistory) (\<lambda>(b, ids). Inr (Vote_Topic_Dom b, ids))
           | VOTE_OF_ME \<Rightarrow> createVoteOfMe names m firstHistory
           | CHAT_BUILD \<Rightarrow> Inr (Not_Defined, [])
           | Other_Message \<Rightarrow> Inr (Not_Defined, [])))"
  by pat_completeness auto

termination
  by (relation "measure (case_sum (\<lambda>(names, m, d, p). 2 * size m) (\<lambda>(names, m, d, p, f). 2 * size_option size m + 1))")
    (auto intro: references_measure)

declare createPlainText.simps [simp del] recursiveAppend.simps [simp del]

section \<open>Rows of the lists\<close>

record blog_row =
  row_html :: js_string
  row_inner :: rendered
  row_broadcast :: bool
  innerMostReferenceIdBytes :: js_string
  row_my_talk :: bool

text \<open>
  A row for a message; the user of the session may be missing, which throws. The number of digits of a counter is
  not bounded.
\<close>

definition createMessageBlogHtml ::
    "(nat \<Rightarrow> js_string) \<Rightarrow> js_string option \<Rightarrow> message \<Rightarrow> js_string \<Rightarrow> bool \<Rightarrow> format_error + (blog_row \<times> js_string list)" where
  "createMessageBlogHtml names sessionUser m idSuffix firstHistory =
     bind_ok (recursiveAppend names (Some m) 0 None firstHistory) (\<lambda>(innerDom, shown_topics).
     (case sessionUser of
        None \<Rightarrow> Inl type_error
      | Some u \<Rightarrow>
          let isMyTalk = (userName m = u);
              (isBroadcast, innermost) =
                (case referenceMessage m of
                   None \<Rightarrow> (False, idBytes m)
                 | Some r \<Rightarrow> if messageType m = PLAIN_TEXT \<and> messageType r \<noteq> REF_UNIQUE then (True, idBytes r)
                             else (False, idBytes m))
          in bind_ok (sprintf FORMAT_LAZY_MESSAGE_ROW
               [Str (createSuffixedId (idBytes m) idSuffix), Str (userName m),
                Str (TEXT_AGREE @ int_string 10 (int (agreeCounter m))),
                Str (TEXT_DISAGREE @ int_string 10 (int (disagreeCounter m))),
                Str (TEXT_REFERENCED @ int_string 10 (int (referencedCounter m)))])
             (\<lambda>html. Inr (\<lparr>row_html = html, row_inner = innerDom, row_broadcast = isBroadcast,
                innerMostReferenceIdBytes = innermost, row_my_talk = isMyTalk\<rparr>, shown_topics))))"

text \<open>
  Once the results of a topic are known, the hidden votes on it are shown: as a text, which is escaped. They stay
  in the data of the row.
\<close>

definition show_if_hidden :: "js_string \<Rightarrow> rendered \<Rightarrow> rendered" where
  "show_if_hidden voteTopicIdBytes r =
     (case r of
        Vote_Of_Me_Dom line (Some content) box \<Rightarrow>
          if map_option fst (box_topic box) = Some voteTopicIdBytes
          then Vote_Of_Me_Dom (weave FORMAT_VOTE_OF_ME_VOTED_pieces [escape content]) (Some content) box
          else r
      | _ \<Rightarrow> r)"

definition showHiddenVoteOfMeOptions :: "js_string \<Rightarrow> blog_row list \<Rightarrow> blog_row list" where
  "showHiddenVoteOfMeOptions voteTopicIdBytes rows =
     map (\<lambda>r. r\<lparr>row_inner := show_if_hidden voteTopicIdBytes (row_inner r)\<rparr>) rows"

text \<open>The loop of \<open>appendBlog\<close> over new messages; the newest row comes first.\<close>

definition prepend_row :: "(nat \<Rightarrow> js_string) \<Rightarrow> js_string option \<Rightarrow> bool \<Rightarrow> message \<Rightarrow> blog_row list \<Rightarrow> format_error + blog_row list" where
  "prepend_row names sessionUser firstHistory m rows =
     (if idBytes m = system_id then Inr rows
      else bind_ok (createMessageBlogHtml names sessionUser m MESSAGE_ID_SUFFIX firstHistory) (\<lambda>(row, shown_topics).
        Inr (row # fold showHiddenVoteOfMeOptions shown_topics rows)))"


section \<open>Formats always succeed\<close>

lemma radix_digits_not_Nil: "1 < b \<Longrightarrow> radix_digits b n \<noteq> []"
  by (subst radix_digits.simps) simp

lemma length_toFixed_2: "4 \<le> length (toFixed 2 p)"
proof -
  have d: "Suc 0 \<le> length (radix_digits 10 n)" for n
    using radix_digits_not_Nil[of 10 n] by (simp add: Suc_le_eq)
  have f: "2 \<le> length (pad_front 2 x)" for x by (simp add: pad_front_def)
  have "3 \<le> length (radix_digits 10 n) + length (pad_front 2 x)" for n x
    using add_mono[OF d f, of n x] by simp
  then show ?thesis
    by (simp add: toFixed_def Let_def numeral_3_eq_3 numeral_2_eq_2 Suc_leD)
qed

text \<open>The number of votes on an option, with its share: two decimals, as many digits before the point as it takes.\<close>

lemma formatted_VOTED_NUMBER:
  "sprintf TEXT_VOTE_OPTION_VOTED_NUMBER [Num p, Num (of_nat n)] =
     Inr (lit ''('' @ toFixed 2 p @ lit ''%,'' @ int_string 10 (int n) @ [0x7968] @ lit '')'')"
proof -
  have d: "digit 51" "digit 50" "\<not> digit 46" "conversion_of 51 = None" "conversion_of 50 = None" "conversion_of 46 = None"
    "conversion_of 102 = Some Conv_f" "conversion_of 115 = Some Conv_s" "\<not> sets_long 102" "\<not> sets_long 115"
    by (simp_all add: digit_def conversion_of_def sets_long_def)
  have n: "parse_digits (51 # 46 # xs) = 3" "parse_digits (50 # 102 # xs) = 2" "radix_digits 10 3 = [51]" "radix_digits 10 2 = [50]" for xs
    by (simp_all add: parse_digits_def digit_def radix_digits.simps[of 10 3] radix_digits.simps[of 10 2])
  have i: "is_integer (of_nat n)" by (simp add: is_integer_def)
  have w: "fill_up fl [] (toFixed 2 p) = toFixed 2 p" if "width fl = 3" for fl
    using length_toFixed_2[of p] that by (simp add: length_fill_up(3))
  show ?thesis
    unfolding sprintf_def TEXT_VOTE_OPTION_VOTED_NUMBER_def
    by (simp add: format_loop.simps format_step_def d modifier_def number_step_def n finish_conversion_def
        start_state_def no_flags_def set_zero_def get_arg_def sprintf_format_def limited_def convert_def
        sign_prefix_def i w Let_def) (simp add: fill_up_def)
qed


section \<open>When a row can be made\<close>

text \<open>
  A vote that the user may still take part in needs its options, and a vote of the user needs its topic. Below
  the first eleven messages nothing is needed.
\<close>

definition topic_drawable :: "message \<Rightarrow> bool" where
  "topic_drawable m \<longleftrightarrow> (isProtectedProxy m \<longrightarrow> options m \<noteq> None)"

function drawable :: "nat \<Rightarrow> message \<Rightarrow> bool" where
  "drawable depth m =
     (case messageType m of
        PLAIN_TEXT \<Rightarrow> (case referenceMessage m of None \<Rightarrow> True | Some r \<Rightarrow> depth < 10 \<longrightarrow> drawable (Suc depth) r)
      | VOTE_TOPIC \<Rightarrow> topic_drawable m
      | VOTE_OF_ME \<Rightarrow> (case referenceMessage m of None \<Rightarrow> False | Some t \<Rightarrow> topic_drawable t)
      | _ \<Rightarrow> True)"
  by pat_completeness auto
termination by (relation "measure (\<lambda>(d, m). 10 - d)") auto

declare drawable.simps [simp del]

lemma each_ok_total: "(\<And>x. x \<in> set xs \<Longrightarrow> f x = Inr (g x)) \<Longrightarrow> each_ok f xs = Inr (map g xs)"
  by (induction xs) auto

text \<open>The pieces of a vote box, put together.\<close>

definition title_of :: "message \<Rightarrow> message option \<Rightarrow> js_string" where
  "title_of m p =
     (let prefix = (case p of None \<Rightarrow> [] | Some _ \<Rightarrow> userName m @ TEXT_VOTE_TOPIC_SENDER_INFO_pieces ! 1);
          prefix = (if prefix = [] then if isProtectedProxy m then TEXT_VOTE_TOPIC_NOT_VOTED else TEXT_VOTE_TOPIC_VOTED else prefix)
      in prefix @ voteTopic m @
         (if isProtectedProxy m \<and> multiSelection m then lit ''('' @ TEXT_FLIP_OPTION_VOTE_MULTI @ lit '')'' else []))"

lemma voteTopicTitleInfo_eq: "voteTopicTitleInfo m p = Inr (title_of m p)"
  by (cases p) (simp_all add: voteTopicTitleInfo_def title_of_def formatted TEXT_VOTE_TOPIC_SENDER_INFO_pieces_def Let_def)

definition option_row_of :: "(nat \<Rightarrow> js_string) \<Rightarrow> bool \<Rightarrow> nat \<times> js_string \<Rightarrow> vote_row" where
  "option_row_of names multi io =
     Option_Row (snd io)
       (weave (if multi then FORMAT_VOTE_TOPIC_OPTION_MULTI_SELECTION_ROW_pieces else FORMAT_VOTE_TOPIC_OPTION_ROW_pieces)
         [if multi then names (Suc (fst io)) else names 0, names (Suc (fst io)), names (Suc (fst io)), snd io @ TEXT_VOTE_OPTION_NOT_VOTED])"

lemma option_row_eq: "option_row names multi io = Inr (option_row_of names multi io)"
  by (cases io) (simp add: option_row_def option_row_of_def formatted Let_def)

definition result_row_of :: "nat \<Rightarrow> js_string \<times> nat \<Rightarrow> vote_row" where
  "result_row_of tn kn =
     (let p = vote_percent tn (snd kn)
      in Result_Row (weave FORMAT_VOTE_OPTION_VOTED_TEXT_pieces
           [fst kn @ lit ''('' @ toFixed 2 p @ lit ''%,'' @ int_string 10 (int (snd kn)) @ [0x7968] @ lit '')'']) p)"

lemma result_row_eq: "result_row tn kn = Inr (result_row_of tn kn)"
  by (cases kn) (simp add: result_row_def result_row_of_def formatted formatted_VOTED_NUMBER Let_def del: lit_Cons)

lemma createVoteTopicNoneVoted_eq:
  "createVoteTopicNoneVoted names m p =
     (case options m of
        None \<Rightarrow> Inl type_error
      | Some os \<Rightarrow> Inr (Vote_Box (p \<noteq> None) (title_of m p) (Some (idBytes m, userName m, voteTopic m))
          (map (option_row_of names (multiSelection m)) (enumerate 0 os)) (description m)))"
  by (simp add: createVoteTopicNoneVoted_def voteTopicTitleInfo_eq the_list_def each_ok_total[OF option_row_eq] split: option.split)

lemma createVoteTopicVoted_eq:
  "createVoteTopicVoted m p firstHistory =
     Inr (Vote_Box (p \<noteq> None)
            (title_of m p @ weave TEXT_VOTE_TOPIC_VOTED_NUMBER_pieces [int_string 10 (int (total_votes (results m)))]) None
            (map (result_row_of (total_votes (results m))) (results m)) (description m),
          if firstHistory then [] else [idBytes m])"
  by (simp add: createVoteTopicVoted_def voteTopicTitleInfo_eq formatted each_ok_total[OF result_row_eq])

lemma createVoteTopic_ok:
  "if topic_drawable m then \<exists>b ids. createVoteTopic names m p f = Inr (b, ids) else createVoteTopic names m p f = Inl type_error"
  by (simp add: createVoteTopic_def topic_drawable_def createVoteTopicNoneVoted_eq createVoteTopicVoted_eq split: option.split)

end
