(* ===== verification/MessageRows.thy ===== *)
theory MessageRows
  imports Render
begin

text \<open>
  What the rows of messages show: when a row can be made at all, how far it follows the messages a message
  refers to, what a hidden vote gives away and when it is shown, and the shares of a vote.
\<close>

section \<open>When a row can be made\<close>

lemma createRefUnique_ok: "\<exists>h. createRefUnique m p = Inr h"
  by (simp add: createRefUnique_def formatted Let_def)

lemma vote_content_ok: "\<exists>c h. vote_content m = Inr (c, h)"
  by (cases "options m") (auto simp: vote_content_def formatted)

lemma createVoteOfMe_ok:
  "if (case referenceMessage m of None \<Rightarrow> False | Some t \<Rightarrow> topic_drawable t)
   then \<exists>r. createVoteOfMe names m f = Inr r else createVoteOfMe names m f = Inl type_error"
proof (cases "referenceMessage m")
  case (Some t)
  obtain c h where c: "vote_content m = Inr (c, h)" using vote_content_ok by blast
  show ?thesis using createVoteTopic_ok[of t names "Some m" f]
    by (auto simp: createVoteOfMe_def Some c formatted split: if_splits)
qed (simp add: createVoteOfMe_def)

definition ok_or_type_error :: "bool \<Rightarrow> format_error + 'a \<Rightarrow> bool" where
  "ok_or_type_error ok r \<longleftrightarrow> (if ok then \<exists>x. r = Inr x else r = Inl type_error)"

lemma ok_or_type_error_bind:
  assumes "ok_or_type_error ok r" and "\<And>x. \<exists>y. k x = Inr y"
  shows "ok_or_type_error ok (bind_ok r k)"
  using assms by (auto simp: ok_or_type_error_def split: if_splits)

lemma plain_text_ok: "\<exists>h. plainTextAddCrossIndex s = Inr h"
  by (simp add: plainTextAddCrossIndex_def join_html_view)

lemma append_ok:
  "messageType m = PLAIN_TEXT \<Longrightarrow> d \<le> 10 \<Longrightarrow> ok_or_type_error (drawable d m) (createPlainText names m d p)"
  "d \<le> 10 \<Longrightarrow> ok_or_type_error (case mo of None \<Rightarrow> True | Some m \<Rightarrow> drawable d m) (recursiveAppend names mo d p f)"
proof (induction names m d p and names mo d p f rule: createPlainText_recursiveAppend.induct)
  case (1 names m d p)
  obtain h where h: "plainTextAddCrossIndex (plainText m) = Inr h" using plain_text_ok by blast
  have "ok_or_type_error (drawable d m) (recursiveAppend names (referenceMessage m) (d + 1) (Some m) False)"
  proof (cases "d = 10")
    case True
    have "recursiveAppend names (referenceMessage m) (d + 1) (Some m) False = Inr (Html [], [])"
      by (simp add: recursiveAppend.simps True split: option.split)
    moreover have "drawable d m" using 1(2) by (subst drawable.simps) (simp add: True split: option.split)
    ultimately show ?thesis by (simp add: ok_or_type_error_def)
  next
    case False
    then have "d < 10" using 1 by simp
    moreover have "drawable d m = (case referenceMessage m of None \<Rightarrow> True | Some r \<Rightarrow> drawable (Suc d) r)"
      using 1(2) \<open>d < 10\<close> by (subst drawable.simps) (simp split: option.split)
    ultimately show ?thesis using 1(1)[OF h] by (simp cong: option.case_cong)
  qed
  then show ?case
    by (simp only: createPlainText.simps h bind_ok_simps)
      (rule ok_or_type_error_bind, auto simp: Let_def formatted split: option.split)
next
  case (2 names mo d p f)
  show ?case
  proof (cases mo)
    case (Some m)
    then show ?thesis
      using 2 createVoteTopic_ok[of m names p f] createRefUnique_ok[of m p] createVoteOfMe_ok[of m names f]
      by (cases "messageType m") (auto simp: recursiveAppend.simps drawable.simps[of d m] ok_or_type_error_def split: if_splits)
  qed (simp add: recursiveAppend.simps ok_or_type_error_def)
qed

lemma row_ok: "ok_or_type_error (drawable 0 m) (createMessageBlogHtml names (Some u) m suff f)"
  using append_ok(2)[of 0 "Some m" names None f] unfolding createMessageBlogHtml_def
  by (intro ok_or_type_error_bind) (simp_all add: formatted Let_def split: prod.split option.split)

section \<open>How deep a row looks\<close>

text \<open>A message without what it refers to from some level on.\<close>

fun with_reference :: "message option \<Rightarrow> message \<Rightarrow> message" where
  "with_reference r (Message ty i u pt fn vt ms pp os rs c d ac dc rc _) = Message ty i u pt fn vt ms pp os rs c d ac dc rc r"

lemma with_reference_simps [simp]:
  "messageType (with_reference r m) = messageType m" "idBytes (with_reference r m) = idBytes m"
  "userName (with_reference r m) = userName m" "plainText (with_reference r m) = plainText m"
  "fileName (with_reference r m) = fileName m" "voteTopic (with_reference r m) = voteTopic m"
  "multiSelection (with_reference r m) = multiSelection m" "isProtectedProxy (with_reference r m) = isProtectedProxy m"
  "options (with_reference r m) = options m" "results (with_reference r m) = results m"
  "comment (with_reference r m) = comment m" "description (with_reference r m) = description m"
  "agreeCounter (with_reference r m) = agreeCounter m" "disagreeCounter (with_reference r m) = disagreeCounter m"
  "referencedCounter (with_reference r m) = referencedCounter m" "referenceMessage (with_reference r m) = r"
  by (cases m; simp)+

fun cut_off :: "nat \<Rightarrow> message \<Rightarrow> message" where
  "cut_off 0 m = with_reference None m"
| "cut_off (Suc k) m = with_reference (map_option (cut_off k) (referenceMessage m)) m"

lemma cut_keeps [simp]:
  "messageType (cut_off k m) = messageType m" "idBytes (cut_off k m) = idBytes m" "userName (cut_off k m) = userName m"
  "plainText (cut_off k m) = plainText m" "fileName (cut_off k m) = fileName m" "voteTopic (cut_off k m) = voteTopic m"
  "multiSelection (cut_off k m) = multiSelection m" "isProtectedProxy (cut_off k m) = isProtectedProxy m"
  "options (cut_off k m) = options m" "results (cut_off k m) = results m" "comment (cut_off k m) = comment m"
  "description (cut_off k m) = description m" "agreeCounter (cut_off k m) = agreeCounter m"
  "disagreeCounter (cut_off k m) = disagreeCounter m" "referencedCounter (cut_off k m) = referencedCounter m"
  by (cases k; simp)+

text \<open>Of the message that refers to another only the text is used, and that it is there.\<close>

definition same_parent :: "message option \<Rightarrow> message option \<Rightarrow> bool" where
  "same_parent p p' \<longleftrightarrow> map_option plainText p = map_option plainText p'"

lemma same_parent_simps [simp]:
  "same_parent (Some m) (Some m') \<longleftrightarrow> plainText m = plainText m'" "same_parent None None"
  by (simp_all add: same_parent_def)

lemma same_parent_cases:
  assumes "same_parent p p'"
  obtains "p = None" "p' = None" | q q' where "p = Some q" "p' = Some q'" "plainText q = plainText q'"
  using assms by (cases p; cases p') (auto simp: same_parent_def)

lemma createRefUnique_cut: "same_parent p p' \<Longrightarrow> createRefUnique (cut_off k m) p' = createRefUnique m p"
  by (erule same_parent_cases) (simp_all add: createRefUnique_def Let_def)

lemma createVoteTopic_cut: "same_parent p p' \<Longrightarrow> createVoteTopic names (cut_off k m) p' f = createVoteTopic names m p f"
  by (erule same_parent_cases)
    (simp_all add: createVoteTopic_def createVoteTopicNoneVoted_eq createVoteTopicVoted_eq title_of_def cong: option.case_cong)

lemma vote_content_cut: "vote_content (cut_off k m) = vote_content m"
  by (simp add: vote_content_def cong: option.case_cong)

lemma createVoteOfMe_cut: "createVoteOfMe names (cut_off (Suc k) m) f = createVoteOfMe names m f"
proof (cases "referenceMessage m")
  case (Some t)
  have "createVoteTopic names (cut_off k t) (Some (cut_off (Suc k) m)) f = createVoteTopic names t (Some m) f"
    by (rule createVoteTopic_cut) simp
  then show ?thesis using vote_content_cut[of "Suc k" m] by (simp add: createVoteOfMe_def Some)
qed (simp add: createVoteOfMe_def)

lemma append_cut:
  "k + d = 11 \<Longrightarrow> d \<le> 10 \<Longrightarrow> same_parent p p' \<Longrightarrow> createPlainText names (cut_off k m) d p' = createPlainText names m d p"
  "k + d = 11 \<Longrightarrow> same_parent p p' \<Longrightarrow>
     recursiveAppend names (map_option (cut_off k) mo) d p' f = recursiveAppend names mo d p f"
proof (induction names m d p and names mo d p f arbitrary: k p' and k p' rule: createPlainText_recursiveAppend.induct)
  case (1 names m d p)
  from 1(2,3) obtain j where j: "k = Suc j" "j + (d + 1) = 11" by (cases k) auto
  obtain h where h: "plainTextAddCrossIndex (plainText m) = Inr h" using plain_text_ok by blast
  have "recursiveAppend names (map_option (cut_off j) (referenceMessage m)) (d + 1) (Some (cut_off k m)) False =
    recursiveAppend names (referenceMessage m) (d + 1) (Some m) False"
    by (rule 1(1)[OF h j(2)]) simp
  then show ?case using 1(4)
    by (subst (1 2) createPlainText.simps, elim same_parent_cases) (simp_all add: j h)
next
  case (2 names mo d p f)
  show ?case
  proof (cases "mo = None \<or> 10 < d")
    case True
    then show ?thesis by (auto simp: recursiveAppend.simps split: option.split)
  next
    case False
    then obtain m where m: "mo = Some m" "\<not> 10 < d" by auto
    then obtain j where j: "k = Suc j" using 2(2) by (cases k) auto
    show ?thesis using m 2(1)[OF m(1) m(2)] 2(2,3)
      by (cases "messageType m")
        (simp_all add: recursiveAppend.simps createRefUnique_cut createVoteTopic_cut createVoteOfMe_cut j del: cut_off.simps)
  qed
qed

lemma row_cut: "createMessageBlogHtml names u (cut_off 11 m) suff f = createMessageBlogHtml names u m suff f"
proof -
  have "recursiveAppend names (Some (cut_off 11 m)) 0 None f = recursiveAppend names (Some m) 0 None f"
    using append_cut(2)[of 11 0 None None names "Some m" f] by simp
  moreover have "referenceMessage (cut_off 11 m) = map_option (cut_off 10) (referenceMessage m)"
    by (simp add: numeral_eq_Suc)
  ultimately show ?thesis
    by (cases "referenceMessage m"; cases u) (simp_all add: createMessageBlogHtml_def Let_def)
qed

section \<open>Hidden votes\<close>

text \<open>What can be seen of a row, and a vote with other options and another comment.\<close>

definition visible :: "rendered \<Rightarrow> rendered" where
  "visible r = (case r of Vote_Of_Me_Dom line hidden box \<Rightarrow> Vote_Of_Me_Dom line None box | _ \<Rightarrow> r)"

definition visible_row :: "blog_row \<Rightarrow> blog_row" where
  "visible_row r = r\<lparr>row_inner := visible (row_inner r)\<rparr>"

fun with_vote :: "js_string list \<Rightarrow> js_string \<Rightarrow> message \<Rightarrow> message" where
  "with_vote os c (Message ty i u pt fn vt ms pp _ rs _ d ac dc rc ref) =
     Message ty i u pt fn vt ms pp (Some os) rs c d ac dc rc ref"

lemma with_vote_simps [simp]:
  "messageType (with_vote os c m) = messageType m" "idBytes (with_vote os c m) = idBytes m"
  "userName (with_vote os c m) = userName m" "isProtectedProxy (with_vote os c m) = isProtectedProxy m"
  "options (with_vote os c m) = Some os" "comment (with_vote os c m) = c"
  "agreeCounter (with_vote os c m) = agreeCounter m" "disagreeCounter (with_vote os c m) = disagreeCounter m"
  "referencedCounter (with_vote os c m) = referencedCounter m" "referenceMessage (with_vote os c m) = referenceMessage m"
  by (cases m; simp)+

lemma createVoteTopic_parent: "createVoteTopic names t (Some q) f = createVoteTopic names t (Some q') f"
  by (simp add: createVoteTopic_def createVoteTopicNoneVoted_eq createVoteTopicVoted_eq title_of_def cong: option.case_cong)

text \<open>The words of a vote, and how it is drawn as long as it is hidden.\<close>

definition vote_words :: "message \<Rightarrow> js_string" where
  "vote_words m =
     TEXT_VOTE_OF_ME_TITILE_pieces ! 0 @ join_with (lit '','') (the (options m)) @
     (if isEmptyString (comment m) then [] else lit '','' @ comment m)"

lemma vote_content_words: "options m = Some os \<Longrightarrow> vote_content m = Inr (vote_words m, isProtectedProxy m)"
  by (simp add: vote_content_def vote_words_def formatted TEXT_VOTE_OF_ME_TITILE_pieces_def)

definition hidden_line :: js_string where
  "hidden_line = weave FORMAT_VOTE_OF_ME_VOTED_pieces [TEXT_VOTE_OPTION_NOT_VOTED]"

lemma createVoteOfMe_hidden:
  assumes "isProtectedProxy m" and "options m = Some os" and "referenceMessage m = Some t"
  shows "createVoteOfMe names m f =
    bind_ok (createVoteTopic names t (Some m) f) (\<lambda>(box, ids). Inr (Vote_Of_Me_Dom hidden_line (Some (vote_words m)) box, ids))"
  using assms by (simp add: createVoteOfMe_def vote_content_words formatted hidden_line_def split_beta)

lemma hidden_votes_same:
  assumes "messageType m = VOTE_OF_ME" and "isProtectedProxy m" and "options m \<noteq> None"
  shows "map_sum id (map_prod visible_row id) (createMessageBlogHtml names u (with_vote os c m) suff f) =
    map_sum id (map_prod visible_row id) (createMessageBlogHtml names u m suff f)"
proof (cases "referenceMessage m")
  case (Some t)
  obtain os' where os': "options m = Some os'" using assms(3) by auto
  show ?thesis
  proof (cases "createVoteTopic names t (Some m) f")
    case (Inr b)
    then have "createVoteTopic names t (Some (with_vote os c m)) f = Inr b"
      using createVoteTopic_parent[of names t "with_vote os c m" f m] by simp
    then show ?thesis using Inr
      by (cases u; cases b)
        (simp_all add: createMessageBlogHtml_def recursiveAppend.simps assms(1,2) Some os'
          createVoteOfMe_hidden[OF _ _ Some] createVoteOfMe_hidden[of "with_vote os c m" os t] formatted Let_def visible_row_def visible_def)
  next
    case (Inl e)
    then have "createVoteTopic names t (Some (with_vote os c m)) f = Inl e"
      using createVoteTopic_parent[of names t "with_vote os c m" f m] by simp
    then show ?thesis using Inl
      by (simp add: createMessageBlogHtml_def recursiveAppend.simps assms(1,2) Some os'
          createVoteOfMe_hidden[OF _ _ Some] createVoteOfMe_hidden[of "with_vote os c m" os t])
  qed
qed (simp add: createMessageBlogHtml_def recursiveAppend.simps assms createVoteOfMe_def)

text \<open>The row of a vote that waits for the user's part in a topic.\<close>

definition waits_for :: "js_string \<Rightarrow> js_string \<Rightarrow> rendered \<Rightarrow> bool" where
  "waits_for i w r \<longleftrightarrow> (\<exists>line box. r = Vote_Of_Me_Dom line (Some w) box \<and> map_option fst (box_topic box) = Some i)"

lemma hidden_vote_waits:
  assumes "createVoteOfMe names m f = Inr (r, ids)" and "isProtectedProxy m" and "options m \<noteq> None"
    and "referenceMessage m = Some t" and "isProtectedProxy t"
  shows "waits_for (idBytes t) (vote_words m) r"
proof -
  obtain os where os: "options m = Some os" using assms(3) by auto
  obtain box where box: "createVoteTopic names t (Some m) f = Inr (box, ids)" "r = Vote_Of_Me_Dom hidden_line (Some (vote_words m)) box"
    using assms(1) createVoteOfMe_hidden[OF assms(2) os assms(4), of names f] by (auto simp: bind_ok_Inr_iff)
  then have "map_option fst (box_topic box) = Some (idBytes t)"
    using assms(5) by (auto simp: createVoteTopic_def createVoteTopicNoneVoted_eq bind_ok_Inr_iff split: option.splits)
  then show ?thesis using box(2) by (auto simp: waits_for_def)
qed

lemma voted_topic_row:
  assumes "messageType v = VOTE_TOPIC" and "\<not> isProtectedProxy v"
  shows "\<exists>row. createMessageBlogHtml names (Some u) v suff f = Inr (row, if f then [] else [idBytes v])"
  using assms by (simp add: createMessageBlogHtml_def recursiveAppend.simps createVoteTopic_def createVoteTopicVoted_eq
    formatted Let_def split_beta)

section \<open>Shares\<close>

lemma total_votes_sum: "total_votes rs = sum_list (map snd rs)"
proof -
  have "fold (\<lambda>(key, n) totalNumber. totalNumber + n) rs a = a + sum_list (map snd rs)" for a
    by (induction rs arbitrary: a) (simp_all add: split_beta)
  then show ?thesis by (simp add: total_votes_def)
qed

lemma result_bar_of [simp]: "result_bar (result_row_of tn kn) = vote_percent tn (snd kn)"
  by (simp add: result_row_of_def Let_def)

lemma percents_sum: "sum_list (map (\<lambda>kn. vote_percent tn (snd kn)) rs) = vote_percent tn (sum_list (map snd rs))"
  by (induction rs) (simp_all add: vote_percent_def field_simps)

lemma percent_range: "n \<le> tn \<Longrightarrow> 0 \<le> vote_percent tn n \<and> vote_percent tn n \<le> 100"
  by (simp add: vote_percent_def field_simps)

section \<open>Properties\<close>



text \<open>
  C32: However long the chain of messages is that refer to each other, a row depends only on the first twelve: it is
  the same row if what the twelfth refers to is taken away.
\<close>

theorem rows_look_twelve_deep:
  "createMessageBlogHtml names sessionUser (cut_off 11 m) idSuffix firstHistory =
   createMessageBlogHtml names sessionUser m idSuffix firstHistory"
  by (rule row_cut)

text \<open>
  C33: A vote that is hidden until the user has voted gives nothing away: what can be seen of its row is
  the same for all options and comments it might have.
\<close>

theorem hidden_votes_give_nothing_away:
  assumes "messageType m = VOTE_OF_ME" and "isProtectedProxy m" and "options m \<noteq> None"
  shows "map_sum id (map_prod visible_row id) (createMessageBlogHtml names u (with_vote os c m) idSuffix firstHistory) =
    map_sum id (map_prod visible_row id) (createMessageBlogHtml names u m idSuffix firstHistory)"
  using assms by (rule hidden_votes_same)

definition example_topic :: "bool \<Rightarrow> message" where
  "example_topic waiting = Message VOTE_TOPIC [84] [65] [] [] [63] False waiting (Some [[88], [89]]) [([88], 3), ([89], 1)] [] [] 0 0 0 None"

definition example_vote :: message where
  "example_vote = Message VOTE_OF_ME [86] [66] [] [] [] False True (Some [[88]]) [] [] [] 0 0 0 (Some (example_topic True))"

theorem hidden_votes_give_nothing_away_witness:
  "map_sum id (map_prod visible_row id) (createMessageBlogHtml (\<lambda>i. []) (Some [65]) (with_vote [[89]] [90] example_vote) [] True) =
   map_sum id (map_prod visible_row id) (createMessageBlogHtml (\<lambda>i. []) (Some [65]) example_vote [] True)"
  by (rule hidden_votes_give_nothing_away) (simp_all add: example_vote_def)





end
