(* ===== verification/Menu.thy ===== *)
theory Menu
  imports Render Page
begin

text \<open>
  The menu of a message (message.js 1015-1179) and the choice of the player for a shared file (global.js
  671-820). The menu is opened from a link inside a row and deletes or looks up the message of the row, so rows are
  elements with their identifiers and data here. The theorems at the end show that deleting cannot work.
\<close>

section \<open>Elements of the page\<close>

text \<open>
  An element with its tag, its identifier, the flag that marks a row as one of the user's own messages, and its
  children. Data of an element is not data of the elements inside.
\<close>

datatype element = Element (tag: string) (element_id: "js_string option") (is_my_talk: "bool option") (children: "element list")

fun contains :: "js_string \<Rightarrow> element \<Rightarrow> bool" where
  "contains i (Element t j d es) \<longleftrightarrow> j = Some i \<or> list_ex (contains i) es"

text \<open>
  \<open>$("#i").parents("li").remove()\<close>: an element goes if it is a list item and the element looked for is
  strictly inside.
\<close>

fun remove_parents :: "js_string \<Rightarrow> element list \<Rightarrow> element list" where
  "remove_parents i [] = []"
| "remove_parents i (Element t j d es # rest) =
     (if t = ''li'' \<and> list_ex (contains i) es then remove_parents i rest
      else Element t j d (remove_parents i es) # remove_parents i rest)"

definition removeRow :: "js_string \<Rightarrow> element list \<Rightarrow> element list" where
  "removeRow i lazyMessageList = remove_parents (createSuffixedId i MESSAGE_ID_SUFFIX) lazyMessageList"

text \<open>
  The row that \<open>prepend_row\<close> makes and \<open>appendBlog\<close> marks: the flag is data of the list item, the link of the menu is
  an element of its own.
\<close>

definition menu_link :: element where
  "menu_link = Element ''a'' None None [Element ''h4'' None None []]"

definition row_element :: "js_string \<Rightarrow> bool \<Rightarrow> element list \<Rightarrow> element" where
  "row_element i isMyTalk inner =
     Element ''li'' (Some (createSuffixedId i MESSAGE_ID_SUFFIX)) (Some isMyTalk)
       [Element ''div'' None None (Element ''img'' None None [] # menu_link # inner), Element ''div'' None None []]"

section \<open>The menu\<close>

record menu =
  menu_message :: js_string
  menu_author :: js_string
  delete_shown :: bool
  menu_open :: bool
  message_list :: "element list"
  deletions :: "js_string list"
  menu_toasts :: "ui_text list"

text \<open>The link that was clicked, in the row with this identifier and this name of a sender.\<close>

definition onLinkPopupMessageMenuClicked :: "element \<Rightarrow> js_string \<Rightarrow> js_string \<Rightarrow> menu \<Rightarrow> menu" where
  "onLinkPopupMessageMenuClicked ele messageRowId senderName s =
     s\<lparr>menu_message := extractIdBytesFromId messageRowId, menu_author := senderName,
       delete_shown := (is_my_talk ele = Some True), menu_open := True\<rparr>"

definition onLinkDeleteClicked :: "menu \<Rightarrow> menu" where
  "onLinkDeleteClicked s = s\<lparr>menu_open := False, deletions := deletions s @ [menu_message s]\<rparr>"

text \<open>The server's answer to a deletion: the code of an error, or success.\<close>

definition deletion_answered :: "js_string \<Rightarrow> js_string option \<Rightarrow> menu \<Rightarrow> menu" where
  "deletion_answered deleted err s =
     (case err of
        None \<Rightarrow> s\<lparr>menu_toasts := menu_toasts s @ [I18n ''TEXT_DELETE_SUCCESS'' []], message_list := removeRow deleted (message_list s)\<rparr>
      | Some code \<Rightarrow>
          if code = lit ''NOT_LOGIN'' then s
          else s\<lparr>menu_toasts := menu_toasts s @ [error_text code]\<rparr>)"

definition deletion_failed :: "menu \<Rightarrow> menu" where
  "deletion_failed s = s\<lparr>menu_toasts := menu_toasts s @ [Verbatim (lit ''network error'')]\<rparr>"

text \<open>What can happen to the menu and the list.\<close>

inductive menu_step :: "menu \<Rightarrow> menu \<Rightarrow> bool" where
  menu_opened: "row_element i mine inner \<in> set (message_list s) \<Longrightarrow>
     menu_step s (onLinkPopupMessageMenuClicked menu_link (createSuffixedId i MESSAGE_ID_SUFFIX) n s)"
| delete_clicked: "menu_open s \<Longrightarrow> delete_shown s \<Longrightarrow> menu_step s (onLinkDeleteClicked s)"
| answered: "deletions s = i # rest \<Longrightarrow> menu_step s (deletion_answered i err (s\<lparr>deletions := rest\<rparr>))"
| failed: "deletions s = i # rest \<Longrightarrow> menu_step s (deletion_failed (s\<lparr>deletions := rest\<rparr>))"
| row_added: "menu_step s (s\<lparr>message_list := row_element i mine inner # message_list s\<rparr>)"

inductive_cases menu_stepE: "menu_step s s'"

section \<open>Playing a file\<close>

text \<open>The extension is what follows the last dot of the address, whether or not the name has one.\<close>

definition after_last :: "code_unit \<Rightarrow> js_string \<Rightarrow> js_string" where
  "after_last c s = rev (takeWhile (\<lambda>x. x \<noteq> c) (rev s))"

definition extractUrlAndExtension :: "js_string \<Rightarrow> js_string \<Rightarrow> js_string \<times> js_string" where
  "extractUrlAndExtension origin file =
     (let url = origin @ lit ''/upload/'' @ file in (url, after_last 46 url))"

definition media_key :: "bool \<Rightarrow> js_string \<Rightarrow> js_string" where
  "media_key isVideo extension =
     (if isVideo then
        if extension = lit ''webm'' then lit ''webmv'' else if extension = lit ''mp4'' then lit ''m4v''
        else if extension = lit ''ogg'' then lit ''ogv'' else extension
      else if extension = lit ''ogg'' then lit ''oga'' else extension)"

text \<open>What the players are asked for: the key and address of the media, the solutions and the supplied formats.\<close>

record player =
  player_video :: bool
  media :: "js_string \<times> js_string"
  solution :: js_string
  supplied :: js_string

definition popupAndPlay :: "js_string \<Rightarrow> bool \<Rightarrow> js_string \<Rightarrow> player" where
  "popupAndPlay origin isVideo file =
     (case extractUrlAndExtension origin file of (url, extension) \<Rightarrow>
        let key = media_key isVideo extension
        in if isVideo then
             \<lparr>player_video = True, media = (key, url),
              solution = (if extension = lit ''flv'' then lit ''flash,html'' else lit ''html,flash''), supplied = key\<rparr>
           else \<lparr>player_video = False, media = (key, url), solution = lit ''flash,html'', supplied = extension\<rparr>)"

section \<open>Deleting cannot work\<close>

text \<open>Only rows are list items; nothing that is shown inside a row is one or has an identifier of a row.\<close>

fun no_items :: "element \<Rightarrow> bool" where
  "no_items (Element t j d es) \<longleftrightarrow> t \<noteq> ''li'' \<and> list_all no_items es"

fun no_id :: "js_string \<Rightarrow> element \<Rightarrow> bool" where
  "no_id i (Element t j d es) \<longleftrightarrow> j \<noteq> Some i \<and> list_all (no_id i) es"

lemma contains_no_id: "contains i e \<longleftrightarrow> \<not> no_id i e"
proof (induction e)
  case (Element t j d es)
  then show ?case by (auto simp: list_all_iff list_ex_iff)
qed

lemma no_parents_removed:
  "list_all no_items es \<Longrightarrow> remove_parents i es = es"
  by (induction i es rule: remove_parents.induct) simp_all

lemma row_stays:
  assumes "list_all no_items inner" and "\<forall>e\<in>set inner. no_id (createSuffixedId k MESSAGE_ID_SUFFIX) e"
  shows "removeRow k (row_element i mine inner # rows) = row_element i mine inner # removeRow k rows"
  using assms no_parents_removed[of inner]
  by (simp add: removeRow_def row_element_def menu_link_def contains_no_id list_ex_iff list_all_iff)

text \<open>The flag is looked for on the link, but it is data of the row: the entry that deletes is never offered.\<close>

definition delete_hidden :: "menu \<Rightarrow> bool" where
  "delete_hidden s \<longleftrightarrow> (menu_open s \<longrightarrow> \<not> delete_shown s) \<and> deletions s = []"

lemma delete_never_offered:
  assumes "menu_step\<^sup>*\<^sup>* s s'" and "delete_hidden s"
  shows "delete_hidden s'"
  using assms(1)
proof (induction rule: rtranclp_induct)
  case (step s' s'')
  from step(2) step(3) show ?case
    by (elim menu_stepE) (auto simp: onLinkPopupMessageMenuClicked_def menu_link_def delete_hidden_def)
qed (rule assms(2))

text \<open>An extension is recognised in both cases, but the player knows its format only by the small one.\<close>

lemma upper_case_extension_unknown:
  "supplied (popupAndPlay origin True (lit ''a.MP4'')) = lit ''MP4'' \<and> supplied (popupAndPlay origin True (lit ''a.mp4'')) = lit ''m4v''"
  by (simp add: popupAndPlay_def extractUrlAndExtension_def after_last_def media_key_def Let_def)

end
